(* ===== verification/Prelude.thy ===== *)
theory Prelude
  imports Main "HOL-Library.Word"
begin

unbundle bit_operations_syntax

text \<open>
  The shared vocabulary of the open-ltap development: the machine integers and the error
  values of the Rust sources, the checked slice operations of the standard library
  (\<^verbatim>\<open>get(a..b)\<close>, \<^verbatim>\<open>copy_from_slice\<close>), the little- and big-endian codecs
  (\<^verbatim>\<open>from_le_bytes\<close>, \<^verbatim>\<open>to_be_bytes\<close>), alignment, and the lemmas on them
  that every component uses.

  Conventions. Fixed-width integers are words; \<open>usize\<close> offsets and LSNs are \<open>nat\<close>, and
  wherever the source casts or can overflow, the wrap-around or the panic is written out.
  A \<open>Result\<close> is a sum: \<^verbatim>\<open>Err e\<close> on the left, \<^verbatim>\<open>Ok x\<close> on the right.
  A Rust panic (slice index out of range, arithmetic overflow in the checked build profile) is
  the error value \<open>Panic\<close>, so that a theorem that excludes it says the code does not abort.
\<close>

section \<open>Types\<close>

type_synonym u8 = "8 word"
type_synonym u16 = "16 word"
type_synonym u32 = "32 word"
type_synonym u64 = "64 word"
type_synonym i16 = "16 word" \<comment> \<open>two's complement, read with \<open>sint\<close>\<close>
type_synonym i32 = "32 word"
type_synonym i64 = "64 word"
type_synonym bytes = "u8 list"
type_synonym lsn = nat

datatype error = Bail string | SchemaDrift | Panic string

type_synonym 'a result = "error + 'a"

abbreviation Ok :: "'a \<Rightarrow> 'a result" where "Ok \<equiv> Inr"
abbreviation Err :: "error \<Rightarrow> 'a result" where "Err \<equiv> Inl"

named_theorems result_simps "rewriting of the error monad"
named_theorems codec_simps "byte codecs and slices"

section \<open>The error monad\<close>

text \<open>Rust's \<^verbatim>\<open>?\<close> operator: stop at the first error.\<close>

fun rbind :: "'a result \<Rightarrow> ('a \<Rightarrow> 'b result) \<Rightarrow> 'b result" where
  "rbind (Inl e) f = Inl e"
| "rbind (Inr x) f = f x"

lemma rbind_cong [fundef_cong]:
  "m = m' \<Longrightarrow> (\<And>x. m' = Ok x \<Longrightarrow> f x = g x) \<Longrightarrow> rbind m f = rbind m' g"
  by (cases m') auto

lemma rbind_eq_Ok [result_simps]: "rbind m f = Ok y \<longleftrightarrow> (\<exists>x. m = Ok x \<and> f x = Ok y)"
  by (cases m) auto

lemma rbind_eq_Err [result_simps]:
  "rbind m f = Err e \<longleftrightarrow> m = Err e \<or> (\<exists>x. m = Ok x \<and> f x = Err e)"
  by (cases m) auto

fun ok_or :: "'a option \<Rightarrow> error \<Rightarrow> 'a result" where
  "ok_or None e = Err e"
| "ok_or (Some x) e = Ok x"

lemma ok_or_eq_Ok [result_simps]: "ok_or m e = Ok x \<longleftrightarrow> m = Some x"
  by (cases m) auto

lemma ok_or_eq_Err [result_simps]: "ok_or m e = Err e' \<longleftrightarrow> m = None \<and> e' = e"
  by (cases m) auto

fun result_ok :: "'a result \<Rightarrow> 'a option" where
  "result_ok (Inl e) = None"
| "result_ok (Inr x) = Some x"

text \<open>A loop that maps a fallible function over a list (\<^verbatim>\<open>map(..).collect::<Result<_>>()\<close>).\<close>

fun rmap :: "('a \<Rightarrow> 'b result) \<Rightarrow> 'a list \<Rightarrow> 'b list result" where
  "rmap f [] = Ok []"
| "rmap f (x # xs) = rbind (f x) (\<lambda>y. rbind (rmap f xs) (\<lambda>ys. Ok (y # ys)))"

lemma rmap_Ok_length: "rmap f xs = Ok ys \<Longrightarrow> length ys = length xs"
  by (induction xs arbitrary: ys) (auto simp: result_simps)

lemma rmap_Ok_nth: "rmap f xs = Ok ys \<Longrightarrow> i < length xs \<Longrightarrow> f (xs ! i) = Ok (ys ! i)"
  by (induction xs arbitrary: ys i) (auto simp: result_simps less_Suc_eq_0_disj)

lemma rmap_all_Ok: "(\<And>x. x \<in> set xs \<Longrightarrow> f x = Ok (g x)) \<Longrightarrow> rmap f xs = Ok (map g xs)"
  by (induction xs) auto

section \<open>Slices\<close>

text \<open>\<^verbatim>\<open>xs.get(i)\<close> and \<^verbatim>\<open>xs.get(a..b)\<close>: \<open>None\<close> out of range.\<close>

definition get :: "'a list \<Rightarrow> nat \<Rightarrow> 'a option" where
  "get xs i = (if i < length xs then Some (xs ! i) else None)"

definition get_range :: "'a list \<Rightarrow> nat \<Rightarrow> nat \<Rightarrow> 'a list option" where
  "get_range xs a b = (if a \<le> b \<and> b \<le> length xs then Some (take (b - a) (drop a xs)) else None)"

text \<open>\<^verbatim>\<open>&xs[a..b]\<close> and \<^verbatim>\<open>xs[i]\<close>: a panic out of range.\<close>

definition slice :: "'a list \<Rightarrow> nat \<Rightarrow> nat \<Rightarrow> 'a list result" where
  "slice xs a b = ok_or (get_range xs a b) (Panic ''slice index out of range'')"

definition index :: "'a list \<Rightarrow> nat \<Rightarrow> 'a result" where
  "index xs i = ok_or (get xs i) (Panic ''index out of bounds'')"

text \<open>\<^verbatim>\<open>page[i..i + bs.len()].copy_from_slice(bs)\<close>, in range.\<close>

definition put :: "'a list \<Rightarrow> nat \<Rightarrow> 'a list \<Rightarrow> 'a list" where
  "put xs i bs = take i xs @ bs @ drop (i + length bs) xs"

lemma get_eq_Some: "get xs i = Some x \<longleftrightarrow> i < length xs \<and> xs ! i = x"
  by (auto simp: get_def)

lemma get_range_eq_Some:
  "get_range xs a b = Some ys \<longleftrightarrow> a \<le> b \<and> b \<le> length xs \<and> ys = take (b - a) (drop a xs)"
  by (auto simp: get_range_def)

lemma get_range_length: "get_range xs a b = Some ys \<Longrightarrow> length ys = b - a"
  by (auto simp: get_range_def split: if_splits)

lemma get_range_in: "a \<le> b \<Longrightarrow> b \<le> length xs \<Longrightarrow> get_range xs a b = Some (take (b - a) (drop a xs))"
  by (simp add: get_range_def)

lemma get_range_append1 [codec_simps]:
  "b \<le> length xs \<Longrightarrow> get_range (xs @ ys) a b = get_range xs a b"
  by (auto simp: get_range_def)

lemma get_range_append2 [codec_simps]:
  "length xs \<le> a \<Longrightarrow> a \<le> b \<Longrightarrow> get_range (xs @ ys) a b = get_range ys (a - length xs) (b - length xs)"
  by (auto simp: get_range_def)

lemma get_range_all [codec_simps]: "n = length xs \<Longrightarrow> get_range xs 0 n = Some xs"
  by (simp add: get_range_def)

lemma slice_Ok: "a \<le> b \<Longrightarrow> b \<le> length xs \<Longrightarrow> slice xs a b = Ok (take (b - a) (drop a xs))"
  by (simp add: slice_def get_range_in)

lemma index_Ok: "i < length xs \<Longrightarrow> index xs i = Ok (xs ! i)"
  by (simp add: index_def get_def)

lemma length_put [simp]: "i + length bs \<le> length xs \<Longrightarrow> length (put xs i bs) = length xs"
  by (simp add: put_def)

lemma get_range_put_same:
  "i + length bs \<le> length xs \<Longrightarrow> b = i + length bs \<Longrightarrow> get_range (put xs i bs) i b = Some bs"
  by (simp add: put_def get_range_def)

lemma get_range_put_before:
  "b \<le> i \<Longrightarrow> i + length bs \<le> length xs \<Longrightarrow> get_range (put xs i bs) a b = get_range xs a b"
  by (auto simp: put_def get_range_def min_def drop_take)

lemma get_range_put_after:
  assumes "i + length bs \<le> a" and "i + length bs \<le> length xs"
  shows "get_range (put xs i bs) a b = get_range xs a b"
proof -
  have "drop a (put xs i bs) = drop (a - (i + length bs)) (drop (i + length bs) xs)"
    using assms by (simp add: put_def)
  also have "\<dots> = drop a xs"
    using assms by simp
  finally show ?thesis
    using assms by (simp add: get_range_def)
qed

lemma put_nth:
  assumes "i + length bs \<le> length xs" and "k < length xs"
  shows "put xs i bs ! k = (if i \<le> k \<and> k < i + length bs then bs ! (k - i) else xs ! k)"
  using assms by (auto simp: put_def nth_append min_def)

section \<open>Byte codecs\<close>

fun le_nat :: "bytes \<Rightarrow> nat" where
  "le_nat [] = 0"
| "le_nat (b # bs) = unat b + 256 * le_nat bs"

fun le_bytes :: "nat \<Rightarrow> nat \<Rightarrow> bytes" where
  "le_bytes 0 v = []"
| "le_bytes (Suc n) v = word_of_nat v # le_bytes n (v div 256)"

definition from_le :: "bytes \<Rightarrow> 'a::len word" where
  "from_le bs = word_of_nat (le_nat bs)"

definition from_be :: "bytes \<Rightarrow> 'a::len word" where
  "from_be bs = from_le (rev bs)"

text \<open>\<^verbatim>\<open>to_le_bytes\<close>: as many bytes as the type has.\<close>

definition to_le :: "'a::len word \<Rightarrow> bytes" where
  "to_le w = le_bytes (LENGTH('a) div 8) (unat w)"

definition to_be :: "'a::len word \<Rightarrow> bytes" where
  "to_be w = rev (to_le w)"

lemma length_le_bytes [simp]: "length (le_bytes n v) = n"
  by (induction n arbitrary: v) auto

lemma unat_byte: "unat (word_of_nat v :: u8) = v mod 256"
  by (simp add: unat_of_nat)

lemma le_nat_le_bytes: "le_nat (le_bytes n v) = v mod 256 ^ n"
proof (induction n arbitrary: v)
  case 0
  then show ?case by simp
next
  case (Suc n)
  have "le_nat (le_bytes (Suc n) v) = v mod 256 + 256 * (v div 256 mod 256 ^ n)"
    by (simp add: Suc unat_byte)
  also have "\<dots> = v mod (256 * 256 ^ n)"
    by (simp add: mod_mult2_eq)
  finally show ?case by simp
qed

lemma le_nat_bound: "le_nat bs < 256 ^ length bs"
proof (induction bs)
  case Nil
  then show ?case by simp
next
  case (Cons b bs)
  have "unat b < 256"
    using unsigned_less [of b, where ?'a = nat] by simp
  moreover have "256 * le_nat bs + 256 \<le> 256 * 256 ^ length bs"
    using Cons by (metis Suc_leI add.commute mult_Suc_right mult_le_mono2)
  ultimately show ?case by simp
qed

lemma le_bytes_le_nat: "le_bytes (length bs) (le_nat bs) = bs"
proof (induction bs)
  case Nil
  then show ?case by simp
next
  case (Cons b bs)
  have b: "unat b < 256"
    using unsigned_less [of b, where ?'a = nat] by simp
  have "(unat b + 256 * le_nat bs) div 256 = le_nat bs"
    using b by simp
  moreover have "(word_of_nat (unat b + 256 * le_nat bs) :: u8) = b"
  proof (rule unsigned_word_eqI [where ?'a = nat])
    show "unat (word_of_nat (unat b + 256 * le_nat bs) :: u8) = unat b"
      using b by (simp only: unat_byte) simp
  qed
  ultimately show ?case
    by (simp add: Cons)
qed

lemma length_to_le: "length (to_le (w :: 'a::len word)) = LENGTH('a) div 8"
  by (simp add: to_le_def)

lemma length_to_le_u16 [simp]: "length (to_le (a :: 16 word)) = 2"
  and length_to_le_u32 [simp]: "length (to_le (b :: 32 word)) = 4"
  and length_to_le_u64 [simp]: "length (to_le (c :: 64 word)) = 8"
  by (simp_all add: length_to_le)

lemma from_to_le:
  assumes "8 dvd LENGTH('a::len)"
  shows "from_le (to_le (w :: 'a word)) = w"
proof -
  from assms obtain k where k: "LENGTH('a) = 8 * k" ..
  have "(256 :: nat) ^ k = 2 ^ LENGTH('a)"
    unfolding k by (simp add: power_mult)
  moreover have "unat w < 2 ^ LENGTH('a)"
    by (rule unsigned_less)
  ultimately have "le_nat (to_le w) = unat w"
    by (simp add: to_le_def le_nat_le_bytes k)
  then show ?thesis
    by (simp add: from_le_def)
qed

lemma from_to_le_u16 [simp]: "from_le (to_le (a :: 16 word)) = a"
  and from_to_le_u32 [simp]: "from_le (to_le (b :: 32 word)) = b"
  and from_to_le_u64 [simp]: "from_le (to_le (c :: 64 word)) = c"
  by (simp_all add: from_to_le)

lemma length_to_be_u16 [simp]: "length (to_be (a :: 16 word)) = 2"
  and length_to_be_u32 [simp]: "length (to_be (b :: 32 word)) = 4"
  and length_to_be_u64 [simp]: "length (to_be (c :: 64 word)) = 8"
  by (simp_all add: to_be_def)

lemma from_to_be_u16 [simp]: "from_be (to_be (a :: 16 word)) = a"
  and from_to_be_u32 [simp]: "from_be (to_be (b :: 32 word)) = b"
  and from_to_be_u64 [simp]: "from_be (to_be (c :: 64 word)) = c"
  by (simp_all add: from_be_def to_be_def)

lemma le_bytes_2: "le_bytes 2 v = [word_of_nat v, word_of_nat (v div 256)]"
  by (simp add: numeral_2_eq_2)

section \<open>Alignment\<close>

text \<open>
  \<^verbatim>\<open>(off + align - 1) & !(align - 1)\<close> for a power of two \<open>align\<close>: written with
  the bit operations of the source; \<open>align_up\<close> is the arithmetic reading.
\<close>

definition align_up :: "nat \<Rightarrow> nat \<Rightarrow> nat" where
  "align_up off a = (off + (a - 1)) div a * a"

lemma align_up_ge: "0 < a \<Longrightarrow> off \<le> align_up off a"
proof -
  assume a: "0 < a"
  have "off + (a - 1) = align_up off a + (off + (a - 1)) mod a"
    by (simp add: align_up_def)
  moreover have "(off + (a - 1)) mod a \<le> a - 1"
    using a by (metis Suc_pred' less_Suc_eq_le mod_less_divisor)
  ultimately show ?thesis by linarith
qed

lemma align_up_dvd: "a dvd align_up off a"
  by (simp add: align_up_def)

lemma align_up_less: "0 < a \<Longrightarrow> align_up off a < off + a"
proof -
  assume a: "0 < a"
  have "align_up off a \<le> off + (a - 1)"
    by (simp add: align_up_def)
  with a show ?thesis by linarith
qed

lemma align_up_id: "0 < a \<Longrightarrow> a dvd off \<Longrightarrow> align_up off a = off"
proof -
  assume a: "0 < a" and "a dvd off"
  then obtain k where off: "off = k * a" by (auto elim!: dvdE simp: mult.commute)
  have "(a - 1 + k * a) div a = k"
    using a by (subst div_mult_self1) auto
  then show "align_up off a = off"
    by (simp only: align_up_def off add.commute)
qed

section \<open>Iterators\<close>

text \<open>
  \<^verbatim>\<open>Iterator::max_by_key\<close>: the last of the elements whose key is greatest.
\<close>

fun max_by_key :: "('a \<Rightarrow> 'b::linorder) \<Rightarrow> 'a list \<Rightarrow> 'a option" where
  "max_by_key f [] = None"
| "max_by_key f (x # xs) = Some (fold (\<lambda>y m. if f m \<le> f y then y else m) xs x)"

lemma fold_max_by_key:
  "fold (\<lambda>y m. if f m \<le> f y then y else m) xs x \<in> set (x # xs) \<and>
   (\<forall>y \<in> set (x # xs). f y \<le> f (fold (\<lambda>y m. if f m \<le> f y then y else m) xs x))"
  for f :: "'a \<Rightarrow> 'b::linorder"
proof (induction xs arbitrary: x)
  case Nil
  then show ?case by simp
next
  case (Cons z xs)
  let ?x = "if f x \<le> f z then z else x"
  have "f x \<le> f ?x" and "f z \<le> f ?x" and "?x \<in> {x, z}" by auto
  with Cons [of ?x] show ?case by fastforce
qed

lemma max_by_key_None [simp]: "max_by_key f xs = None \<longleftrightarrow> xs = []"
  by (cases xs) auto

lemma max_by_key_Some:
  assumes "max_by_key f xs = Some m"
  shows "m \<in> set xs" and "y \<in> set xs \<Longrightarrow> f y \<le> f m"
  using assms fold_max_by_key [of f "tl xs" "hd xs"] by (cases xs; auto)+

text \<open>The half-open range \<^verbatim>\<open>a..b\<close> of 32-bit values.\<close>

definition u32_range :: "u32 \<Rightarrow> u32 \<Rightarrow> u32 list" where
  "u32_range a b = map word_of_nat [unat a..<unat b]"

lemma set_u32_range [simp]: "set (u32_range a b) = {x. a \<le> x \<and> x < b}"
proof -
  have "x \<in> word_of_nat ` {unat a..<unat b} \<longleftrightarrow> a \<le> x \<and> x < b" for x :: u32
  proof
    assume "x \<in> word_of_nat ` {unat a..<unat b}"
    then obtain n where n: "x = word_of_nat n" "unat a \<le> n" "n < unat b" by auto
    have "n < 2 ^ 32"
      using n(3) unsigned_less [of b, where ?'a = nat] by simp
    then have "unat x = n"
      by (simp add: n(1) unat_of_nat)
    with n show "a \<le> x \<and> x < b"
      by (simp add: word_le_nat_alt word_less_nat_alt)
  next
    assume "a \<le> x \<and> x < b"
    then have "unat x \<in> {unat a..<unat b}"
      by (simp add: word_le_nat_alt word_less_nat_alt)
    moreover have "x = word_of_nat (unat x)" by simp
    ultimately show "x \<in> word_of_nat ` {unat a..<unat b}" by (metis imageI)
  qed
  then show ?thesis
    by (auto simp: u32_range_def)
qed

section \<open>Fixed-width blocks\<close>

lemma concat_block:
  assumes len: "\<And>i. i < n \<Longrightarrow> length (f i) = w" and "i < n" and "b \<le> w"
  shows "get_range (concat (map f [0..<n]) @ zs) (i * w + a) (i * w + b) = get_range (f i) a b"
proof -
  have clen: "length (concat (map f [0..<m])) = m * w" if "m \<le> n" for m
    using that by (induction m) (auto simp: len)
  have split: "[0..<n] = [0..<i] @ i # [Suc i..<n]"
    using \<open>i < n\<close> by (metis less_imp_le upt_add_eq_append upt_conv_Cons le0 le_add_diff_inverse)
  have "concat (map f [0..<n]) @ zs = concat (map f [0..<i]) @ f i @ (concat (map f [Suc i..<n]) @ zs)"
    unfolding split by simp
  moreover have "length (concat (map f [0..<i])) = i * w"
    using \<open>i < n\<close> by (intro clen) simp
  moreover have "length (f i) = w" using len \<open>i < n\<close> by simp
  ultimately show ?thesis
    using \<open>b \<le> w\<close> by (auto simp: get_range_def)
qed

lemma get_get_range: "get xs i = map_option hd (get_range xs i (i + 1))"
  by (cases "drop i xs") (auto simp: get_def get_range_def hd_drop_conv_nth [symmetric])

lemma drop_past: "drop n xs = ys @ zs \<Longrightarrow> drop (n + length ys) xs = zs"
  by (metis add.commute append_eq_conv_conj drop_drop)

lemma and_not_minus: "w AND NOT x = w - (w AND x)" for w x :: "'a::len word"
proof -
  have "(w AND x) + (w AND NOT x) = (w AND x) OR (w AND NOT x)"
    by (rule disjunctive_add) (auto simp: bit_and_iff bit_not_iff)
  also have "\<dots> = w" by (rule bit_word_eqI) (auto simp: bit_and_iff bit_or_iff bit_not_iff)
  finally show ?thesis by (metis add_diff_cancel_left')
qed

lemma nat_or_disjoint: "a < 2 ^ n \<Longrightarrow> push_bit n c OR a = push_bit n c + a" for a c :: nat
proof -
  assume "a < 2 ^ n"
  then have "\<not> bit a m" if "n \<le> m" for m
    using that by (metis bit_take_bit_iff not_le take_bit_nat_eq_self)
  then show ?thesis
    by (intro disjunctive_add [symmetric]) (auto simp: bit_simps)
qed

lemma unat_u8: "v < 256 \<Longrightarrow> unat (word_of_nat v :: u8) = v"
  by (simp add: unat_of_nat)

lemma unat_u16: "n < 65536 \<Longrightarrow> unat (word_of_nat n :: u16) = n"
  by (simp add: unat_of_nat)

lemma unat_u32: "n < 2 ^ 32 \<Longrightarrow> unat (word_of_nat n :: u32) = n"
  by (simp add: unat_of_nat)

section \<open>Checked arithmetic, chunks, ordered maps\<close>

text \<open>
  Signed addition and subtraction as the checked build profile compiles them: a panic where the
  mathematical result does not fit.
\<close>

definition checked_add :: "'a::len word \<Rightarrow> 'a word \<Rightarrow> 'a word result" where
  "checked_add x y =
     (if sint (x + y) = sint x + sint y then Ok (x + y) else Err (Panic ''attempt to add with overflow''))"

definition checked_sub :: "'a::len word \<Rightarrow> 'a word \<Rightarrow> 'a word result" where
  "checked_sub x y =
     (if sint (x - y) = sint x - sint y then Ok (x - y)
      else Err (Panic ''attempt to subtract with overflow''))"

lemma checked_sub_add: "checked_sub x y = Ok z \<Longrightarrow> checked_add z y = Ok x"
  by (auto simp: checked_sub_def checked_add_def split: if_splits)

text \<open>\<^verbatim>\<open>chunks_exact(n)\<close>: whole chunks only.\<close>

function chunks_exact :: "nat \<Rightarrow> 'a list \<Rightarrow> 'a list list" where
  "chunks_exact n xs = (if n = 0 \<or> length xs < n then [] else take n xs # chunks_exact n (drop n xs))"
  by pat_completeness auto
termination by (relation "measure (\<lambda>(n, xs). length xs)") auto

declare chunks_exact.simps [simp del]

lemma chunks_exact_append:
  "length x = n \<Longrightarrow> 0 < n \<Longrightarrow> chunks_exact n (x @ xs) = x # chunks_exact n xs"
  by (subst chunks_exact.simps) simp

lemma chunks_exact_Nil [simp]: "chunks_exact n [] = []"
  by (subst chunks_exact.simps) auto

lemma chunks_exact_concat:
  "0 < n \<Longrightarrow> (\<And>x. x \<in> set xss \<Longrightarrow> length x = n) \<Longrightarrow> chunks_exact n (concat xss) = xss"
  by (induction xss) (auto simp: chunks_exact_append)

text \<open>\<^verbatim>\<open>BTreeMap::insert\<close>: an association list kept in key order.\<close>

fun bt_insert :: "'k::linorder \<Rightarrow> 'v \<Rightarrow> ('k \<times> 'v) list \<Rightarrow> ('k \<times> 'v) list" where
  "bt_insert k v [] = [(k, v)]"
| "bt_insert k v ((k', v') # m) =
     (if k < k' then (k, v) # (k', v') # m
      else if k = k' then (k, v) # m
      else (k', v') # bt_insert k v m)"

lemma bt_insert_map_of: "sorted (map fst m) \<Longrightarrow> map_of (bt_insert k v m) = (map_of m)(k \<mapsto> v)"
proof (induction m)
  case (Cons p m)
  obtain k' v' where p: "p = (k', v')" by (cases p)
  have "map_of m k = None" if "k < k'"
  proof -
    from Cons.prems that p have "k \<notin> fst ` set m" by fastforce
    then show ?thesis by (simp add: map_of_eq_None_iff)
  qed
  then show ?case using Cons p by (auto simp: fun_eq_iff)
qed auto

lemma bt_insert_keys: "fst ` set (bt_insert k v m) = insert k (fst ` set m)"
proof (induction m)
  case (Cons p m)
  then show ?case by (cases p) (simp add: insert_commute)
qed simp

lemma bt_insert_sorted:
  "sorted (map fst m) \<and> distinct (map fst m) \<Longrightarrow>
   sorted (map fst (bt_insert k v m)) \<and> distinct (map fst (bt_insert k v m))"
proof (induction m)
  case (Cons p m)
  then show ?case
    using bt_insert_keys [of k v m] by (cases p) (fastforce simp flip: set_map)
qed simp

lemma bt_unique:
  fixes m m' :: "('k::linorder \<times> 'v) list"
  assumes "sorted (map fst m)" "distinct (map fst m)" "sorted (map fst m')" "distinct (map fst m')"
    and "set m = set m'"
  shows "m = m'"
proof -
  have keys: "map fst m = map fst m'"
    using assms by (intro sorted_distinct_set_unique) auto
  have "map_of m = map_of m'"
    using assms(2,4,5) keys by (subst map_of_inject_set) auto
  have "map snd m = map (the \<circ> map_of m) (map fst m)"
    using assms(2) by (auto simp: map_of_is_SomeI)
  also have "\<dots> = map (the \<circ> map_of m') (map fst m')"
    using keys \<open>map_of m = map_of m'\<close> by simp
  also have "\<dots> = map snd m'"
    using assms(4) by (auto simp: map_of_is_SomeI)
  finally show ?thesis using keys by (metis zip_map_fst_snd)
qed

lemma bt_insert_new_set: "sorted (map fst m) \<Longrightarrow> k \<notin> fst ` set m \<Longrightarrow> set (bt_insert k v m) = insert (k, v) (set m)"
proof (induction m)
  case (Cons p m)
  then show ?case by (cases p) (simp add: insert_commute)
qed simp

lemma le_bytes_4:
  "le_bytes 4 v = [word_of_nat v, word_of_nat (v div 256), word_of_nat (v div 65536), word_of_nat (v div 16777216)]"
proof -
  have "(4 :: nat) = Suc (Suc (Suc (Suc 0)))" by simp
  then show ?thesis by (simp only: le_bytes.simps div_mult2_eq [symmetric]) simp
qed

section \<open>Positions and monadic folds\<close>

text \<open>\<^verbatim>\<open>iter().position(..)\<close>: the index of the first element that satisfies the predicate.\<close>

fun position :: "('a \<Rightarrow> bool) \<Rightarrow> 'a list \<Rightarrow> nat option" where
  "position P [] = None"
| "position P (x # xs) = (if P x then Some 0 else map_option Suc (position P xs))"

lemma position_Some:
  "position P xs = Some i \<Longrightarrow> i < length xs \<and> P (xs ! i) \<and> (\<forall>j < i. \<not> P (xs ! j))"
  by (induction xs arbitrary: i) (auto split: if_splits simp: less_Suc_eq_0_disj)

lemma position_None: "position P xs = None \<longleftrightarrow> (\<forall>x \<in> set xs. \<not> P x)"
  by (induction xs) auto

lemma position_key:
  assumes "distinct (map f xs)" "i < length xs"
  shows "position (\<lambda>x. f x = f (xs ! i)) xs = Some i"
proof -
  have "position (\<lambda>x. f x = f (xs ! i)) xs \<noteq> None"
    using assms(2) position_None [of "\<lambda>x. f x = f (xs ! i)" xs] by auto
  then obtain j where j: "position (\<lambda>x. f x = f (xs ! i)) xs = Some j" by blast
  have "map f xs ! j = map f xs ! i" "j < length xs"
    using position_Some [OF j] assms(2) by simp_all
  then have "j = i" using assms nth_eq_iff_index_eq [of "map f xs" j i] by simp
  then show ?thesis using j by simp
qed

lemma position_append:
  "position P (xs @ ys) = (case position P xs of Some i \<Rightarrow> Some i | None \<Rightarrow> map_option (\<lambda>i. i + length xs) (position P ys))"
  by (induction xs) (auto simp: option.map_comp comp_def option.map_ident split: option.split)

lemma position_map: "position P (map f xs) = position (\<lambda>x. P (f x)) xs"
  by (induction xs) auto

lemma rmap_same: "map f xs = map g ys \<Longrightarrow> rmap f xs = rmap g ys"
proof (induction xs arbitrary: ys)
  case (Cons x xs)
  then obtain y ys' where "ys = y # ys'" "f x = g y" "map f xs = map g ys'" by (cases ys) auto
  then show ?case using Cons.IH by simp
qed simp

lemma rmap_nth_iff: "rmap f xs = Ok ys \<longleftrightarrow> length ys = length xs \<and> (\<forall>i < length xs. f (xs ! i) = Ok (ys ! i))"
proof (induction xs arbitrary: ys)
  case (Cons x xs)
  show ?case
    by (cases ys) (auto simp: result_simps Cons nth_Cons split: nat.splits)
qed auto

fun rfold :: "('a \<Rightarrow> 's \<Rightarrow> 's result) \<Rightarrow> 'a list \<Rightarrow> 's \<Rightarrow> 's result" where
  "rfold f [] s = Ok s"
| "rfold f (x # xs) s = rbind (f x s) (rfold f xs)"

lemma rfold_append: "rfold f (xs @ ys) s = rbind (rfold f xs s) (rfold f ys)"
proof (induction xs arbitrary: s)
  case (Cons x xs)
  then show ?case by (cases "f x s") simp_all
qed simp

section \<open>Loops, chunks and lookups\<close>

lemma rfold_cong: "(\<And>x s. x \<in> set xs \<Longrightarrow> f x s = g x s) \<Longrightarrow> rfold f xs s = rfold g xs s"
proof (induction xs arbitrary: s)
  case (Cons x xs)
  then show ?case by (cases "g x s") simp_all
qed simp

lemma map_nth_eq_map: "map (\<lambda>i. f (xs ! i)) [0..<length xs] = map f xs"
  by (rule nth_equalityI) simp_all

lemma rfold_extends:
  "(\<And>i out. i < n \<Longrightarrow> g i out = Ok (out @ h i)) \<Longrightarrow> rfold g [0..<n] out = Ok (out @ concat (map h [0..<n]))"
  by (induction n) (simp_all add: rfold_append)

lemma length_chunks: "\<forall>s \<in> set ss. length s = w \<Longrightarrow> length (concat ss) = length ss * w"
  by (induction ss) auto

lemma take_chunk:
  assumes "\<forall>s \<in> set ss. length s = w" "i < length ss"
  shows "take w (drop (i * w) (concat ss)) = ss ! i"
proof -
  have "get_range (concat (map ((!) ss) [0..<length ss]) @ []) (i * w + 0) (i * w + w) = get_range (ss ! i) 0 w"
    by (rule concat_block) (use assms in auto)
  moreover have "length (concat ss) = length ss * w" using assms(1) by (induction ss) auto
  moreover have "i * w + w \<le> length ss * w" using assms(2) by (metis Suc_leI add.commute mult_Suc mult_le_mono1)
  ultimately show ?thesis using assms by (simp add: map_nth get_range_def)
qed

lemma le_bytes_map: "le_bytes m n = map (\<lambda>k. word_of_nat (n div 256 ^ k)) [0..<m]"
proof (induction m arbitrary: n)
  case (Suc m)
  show ?case by (subst upt_conv_Cons) (simp_all add: Suc map_Suc_upt [symmetric] div_mult2_eq del: upt_Suc)
qed simp

lemma slice_drop: "drop off xs = hs @ ys @ zs \<Longrightarrow> ys \<noteq> [] \<or> hs \<noteq> [] \<Longrightarrow>
    get_range xs (off + length hs) (off + length hs + length ys) = Some ys"
proof -
  assume d: "drop off xs = hs @ ys @ zs" and ne: "ys \<noteq> [] \<or> hs \<noteq> []"
  have "length xs - off = length hs + length ys + length zs" using arg_cong [OF d, of length] by simp
  moreover have "drop (off + length hs) xs = ys @ zs" using d by (metis add.commute append_eq_conv_conj drop_drop)
  moreover have "off < length xs" using d ne by (metis append_is_Nil_conv drop_all linorder_not_less)
  ultimately show ?thesis by (simp add: get_range_def)
qed

lemma get_drop: "drop off xs = ys @ zs \<Longrightarrow> ys \<noteq> [] \<Longrightarrow> get xs off = Some (ys ! 0)"
proof -
  assume d: "drop off xs = ys @ zs" and ne: "ys \<noteq> []"
  then have "off < length xs" by (metis append_is_Nil_conv drop_all linorder_not_less)
  moreover from this have "xs ! off = hd (ys @ zs)" using d by (simp flip: hd_drop_conv_nth)
  ultimately show "get xs off = Some (ys ! 0)" using ne by (simp add: get_def nth_append hd_conv_nth)
qed

lemma foldl_max: "foldl max a xs = Max (set (a # xs))" for a :: "'a::linorder"
proof (induction xs arbitrary: a)
  case (Cons x xs)
  show ?case using Cons [of "max a x"] by (cases "xs = []") (simp_all add: max.assoc)
qed simp

lemma distinct_u32_range: "distinct (u32_range a b)"
proof -
  have "unat (word_of_nat x :: u32) = x" if "x \<in> {unat a..<unat b}" for x
    using that unsigned_less [of b, where ?'a = nat] by (simp add: unat_of_nat)
  then have "inj_on (word_of_nat :: nat \<Rightarrow> u32) {unat a..<unat b}" by (rule inj_on_inverseI)
  then show ?thesis by (simp add: u32_range_def distinct_map)
qed

lemma rmap_map: "rmap f (map g xs) = rmap (\<lambda>x. f (g x)) xs"
  by (induction xs) simp_all

lemma rmap_cong: "(\<And>x. x \<in> set xs \<Longrightarrow> f x = g x) \<Longrightarrow> rmap f xs = rmap g xs"
  by (induction xs) simp_all

lemma find_only: "x \<in> set xs \<Longrightarrow> P x \<Longrightarrow> (\<And>y. y \<in> set xs \<Longrightarrow> P y \<Longrightarrow> y = x) \<Longrightarrow> find P xs = Some x"
proof (induction xs)
  case (Cons z zs)
  show ?case
  proof (cases "P z")
    case True
    then have "z = x" by (intro Cons.prems(3)) simp_all
    then show ?thesis using True by simp
  next
    case False
    then have "x \<in> set zs" using Cons.prems(1,2) by auto
    then have "find P zs = Some x" by (rule Cons.IH [OF _ Cons.prems(2)]) (rule Cons.prems(3), simp_all)
    then show ?thesis using False by simp
  qed
qed simp

text \<open>\<^verbatim>\<open>str::split(',')\<close>\<close>

fun split_comma :: "string \<Rightarrow> string list" where
  "split_comma [] = [[]]"
| "split_comma (c # cs) =
     (if c = CHR '','' then [] # split_comma cs
      else (case split_comma cs of [] \<Rightarrow> [[c]] | s # ss \<Rightarrow> (c # s) # ss))"

end
