(* ===== verification/Timetravel.thy ===== *)
theory Timetravel
  imports Prelude
begin

text \<open>
  \<^verbatim>\<open>src/timetravel.rs\<close>: page-at-LSN reads, garbage-collection gating and branching over
  columnar fragments. The fragment index of one timeline is a \<open>Lake\<close>; a read resolves to the
  newest covering fragment and the retained change tail, a heap image may be collected when
  fragments cover it, and a branch inherits its parent's history frozen at the branch point.
\<close>

section \<open>Fragments and lakes\<close>

record Fragment =
  frag_rel :: u32
  frag_start :: u32
  frag_end :: u32
  frag_lsn :: lsn

definition covers :: "Fragment \<Rightarrow> u32 \<Rightarrow> u32 \<Rightarrow> bool" where
  "covers f rel block \<longleftrightarrow> frag_rel f = rel \<and> frag_start f \<le> block \<and> block < frag_end f"

datatype Resolve = Serve (base_lsn: lsn) (read_lsn: lsn) | BelowHorizon | Uncovered

record Lake =
  fragments :: "Fragment list"
  tail_floor :: lsn
  tip :: lsn

definition lake_base :: "Lake \<Rightarrow> u32 \<Rightarrow> u32 \<Rightarrow> lsn \<Rightarrow> Fragment option" where
  "lake_base l rel block rd =
     max_by_key frag_lsn (filter (\<lambda>f. covers f rel block \<and> frag_lsn f \<le> rd) (fragments l))"

definition lake_resolve :: "Lake \<Rightarrow> u32 \<Rightarrow> u32 \<Rightarrow> lsn \<Rightarrow> Resolve" where
  "lake_resolve l rel block rd =
     (case lake_base l rel block rd of
        Some f \<Rightarrow>
          if frag_lsn f = rd \<or> frag_lsn f \<ge> tail_floor l then Serve (frag_lsn f) rd
          else BelowHorizon
      | None \<Rightarrow>
          if list_ex (\<lambda>f. covers f rel block) (fragments l) then BelowHorizon else Uncovered)"

definition image_redundant :: "Lake \<Rightarrow> u32 \<Rightarrow> u32 \<Rightarrow> u32 \<Rightarrow> lsn \<Rightarrow> bool" where
  "image_redundant l rel start stop gc_horizon \<longleftrightarrow>
     list_all (\<lambda>b. list_ex (\<lambda>f. covers f rel b \<and> frag_lsn f \<le> gc_horizon \<and> frag_lsn f \<ge> tail_floor l)
                     (fragments l))
       (u32_range start stop)"

section \<open>Branches\<close>

record Branch =
  parent :: Lake
  branch_lsn :: lsn
  own :: Lake

definition branch_resolve :: "Branch \<Rightarrow> u32 \<Rightarrow> u32 \<Rightarrow> lsn \<Rightarrow> Resolve" where
  "branch_resolve b rel block rd =
     (if rd \<le> branch_lsn b then lake_resolve (parent b) rel block rd
      else case lake_resolve (own b) rel block rd of
             Uncovered \<Rightarrow> lake_resolve (parent b) rel block (branch_lsn b)
           | other \<Rightarrow> other)"

definition effective_gc_horizon :: "lsn \<Rightarrow> lsn list \<Rightarrow> lsn" where
  "effective_gc_horizon configured branch_points = fold (\<lambda>p acc. min acc p) branch_points configured"

section \<open>Reads of one lake\<close>

text \<open>The fragments a read may start from.\<close>

definition base_candidate :: "Lake \<Rightarrow> u32 \<Rightarrow> u32 \<Rightarrow> lsn \<Rightarrow> Fragment \<Rightarrow> bool" where
  "base_candidate l rel block rd f \<longleftrightarrow> f \<in> set (fragments l) \<and> covers f rel block \<and> frag_lsn f \<le> rd"

lemma lake_base_None: "lake_base l rel block rd = None \<longleftrightarrow> (\<nexists>f. base_candidate l rel block rd f)"
  by (auto simp: lake_base_def base_candidate_def filter_empty_conv)

lemma lake_base_Some:
  assumes "lake_base l rel block rd = Some f"
  shows "base_candidate l rel block rd f"
    and "base_candidate l rel block rd g \<Longrightarrow> frag_lsn g \<le> frag_lsn f"
  using max_by_key_Some [OF assms [unfolded lake_base_def]]
  by (auto simp: base_candidate_def)

text \<open>Reading is monotone in what the lake holds: a candidate above the floor suffices.\<close>

lemma lake_resolve_candidate:
  assumes "base_candidate l rel block rd f" and "tail_floor l \<le> frag_lsn f"
  shows "\<exists>b. lake_resolve l rel block rd = Serve b rd \<and> frag_lsn f \<le> b"
proof (cases "lake_base l rel block rd")
  case None
  with assms(1) show ?thesis by (auto simp: lake_base_None)
next
  case (Some g)
  with assms have "frag_lsn f \<le> frag_lsn g" by (auto dest: lake_base_Some)
  with Some assms(2) show ?thesis by (auto simp: lake_resolve_def)
qed

lemma lake_resolve_Serve:
  "lake_resolve l rel block rd = Serve b r \<longleftrightarrow>
     r = rd \<and> (b = rd \<or> tail_floor l \<le> b) \<and>
     (\<exists>f. base_candidate l rel block rd f \<and> frag_lsn f = b) \<and>
     (\<forall>g. base_candidate l rel block rd g \<longrightarrow> frag_lsn g \<le> b)"
proof (cases "lake_base l rel block rd")
  case None
  then have "\<nexists>f. base_candidate l rel block rd f" by (simp add: lake_base_None)
  with None show ?thesis by (auto simp: lake_resolve_def)
next
  case (Some f)
  note f = lake_base_Some [OF Some]
  have "frag_lsn f = b \<longleftrightarrow> (\<exists>g. base_candidate l rel block rd g \<and> frag_lsn g = b) \<and>
      (\<forall>g. base_candidate l rel block rd g \<longrightarrow> frag_lsn g \<le> b)"
    using f by (metis order_antisym)
  with Some show ?thesis by (auto simp: lake_resolve_def)
qed

section \<open>The interface of a resolver\<close>

text \<open>
  What a client of a resolver relies on: a served read names a base and a target that are not
  in the future of the LSN it asked for. Both a lake and a branch provide it.
\<close>

locale page_resolver =
  fixes resolve :: "u32 \<Rightarrow> u32 \<Rightarrow> lsn \<Rightarrow> Resolve"
  assumes serve_past: "resolve rel block rd = Serve b r \<Longrightarrow> b \<le> r \<and> r \<le> rd"
begin

lemma serve_tail_span: "resolve rel block rd = Serve b r \<Longrightarrow> {b<..r} \<subseteq> {b<..rd}"
  using serve_past by fastforce

lemma no_future_base: "rd < b \<Longrightarrow> resolve rel block rd \<noteq> Serve b r"
  using serve_past by fastforce

end

interpretation lake: page_resolver "lake_resolve l" for l
  by unfold_locales (auto simp: lake_resolve_Serve base_candidate_def)

interpretation branch: page_resolver "branch_resolve b" for b
proof
  fix rel block rd base r
  assume "branch_resolve b rel block rd = Serve base r"
  then show "base \<le> r \<and> r \<le> rd"
    using lake.serve_past [of "own b" rel block rd base r]
      lake.serve_past [of "parent b" rel block rd base r]
      lake.serve_past [of "parent b" rel block "branch_lsn b" base r]
    by (auto simp: branch_resolve_def split: if_splits Resolve.splits)
qed

section \<open>The GC horizon\<close>

lemma fold_min_le: "fold (\<lambda>p acc. min acc p) ps c \<le> (c :: nat)"
proof (induction ps arbitrary: c)
  case (Cons p ps)
  from Cons [of "min c p"] show ?case by simp
qed simp

lemma effective_gc_horizon_le:
  "effective_gc_horizon c ps \<le> c" "p \<in> set ps \<Longrightarrow> effective_gc_horizon c ps \<le> p"
proof -
  show "effective_gc_horizon c ps \<le> c"
    by (simp add: effective_gc_horizon_def fold_min_le)
  show "p \<in> set ps \<Longrightarrow> effective_gc_horizon c ps \<le> p"
    unfolding effective_gc_horizon_def
  proof (induction ps arbitrary: c)
    case (Cons q ps)
    then show ?case
      using fold_min_le [of ps "min c q"] by auto
  qed simp
qed

lemma image_redundant_candidate:
  assumes "image_redundant l rel start stop h" and "start \<le> block" and "block < stop" and "h \<le> rd"
  shows "\<exists>f. base_candidate l rel block rd f \<and> tail_floor l \<le> frag_lsn f"
  using assms by (force simp: image_redundant_def list_all_iff list_ex_iff base_candidate_def)

section \<open>Properties\<close>

text \<open>
  C14 (functional): a page read is served exactly when some fragment covering the page is no newer
  than the read LSN and either is that LSN or lies at or above the retained tail's floor; the base
  is then the newest such fragment and the read LSN is unchanged. Otherwise the answer is
  \<open>Uncovered\<close> exactly when no fragment covers the page at all, and \<open>BelowHorizon\<close> when one does.
\<close>
theorem lake_resolve_characterised:
  "lake_resolve l rel block rd =
     (if \<nexists>f. f \<in> set (fragments l) \<and> covers f rel block then Uncovered
      else if \<exists>f. base_candidate l rel block rd f \<and>
                 (frag_lsn f = rd \<or> tail_floor l \<le> frag_lsn f)
      then Serve (Max (frag_lsn ` {f. base_candidate l rel block rd f})) rd
      else BelowHorizon)"
proof (cases "lake_base l rel block rd")
  case None
  then have "\<nexists>f. base_candidate l rel block rd f" by (simp add: lake_base_None)
  with None show ?thesis
    by (auto simp: lake_resolve_def list_ex_iff)
next
  case (Some f)
  note f = lake_base_Some [OF Some]
  have fin: "finite {f. base_candidate l rel block rd f}"
    by (rule finite_subset [of _ "set (fragments l)"]) (auto simp: base_candidate_def)
  have "Max (frag_lsn ` {f. base_candidate l rel block rd f}) = frag_lsn f"
    using fin f by (intro Max_eqI) auto
  moreover have "(\<exists>g. base_candidate l rel block rd g \<and> (frag_lsn g = rd \<or> tail_floor l \<le> frag_lsn g))
      \<longleftrightarrow> frag_lsn f = rd \<or> tail_floor l \<le> frag_lsn f"
    using f by (metis base_candidate_def order_antisym order_trans)
  moreover have "\<exists>f. f \<in> set (fragments l) \<and> covers f rel block"
    using f(1) by (auto simp: base_candidate_def)
  ultimately show ?thesis
    using Some by (simp add: lake_resolve_def)
qed

text \<open>
  C13 (safety): the garbage-collection gate is sound across branches. If the parent's heap image of
  a block range is declared redundant at the effective horizon of the configured horizon and the
  branch points, then every parent read at or above the configured horizon is served from a base
  at or above the tail floor, and so is every branch read that falls through to the parent: the
  collected image was never needed.
\<close>
theorem gc_gate_sound:
  assumes "image_redundant (parent br) rel start stop (effective_gc_horizon configured points)"
    and "branch_lsn br \<in> set points" and "start \<le> block" and "block < stop"
  shows "(\<forall>rd \<ge> configured. \<exists>b \<ge> tail_floor (parent br).
            lake_resolve (parent br) rel block rd = Serve b rd) \<and>
         (\<forall>rd > branch_lsn br. lake_resolve (own br) rel block rd = Uncovered \<longrightarrow>
            (\<exists>b \<ge> tail_floor (parent br). branch_resolve br rel block rd = Serve b (branch_lsn br)))"
proof -
  have served: "\<exists>b \<ge> tail_floor (parent br). lake_resolve (parent br) rel block rd = Serve b rd"
    if "effective_gc_horizon configured points \<le> rd" for rd
    using image_redundant_candidate [OF assms(1,3,4) that] lake_resolve_candidate
    by (metis order_trans)
  have "\<exists>b \<ge> tail_floor (parent br). lake_resolve (parent br) rel block rd = Serve b rd"
    if "configured \<le> rd" for rd
    using served effective_gc_horizon_le(1) that by (blast intro: order_trans)
  moreover have "\<exists>b \<ge> tail_floor (parent br). branch_resolve br rel block rd = Serve b (branch_lsn br)"
    if "branch_lsn br < rd" and "lake_resolve (own br) rel block rd = Uncovered" for rd
    using served [OF effective_gc_horizon_le(2) [OF assms(2)]] that by (simp add: branch_resolve_def)
  ultimately show ?thesis by blast
qed

theorem gc_gate_sound_witness:
  "branch_resolve
     \<lparr>parent = \<lparr>fragments = [\<lparr>frag_rel = 1, frag_start = 0, frag_end = 2, frag_lsn = 200\<rparr>],
                tail_floor = 150, tip = 400\<rparr>,
      branch_lsn = 300, own = \<lparr>fragments = [], tail_floor = 300, tip = 300\<rparr>\<rparr> 1 1 550 = Serve 200 300"
proof -
  let ?p = "\<lparr>fragments = [\<lparr>frag_rel = 1, frag_start = 0, frag_end = 2, frag_lsn = 200\<rparr>],
             tail_floor = 150, tip = 400\<rparr> :: Lake"
  let ?b = "\<lparr>parent = ?p, branch_lsn = 300, own = \<lparr>fragments = [], tail_floor = 300, tip = 300\<rparr>\<rparr> :: Branch"
  have "image_redundant (parent ?b) 1 0 2 (effective_gc_horizon 400 [300, 320])"
    by (simp add: image_redundant_def effective_gc_horizon_def covers_def list_all_iff del: set_upt)
  moreover have "lake_resolve (own ?b) 1 1 550 = Uncovered"
    by (simp add: lake_resolve_def lake_base_def)
  ultimately obtain b where "branch_resolve ?b 1 1 550 = Serve b 300"
    using gc_gate_sound [of ?b 1 0 2 400 "[300, 320]" 1, THEN conjunct2, rule_format, of 550]
    by auto
  then show ?thesis
    by (auto simp: branch_resolve_def lake_resolve_def lake_base_def covers_def)
qed

end
