(* ===== verification/Walreader.thy ===== *)
theory Walreader
  imports Prelude
begin

text \<open>
  The streaming half of \<^verbatim>\<open>src/wal/mod.rs\<close>: \<open>WalReader\<close> strips page headers from the raw
  WAL byte stream and reassembles records that span pages. LSNs and lengths are natural numbers;
  one iteration of the loop of \<^verbatim>\<open>feed\<close> is \<open>feed_step\<close>.
\<close>

section \<open>The reader\<close>

definition XLOG_PAGE_SIZE :: nat where "XLOG_PAGE_SIZE = 8192"
definition WAL_SEG_SIZE :: nat where "WAL_SEG_SIZE = 16 * 1024 * 1024"
definition REC_HDR_LEN :: nat where "REC_HDR_LEN = 24"
definition SHORT_PAGE_HDR :: nat where "SHORT_PAGE_HDR = 24"
definition LONG_PAGE_HDR :: nat where "LONG_PAGE_HDR = 40"
definition XLOG_PAGE_MAGICS :: "u16 list" where "XLOG_PAGE_MAGICS = [0xD116, 0xD118]"

lemmas wal_consts = XLOG_PAGE_SIZE_def WAL_SEG_SIZE_def REC_HDR_LEN_def SHORT_PAGE_HDR_def
  LONG_PAGE_HDR_def XLOG_PAGE_MAGICS_def

definition maxalign :: "nat \<Rightarrow> nat" where
  "maxalign v = (v + 7) div 8 * 8"

record WalReader =
  pos :: nat
  pending :: bytes
  skip_left :: nat
  started :: bool
  rec :: bytes
  rec_lsn :: nat
  need :: nat

definition wal_reader_new :: "nat \<Rightarrow> WalReader result" where
  "wal_reader_new start_lsn =
     (if start_lsn mod XLOG_PAGE_SIZE \<noteq> 0 then Err (Panic ''start LSN must be page-aligned'')
      else Ok \<lparr>pos = start_lsn, pending = [], skip_left = 0, started = False, rec = [],
               rec_lsn = 0, need = 0\<rparr>)"

text \<open>The outcome of one iteration: leave the loop, go on (with a finished record or not), fail.\<close>

datatype step = Break | Next WalReader "(lsn \<times> bytes) option" | Fail error

definition advance :: "nat \<Rightarrow> WalReader \<Rightarrow> WalReader" where
  "advance n r = r\<lparr>pos := pos r + n, pending := drop n (pending r)\<rparr>"

definition page_hdr_len :: "nat \<Rightarrow> nat" where
  "page_hdr_len p = (if p mod WAL_SEG_SIZE = 0 then LONG_PAGE_HDR else SHORT_PAGE_HDR)"

definition page_step :: "WalReader \<Rightarrow> step" where
  "page_step r =
     (let hdr_len = page_hdr_len (pos r) in
      if length (pending r) < hdr_len then Break
      else
        let magic = from_le (take 2 (pending r)) :: u16 in
        if magic \<notin> set XLOG_PAGE_MAGICS then Fail (Bail ''unsupported WAL page magic'')
        else
          let rem_len = unat (from_le (take 4 (drop 16 (pending r))) :: u32);
              r1 = (if started r then r else r\<lparr>started := True, skip_left := rem_len\<rparr>);
              r2 = advance hdr_len r1;
              r3 = (if skip_left r2 = 0 \<and> need r2 = 0
                    then r2\<lparr>skip_left := maxalign (pos r2) - pos r2\<rparr> else r2)
          in Next r3 None)"

definition skip_step :: "nat \<Rightarrow> WalReader \<Rightarrow> step" where
  "skip_step page_rem r =
     (let n = min (min (skip_left r) page_rem) (length (pending r));
          r1 = (advance n r)\<lparr>skip_left := skip_left r - n\<rparr>
      in Next (if skip_left r1 = 0 then r1\<lparr>skip_left := maxalign (pos r1) - pos r1\<rparr> else r1) None)"

definition body_step :: "nat \<Rightarrow> WalReader \<Rightarrow> step" where
  "body_step page_rem r =
     (if need r < length (rec r) then Fail (Panic ''attempt to subtract with overflow'')
      else
        let n = min (min (need r - length (rec r)) page_rem) (length (pending r));
            r1 = (advance n r)\<lparr>rec := rec r @ take n (pending r)\<rparr>
        in if length (rec r1) = need r1
           then Next (r1\<lparr>rec := [], need := 0, skip_left := maxalign (pos r1) - pos r1\<rparr>)
                  (Some (rec_lsn r1, rec r1))
           else Next r1 None)"

definition record_step :: "nat \<Rightarrow> WalReader \<Rightarrow> step" where
  "record_step page_rem r =
     (if length (pending r) < 4 then Break
      else
        let tot_len = unat (from_le (take 4 (pending r)) :: u32) in
        if tot_len = 0 then Next (advance (min page_rem (length (pending r))) r) None
        else if tot_len < REC_HDR_LEN then Fail (Bail ''corrupt WAL: xl_tot_len'')
        else Next (r\<lparr>rec_lsn := pos r, need := tot_len, rec := []\<rparr>) None)"

definition feed_step :: "WalReader \<Rightarrow> step" where
  "feed_step r =
     (if pending r = [] then Break
      else
        let page_off = pos r mod XLOG_PAGE_SIZE in
        if page_off = 0 then page_step r
        else
          let page_rem = XLOG_PAGE_SIZE - page_off in
          if skip_left r > 0 then skip_step page_rem r
          else if need r > 0 then body_step page_rem r
          else record_step page_rem r)"

text \<open>
  The loop ends on every state: an iteration consumes bytes, or it completes an empty remainder,
  or it starts a record whose next iteration consumes.
\<close>

definition step_rank :: "WalReader \<Rightarrow> nat" where
  "step_rank r = (if need r = 0 then 1 else if length (rec r) < need r then 0 else 2)"

lemma advance_simps [simp]:
  "pos (advance n r) = pos r + n" "pending (advance n r) = drop n (pending r)"
  "skip_left (advance n r) = skip_left r" "started (advance n r) = started r"
  "rec (advance n r) = rec r" "rec_lsn (advance n r) = rec_lsn r" "need (advance n r) = need r"
  by (simp_all add: advance_def)

lemma page_hdr_len_pos: "24 \<le> page_hdr_len p"
  by (simp add: page_hdr_len_def wal_consts)

lemma page_rem_pos: "p mod XLOG_PAGE_SIZE \<noteq> 0 \<Longrightarrow> 0 < XLOG_PAGE_SIZE - p mod XLOG_PAGE_SIZE"
  by (simp add: wal_consts)

definition progress :: "WalReader \<Rightarrow> WalReader \<Rightarrow> bool" where
  "progress r r' \<longleftrightarrow> length (pending r') < length (pending r) \<or>
     pending r' = pending r \<and> step_rank r' < step_rank r"

lemma page_step_progress: "page_step r = Next r' out \<Longrightarrow> progress r r'"
  using page_hdr_len_pos [of "pos r"]
  by (auto simp: page_step_def progress_def Let_def split: if_splits)

lemma skip_step_progress:
  "skip_step k r = Next r' out \<Longrightarrow> 0 < k \<Longrightarrow> 0 < skip_left r \<Longrightarrow> pending r \<noteq> [] \<Longrightarrow> progress r r'"
  by (cases "pending r") (auto simp: skip_step_def progress_def Let_def)

lemma body_step_progress:
  assumes "body_step k r = Next r' out" and "0 < k" and "0 < need r" and "pending r \<noteq> []"
  shows "progress r r'"
proof (cases "length (rec r) = need r")
  case True
  with assms show ?thesis
    by (auto simp: body_step_def progress_def Let_def step_rank_def)
next
  case False
  let ?n = "min (min (need r - length (rec r)) k) (length (pending r))"
  from assms False have "0 < ?n" by (auto simp: body_step_def split: if_splits)
  moreover from assms False have "length (pending r') = length (pending r) - ?n"
    by (auto simp: body_step_def Let_def split: if_splits)
  ultimately show ?thesis using assms(4) by (simp add: progress_def)
qed

lemma record_step_progress:
  "record_step k r = Next r' out \<Longrightarrow> 0 < k \<Longrightarrow> need r = 0 \<Longrightarrow> progress r r'"
  by (auto simp: record_step_def progress_def Let_def step_rank_def split: if_splits)

lemma feed_step_progress: "feed_step r = Next r' out \<Longrightarrow> progress r r'"
  using page_rem_pos [of "pos r"]
  by (auto simp: feed_step_def Let_def split: if_splits
      intro: page_step_progress skip_step_progress body_step_progress record_step_progress)

function feed_loop :: "WalReader \<Rightarrow> (lsn \<times> bytes) list \<Rightarrow> WalReader \<times> (lsn \<times> bytes) list result" where
  "feed_loop r out =
     (case feed_step r of
        Break \<Rightarrow> (r, Ok out)
      | Fail e \<Rightarrow> (r, Err e)
      | Next r' fin \<Rightarrow> feed_loop r' (out @ (case fin of None \<Rightarrow> [] | Some x \<Rightarrow> [x])))"
  by pat_completeness auto
termination
  by (relation "measures [\<lambda>(r, out). length (pending r), \<lambda>(r, out). step_rank r]")
    (auto dest!: feed_step_progress simp: progress_def)

declare feed_loop.simps [simp del]

definition feed :: "WalReader \<Rightarrow> lsn \<Rightarrow> bytes \<Rightarrow> WalReader \<times> (lsn \<times> bytes) list result" where
  "feed r start_lsn data =
     (if start_lsn \<noteq> pos r + length (pending r) then (r, Err (Bail ''WAL stream gap''))
      else feed_loop (r\<lparr>pending := pending r @ data\<rparr>) [])"

section \<open>Chunking\<close>

definition more :: "WalReader \<Rightarrow> bytes \<Rightarrow> WalReader" where
  "more r d = r\<lparr>pending := pending r @ d\<rparr>"

lemma more_simps [simp]:
  "pos (more r d) = pos r" "pending (more r d) = pending r @ d" "skip_left (more r d) = skip_left r"
  "started (more r d) = started r" "rec (more r d) = rec r" "rec_lsn (more r d) = rec_lsn r"
  "need (more r d) = need r" "more r [] = r" "more (more r d) d' = more r (d @ d')"
  by (simp_all add: more_def)

text \<open>
  The reader is inside zero padding that the received bytes do not complete: the only place where
  \<^verbatim>\<open>feed\<close> leaves bytes of one field in two iterations.
\<close>

definition at_partial_padding :: "WalReader \<Rightarrow> bool" where
  "at_partial_padding r \<longleftrightarrow>
     pos r mod XLOG_PAGE_SIZE \<noteq> 0 \<and> skip_left r = 0 \<and> need r = 0 \<and> 4 \<le> length (pending r) \<and>
     (from_le (take 4 (pending r)) :: u32) = 0 \<and>
     length (pending r) < XLOG_PAGE_SIZE - pos r mod XLOG_PAGE_SIZE"

function splits_padding :: "WalReader \<Rightarrow> bool" where
  "splits_padding r =
     (at_partial_padding r \<or> (case feed_step r of Next r' fin \<Rightarrow> splits_padding r' | _ \<Rightarrow> False))"
  by pat_completeness auto
termination
  by (relation "measures [\<lambda>r. length (pending r), step_rank]")
    (auto dest!: feed_step_progress simp: progress_def)

declare splits_padding.simps [simp del]

text \<open>How an iteration behaves when more bytes have already arrived.\<close>

definition resumes :: "WalReader \<Rightarrow> bytes \<Rightarrow> WalReader \<Rightarrow> (lsn \<times> bytes) option \<Rightarrow> bool" where
  "resumes r d r' fin \<longleftrightarrow>
     feed_step (more r d) = Next (more r' d) fin \<or>
     pending r' = [] \<and> fin = None \<and> feed_step (more r d) = feed_step (more r' d) \<and>
     (\<exists>r'' fin'. feed_step (more r d) = Next r'' fin') \<and> (0 < skip_left r' \<or> 0 < need r')"

lemma mod_page_add: "m + n < XLOG_PAGE_SIZE \<Longrightarrow> m = p mod XLOG_PAGE_SIZE \<Longrightarrow>
   (p + n) mod XLOG_PAGE_SIZE = p mod XLOG_PAGE_SIZE + n" for p :: nat
  by (metis mod_add_left_eq mod_less)

lemma min_min_add:
  "a < w \<Longrightarrow> a < k \<Longrightarrow> min (min w k) (a + l) = a + min (min (w - a) (k - a)) l" for a w k l :: nat
  by (cases "w \<le> k"; cases "w \<le> a + l"; cases "k \<le> a + l") (auto simp: min_def)

lemma min_min_le: "min w k \<le> a \<Longrightarrow> min (min w k) a = min w k" for a w k :: nat
  by (rule min_absorb1)

lemma page_step_more:
  "page_step r = Next r' fin \<Longrightarrow> page_step (more r d) = Next (more r' d) fin"
  using page_hdr_len_pos [of "pos r"]
  by (cases "started r") (auto simp: page_step_def Let_def more_def advance_def split: if_splits)

definition skip_by :: "nat \<Rightarrow> WalReader \<Rightarrow> WalReader" where
  "skip_by n r =
     (let r1 = (advance n r)\<lparr>skip_left := skip_left r - n\<rparr>
      in if skip_left r1 = 0 then r1\<lparr>skip_left := maxalign (pos r1) - pos r1\<rparr> else r1)"

definition body_by :: "nat \<Rightarrow> WalReader \<Rightarrow> step" where
  "body_by n r =
     (let r1 = (advance n r)\<lparr>rec := rec r @ take n (pending r)\<rparr>
      in if length (rec r1) = need r1
         then Next (r1\<lparr>rec := [], need := 0, skip_left := maxalign (pos r1) - pos r1\<rparr>)
                (Some (rec_lsn r1, rec r1))
         else Next r1 None)"

lemma skip_step_by:
  "skip_step k r = Next (skip_by (min (min (skip_left r) k) (length (pending r))) r) None"
  by (simp add: skip_step_def skip_by_def Let_def)

lemma body_step_by:
  "length (rec r) \<le> need r \<Longrightarrow>
   body_step k r = body_by (min (min (need r - length (rec r)) k) (length (pending r))) r"
  by (simp add: body_step_def body_by_def Let_def)

lemma skip_by_more:
  "skip_by (length (pending r) + n) (more r d) =
   skip_by n (more ((advance (length (pending r)) r)\<lparr>skip_left := skip_left r - length (pending r)\<rparr>) d)"
  by (simp add: skip_by_def Let_def more_def advance_def add.assoc)

lemma body_by_more:
  "body_by (length (pending r) + n) (more r d) =
   body_by n (more ((advance (length (pending r)) r)\<lparr>rec := rec r @ pending r\<rparr>) d)"
  by (simp add: body_by_def Let_def more_def advance_def add.assoc)

lemma body_by_more_le:
  "n \<le> length (pending r) \<Longrightarrow> body_by n r = Next r' fin \<Longrightarrow> body_by n (more r d) = Next (more r' d) fin"
  by (cases "length (rec r @ take n (pending r)) = need r")
    (auto simp: body_by_def Let_def more_def advance_def)

lemma body_by_Next: "\<exists>r' fin. body_by n r = Next r' fin"
  by (simp add: body_by_def Let_def)

lemma skip_step_resumes:
  assumes "feed_step r = Next r' fin" and "d \<noteq> []" and "pending r \<noteq> []"
    and "pos r mod XLOG_PAGE_SIZE \<noteq> 0" and "0 < skip_left r"
  shows "resumes r d r' fin"
proof -
  let ?k = "XLOG_PAGE_SIZE - pos r mod XLOG_PAGE_SIZE" and ?a = "length (pending r)"
  have step: "skip_step ?k r = Next r' fin" using assms by (simp add: feed_step_def Let_def)
  have stepm: "feed_step (more r d) = skip_step ?k (more r d)"
    using assms by (simp add: feed_step_def Let_def)
  show ?thesis
  proof (cases "min (skip_left r) ?k \<le> ?a")
    case True
    then show ?thesis
      using step unfolding resumes_def stepm
      by (auto simp: skip_step_def Let_def more_def advance_def min_def split: if_splits)
  next
    case False
    then have lt: "?a < skip_left r" "?a < ?k" by auto
    then have n: "min (min (skip_left r) ?k) ?a = ?a" by simp
    have r': "r' = (advance ?a r)\<lparr>skip_left := skip_left r - ?a\<rparr>" "fin = None"
      using step lt by (auto simp: skip_step_def Let_def n)
    have m: "(pos r + ?a) mod XLOG_PAGE_SIZE = pos r mod XLOG_PAGE_SIZE + ?a"
      using lt by (intro mod_page_add [OF _ refl]) auto
    then have k': "XLOG_PAGE_SIZE - (pos r + ?a) mod XLOG_PAGE_SIZE = ?k - ?a" by simp
    have stepm': "feed_step (more r' d) = skip_step (?k - ?a) (more r' d)"
      using assms lt r' m k' by (simp add: feed_step_def Let_def)
    have mins: "min (min (skip_left r) ?k) (?a + length d) =
        ?a + min (min (skip_left r - ?a) (?k - ?a)) (length d)"
      using lt by (rule min_min_add)
    have "skip_step ?k (more r d) = skip_step (?k - ?a) (more r' d)"
      unfolding skip_step_by more_simps length_append mins skip_by_more by (simp add: r')
    moreover have "\<exists>r'' fin'. skip_step ?k (more r d) = Next r'' fin'"
      by (simp add: skip_step_by)
    ultimately show ?thesis
      using stepm stepm' assms lt by (simp add: resumes_def r')
  qed
qed

lemma body_step_resumes:
  assumes "feed_step r = Next r' fin" and "d \<noteq> []" and "pending r \<noteq> []"
    and "pos r mod XLOG_PAGE_SIZE \<noteq> 0" and "skip_left r = 0" and "0 < need r"
  shows "resumes r d r' fin"
proof -
  let ?k = "XLOG_PAGE_SIZE - pos r mod XLOG_PAGE_SIZE" and ?a = "length (pending r)"
  let ?w = "need r - length (rec r)"
  have step: "body_step ?k r = Next r' fin" using assms by (simp add: feed_step_def Let_def)
  then have le: "length (rec r) \<le> need r" by (auto simp: body_step_def split: if_splits)
  have stepm: "feed_step (more r d) = body_step ?k (more r d)"
    using assms by (simp add: feed_step_def Let_def)
  show ?thesis
  proof (cases "min ?w ?k \<le> ?a")
    case True
    then have n: "min (min ?w ?k) ?a = min ?w ?k" "min (min ?w ?k) (?a + length d) = min ?w ?k"
      by (simp_all add: min_min_le)
    have "body_step ?k (more r d) = Next (more r' d) fin"
      using step le body_by_more_le [OF True] by (simp add: body_step_by n)
    then show ?thesis by (simp add: resumes_def stepm)
  next
    case False
    then have lt: "?a < ?w" "?a < ?k" by auto
    then have n: "min (min ?w ?k) ?a = ?a" by simp
    have r': "r' = (advance ?a r)\<lparr>rec := rec r @ pending r\<rparr>" "fin = None"
      using step le lt by (auto simp: body_step_def Let_def n split: if_splits)
    have m: "(pos r + ?a) mod XLOG_PAGE_SIZE = pos r mod XLOG_PAGE_SIZE + ?a"
      using lt by (intro mod_page_add [OF _ refl]) auto
    then have k': "XLOG_PAGE_SIZE - (pos r + ?a) mod XLOG_PAGE_SIZE = ?k - ?a" by simp
    have stepm': "feed_step (more r' d) = body_step (?k - ?a) (more r' d)"
      using assms r' m k' by (simp add: feed_step_def Let_def)
    have mins: "min (min ?w ?k) (?a + length d) = ?a + min (min (?w - ?a) (?k - ?a)) (length d)"
      using lt by (rule min_min_add)
    have "body_step ?k (more r d) = body_step (?k - ?a) (more r' d)"
      using le lt by (simp add: body_step_by mins body_by_more r')
    moreover have "\<exists>r'' fin'. body_step ?k (more r d) = Next r'' fin'"
      using le body_by_Next by (simp add: body_step_by)
    ultimately show ?thesis
      using stepm stepm' assms lt by (simp add: resumes_def r')
  qed
qed

lemma record_step_resumes:
  assumes "feed_step r = Next r' fin" and "d \<noteq> []" and "pending r \<noteq> []"
    and "pos r mod XLOG_PAGE_SIZE \<noteq> 0" and "skip_left r = 0" and "need r = 0"
    and "\<not> at_partial_padding r"
  shows "resumes r d r' fin"
proof -
  let ?k = "XLOG_PAGE_SIZE - pos r mod XLOG_PAGE_SIZE"
  have step: "record_step ?k r = Next r' fin" using assms by (simp add: feed_step_def Let_def)
  have stepm: "feed_step (more r d) = record_step ?k (more r d)"
    using assms by (simp add: feed_step_def Let_def)
  have four: "4 \<le> length (pending r)" using step by (auto simp: record_step_def split: if_splits)
  show ?thesis
  proof (cases "(from_le (take 4 (pending r)) :: u32) = 0")
    case True
    then have "?k \<le> length (pending r)"
      using assms(4-7) four by (auto simp: at_partial_padding_def)
    with True step four show ?thesis
      unfolding resumes_def stepm
      by (auto simp: record_step_def Let_def more_def advance_def min_def)
  next
    case False
    then have "unat (from_le (take 4 (pending r)) :: u32) \<noteq> 0" by (simp add: unat_eq_0)
    with False step four show ?thesis
      unfolding resumes_def stepm
      by (auto simp: record_step_def Let_def more_def split: if_splits)
  qed
qed

lemma feed_step_resumes:
  assumes "feed_step r = Next r' fin" and "\<not> at_partial_padding r" and "d \<noteq> []"
  shows "resumes r d r' fin"
proof -
  have "pending r \<noteq> []" using assms(1) by (auto simp: feed_step_def)
  moreover have "resumes r d r' fin" if "pos r mod XLOG_PAGE_SIZE = 0"
    using assms(1) that \<open>pending r \<noteq> []\<close>
    by (auto simp: resumes_def feed_step_def Let_def page_step_more)
  ultimately show ?thesis
    using assms by (metis skip_step_resumes body_step_resumes record_step_resumes neq0_conv)
qed

lemma page_step_Fail_more: "page_step r = Fail e \<Longrightarrow> page_step (more r d) = Fail e"
  using page_hdr_len_pos [of "pos r"] by (auto simp: page_step_def Let_def split: if_splits)

lemma body_step_Fail_more: "body_step k r = Fail e \<Longrightarrow> body_step k (more r d) = Fail e"
  by (cases "need r < length (rec r)") (auto simp: body_step_def Let_def split: if_split_asm)

lemma record_step_Fail_more: "record_step k r = Fail e \<Longrightarrow> record_step k (more r d) = Fail e"
  by (auto simp: record_step_def Let_def split: if_splits)

lemma feed_step_Fail_more:
  assumes "feed_step r = Fail e"
  shows "feed_step (more r d) = Fail e"
proof -
  have "pending r \<noteq> []" using assms by (auto simp: feed_step_def)
  then show ?thesis using assms
    by (auto simp: feed_step_def Let_def skip_step_def page_step_Fail_more body_step_Fail_more
        record_step_Fail_more split: if_splits)
qed

lemma feed_loop_append:
  "feed_loop r (pre @ out) = map_prod id (map_sum id ((@) pre)) (feed_loop r out)"
proof (induction r out rule: feed_loop.induct)
  case (1 r out)
  show ?case
  proof (cases "feed_step r")
    case (Next r' fin)
    then show ?thesis
      using 1 [OF Next] by (simp add: feed_loop.simps [of r] append_assoc [symmetric] del: append_assoc)
  qed (simp_all add: feed_loop.simps [of r])
qed

lemma feed_loop_more:
  assumes "\<not> splits_padding r" and "feed_loop r out = (r1, Ok xs)"
  shows "feed_loop (more r d) out = feed_loop (more r1 d) xs"
proof (cases "d = []")
  case True
  have "feed_step r1 = Break" using assms(2)
    by (induction r out rule: feed_loop.induct) (auto simp: feed_loop.simps split: step.splits)
  with True assms(2) show ?thesis by (simp add: feed_loop.simps [of r1])
next
  case False
  from assms show ?thesis
  proof (induction r out rule: feed_loop.induct)
    case (1 r out)
    show ?case
    proof (cases "feed_step r")
      case (Next r' fin)
      let ?x = "case fin of None \<Rightarrow> [] | Some x \<Rightarrow> [x]"
      have nsp: "\<not> at_partial_padding r" "\<not> splits_padding r'"
        using 1(2) Next by (auto simp: splits_padding.simps [of r])
      have loop: "feed_loop r' (out @ ?x) = (r1, Ok xs)"
        using 1(3) Next by (simp add: feed_loop.simps [of r])
      from feed_step_resumes [OF Next nsp(1) False]
      show ?thesis unfolding resumes_def
      proof
        assume "feed_step (more r d) = Next (more r' d) fin"
        then show ?thesis
          using 1(1) [OF Next nsp(2) loop] by (simp add: feed_loop.simps [of "more r d"])
      next
        assume e: "pending r' = [] \<and> fin = None \<and> feed_step (more r d) = feed_step (more r' d) \<and>
            (\<exists>r'' fin'. feed_step (more r d) = Next r'' fin') \<and> (0 < skip_left r' \<or> 0 < need r')"
        then have "r1 = r'" "xs = out"
          using loop by (auto simp: feed_loop.simps [of r'] feed_step_def)
        with e show ?thesis
          by (auto split: step.split simp add: feed_loop.simps [of "more r d"] feed_loop.simps [of "more r' d"])
      qed
    qed (use 1(3) in \<open>auto simp: feed_loop.simps [of r]\<close>)
  qed
qed

lemma feed_loop_more_Err:
  assumes "\<not> splits_padding r" and "feed_loop r out = (r1, Err e)"
  shows "\<exists>r2. feed_loop (more r d) out = (r2, Err e)"
proof (cases "d = []")
  case True
  with assms(2) show ?thesis by simp
next
  case False
  from assms show ?thesis
  proof (induction r out rule: feed_loop.induct)
    case (1 r out)
    show ?case
    proof (cases "feed_step r")
      case (Next r' fin)
      let ?x = "case fin of None \<Rightarrow> [] | Some x \<Rightarrow> [x]"
      have nsp: "\<not> at_partial_padding r" "\<not> splits_padding r'"
        using 1(2) Next by (auto simp: splits_padding.simps [of r])
      have loop: "feed_loop r' (out @ ?x) = (r1, Err e)"
        using 1(3) Next by (simp add: feed_loop.simps [of r])
      then have "pending r' \<noteq> []"
        by (auto simp: feed_loop.simps [of r'] feed_step_def)
      then have "feed_step (more r d) = Next (more r' d) fin"
        using feed_step_resumes [OF Next nsp(1) False] by (auto simp: resumes_def)
      then show ?thesis
        using 1(1) [OF Next nsp(2) loop] by (simp add: feed_loop.simps [of "more r d"])
    next
      case (Fail e')
      then show ?thesis
        using 1(3) feed_step_Fail_more [OF Fail, of d]
        by (simp add: feed_loop.simps [of r] feed_loop.simps [of "more _ d"])
    qed (use 1(3) in \<open>auto simp: feed_loop.simps [of r]\<close>)
  qed
qed

section \<open>The stream PostgreSQL writes\<close>

text \<open>A page header: magic, flags, timeline, page address, remaining length; the first page of a
  segment carries a long header.\<close>

definition page_header :: "nat \<Rightarrow> nat \<Rightarrow> bytes" where
  "page_header p rem_len =
     to_le (0xD116 :: u16) @ to_le (0 :: u16) @ to_le (1 :: u32) @ to_le (word_of_nat p :: u64) @
     to_le (word_of_nat rem_len :: u32) @ replicate 4 0 @
     (if p mod WAL_SEG_SIZE = 0 then replicate 16 0 else [])"

lemma mod_page_less [simp]: "p mod XLOG_PAGE_SIZE < XLOG_PAGE_SIZE"
  by (simp add: wal_consts)

lemma after_page_header: "p mod XLOG_PAGE_SIZE = 0 \<Longrightarrow> (p + page_hdr_len p) mod XLOG_PAGE_SIZE \<noteq> 0"
  by (auto simp: page_hdr_len_def wal_consts mod_add_eq [symmetric])

text \<open>Writing the bytes of one record from a position on, breaking at page boundaries.\<close>

function write_span :: "nat \<Rightarrow> bool \<Rightarrow> bytes \<Rightarrow> bytes" where
  "write_span p cont bs =
     (if bs = [] then []
      else if p mod XLOG_PAGE_SIZE = 0
      then page_header p (if cont then length bs else 0) @ write_span (p + page_hdr_len p) cont bs
      else take (XLOG_PAGE_SIZE - p mod XLOG_PAGE_SIZE) bs @
           write_span (p + (XLOG_PAGE_SIZE - p mod XLOG_PAGE_SIZE)) True
             (drop (XLOG_PAGE_SIZE - p mod XLOG_PAGE_SIZE) bs))"
  by pat_completeness auto

termination
  by (relation "measures [\<lambda>(p, c, bs). length bs, \<lambda>(p, c, bs). if p mod XLOG_PAGE_SIZE = 0 then 1 else 0]")
    (auto simp: after_page_header page_rem_pos intro!: diff_less)

declare write_span.simps [simp del]

definition rec_start :: "nat \<Rightarrow> nat" where
  "rec_start p = (if p mod XLOG_PAGE_SIZE = 0 then p + page_hdr_len p else p)"

definition span_end :: "nat \<Rightarrow> bytes \<Rightarrow> nat" where
  "span_end p r = p + length (write_span p False r)"

fun wal_layout :: "nat \<Rightarrow> bytes list \<Rightarrow> bytes" where
  "wal_layout p [] = []"
| "wal_layout p (r # rs) =
     write_span p False r @ replicate (maxalign (span_end p r) - span_end p r) 0 @
     wal_layout (maxalign (span_end p r)) rs"

fun located :: "nat \<Rightarrow> bytes list \<Rightarrow> (lsn \<times> bytes) list" where
  "located p [] = []"
| "located p (r # rs) = (rec_start p, r) # located (maxalign (span_end p r)) rs"

definition record_bytes :: "bytes \<Rightarrow> bool" where
  "record_bytes r \<longleftrightarrow> REC_HDR_LEN \<le> length r \<and> unat (from_le (take 4 r) :: u32) = length r"

section \<open>Runs of the reader\<close>

definition at_padding :: "WalReader \<Rightarrow> bool" where
  "at_padding r \<longleftrightarrow>
     pos r mod XLOG_PAGE_SIZE \<noteq> 0 \<and> skip_left r = 0 \<and> need r = 0 \<and> 4 \<le> length (pending r) \<and>
     (from_le (take 4 (pending r)) :: u32) = 0"

inductive runs :: "WalReader \<Rightarrow> (lsn \<times> bytes) list \<Rightarrow> WalReader \<Rightarrow> bool" where
  runs_refl: "runs r [] r"
| runs_step: "feed_step r = Next r' fin \<Longrightarrow> \<not> at_padding r \<Longrightarrow> runs r' out r'' \<Longrightarrow>
    runs r ((case fin of None \<Rightarrow> [] | Some x \<Rightarrow> [x]) @ out) r''"

lemma runs_trans: "runs r xs r' \<Longrightarrow> runs r' ys r'' \<Longrightarrow> runs r (xs @ ys) r''"
  by (induction rule: runs.induct) (auto intro: runs_step)

lemma runs_None: "feed_step r = Next r' None \<Longrightarrow> \<not> at_padding r \<Longrightarrow> runs r' out r'' \<Longrightarrow> runs r out r''"
  using runs_step [of r r' None] by simp

lemma runs_loop: "runs r xs r' \<Longrightarrow> feed_loop r out = feed_loop r' (out @ xs)"
proof (induction arbitrary: out rule: runs.induct)
  case (runs_step r r' fin xs r'')
  then show ?case by (simp add: feed_loop.simps [of r])
qed simp

lemma page_header_simps:
  "length (page_header p n) = page_hdr_len p"
  "take 2 (page_header p n) = to_le (0xD116 :: u16)"
  "take 4 (drop 16 (page_header p n)) = to_le (word_of_nat n :: u32)"
  by (auto simp: page_header_def page_hdr_len_def wal_consts)

lemma maxalign_page_hdr: "p mod XLOG_PAGE_SIZE = 0 \<Longrightarrow> maxalign (p + page_hdr_len p) = p + page_hdr_len p"
proof -
  assume "p mod XLOG_PAGE_SIZE = 0"
  then have "8 dvd p" by (auto simp: wal_consts intro: dvd_trans [of 8 8192])
  then obtain k where "p = 8 * k" ..
  then show ?thesis by (simp add: maxalign_def page_hdr_len_def wal_consts)
qed

lemma page_header_step:
  assumes "pos r mod XLOG_PAGE_SIZE = 0" and "pending r = page_header (pos r) n @ rest"
    and "started r \<or> n = 0"
    and "skip_left r = 0"
  shows "feed_step r = Next (r\<lparr>started := True, pos := pos r + page_hdr_len (pos r), pending := rest\<rparr>) None"
    and "\<not> at_padding r"
proof -
  have l: "24 \<le> length (page_header (pos r) n)" using page_hdr_len_pos by (simp add: page_header_simps)
  have t: "take 2 (pending r) = to_le (0xD116 :: u16)"
    "take 4 (drop 16 (pending r)) = to_le (word_of_nat n :: u32)"
    using l by (simp_all add: assms(2) page_header_simps)
  have ok: "(from_le (take 2 (pending r)) :: u16) \<in> set XLOG_PAGE_MAGICS"
    unfolding t by (simp add: XLOG_PAGE_MAGICS_def)
  have len: "\<not> length (pending r) < page_hdr_len (pos r)" "drop (page_hdr_len (pos r)) (pending r) = rest"
    by (simp_all add: assms(2) page_header_simps)
  have skip: "(if started r then r else r\<lparr>started := True, skip_left := unat (word_of_nat n :: u32)\<rparr>)
      = r\<lparr>started := True\<rparr>"
    using assms(3,4) by (cases r) auto
  have "page_step r = Next (r\<lparr>started := True, pos := pos r + page_hdr_len (pos r), pending := rest\<rparr>) None"
    unfolding page_step_def Let_def t(2) from_to_le_u32 skip
    using ok len assms(4) maxalign_page_hdr [OF assms(1)] by (cases r) (simp add: advance_def)
  moreover have "pending r \<noteq> []" using l by (auto simp: assms(2))
  ultimately show "feed_step r = Next (r\<lparr>started := True, pos := pos r + page_hdr_len (pos r), pending := rest\<rparr>) None"
    using assms(1) by (simp add: feed_step_def)
  show "\<not> at_padding r" using assms(1) by (simp add: at_padding_def)
qed

definition body_done :: "WalReader \<Rightarrow> bytes \<Rightarrow> nat \<Rightarrow> WalReader" where
  "body_done r rest q = r\<lparr>pos := q, pending := rest, rec := [], need := 0, skip_left := maxalign q - q\<rparr>"

lemma body_step_piece:
  assumes "pos r mod XLOG_PAGE_SIZE \<noteq> 0" and "skip_left r = 0" and "0 < need r"
    and "need r = length (rec r) + length bs" and "bs \<noteq> []"
    and "n = XLOG_PAGE_SIZE - pos r mod XLOG_PAGE_SIZE" and "pending r = take n bs @ rest"
  shows "feed_step r =
     (if length bs \<le> n then Next (body_done r rest (pos r + length bs)) (Some (rec_lsn r, rec r @ bs))
      else Next (r\<lparr>pos := pos r + n, pending := rest, rec := rec r @ take n bs\<rparr>) None)"
proof -
  have "0 < n" using page_rem_pos [OF assms(1)] assms(6) by simp
  then have ne: "pending r \<noteq> []" using assms(5,7) by simp
  have len: "min (min (need r - length (rec r)) n) (length (pending r)) = min (length bs) n"
    using assms(4,7) by (simp add: min_def)
  have le: "length (rec r) \<le> need r" using assms(4) by simp
  have "feed_step r = body_by (min (length bs) n) r"
    using assms(1-3) ne le by (simp add: feed_step_def Let_def body_step_by assms(6) [symmetric] len)
  also have "\<dots> = (if length bs \<le> n then Next (body_done r rest (pos r + length bs)) (Some (rec_lsn r, rec r @ bs))
      else Next (r\<lparr>pos := pos r + n, pending := rest, rec := rec r @ take n bs\<rparr>) None)"
    using assms(4,7) by (simp add: body_by_def Let_def body_done_def advance_def)
  finally show ?thesis .
qed

lemma runs_body:
  assumes "bs \<noteq> []" and "started r" and "skip_left r = 0" and "0 < need r"
    and "need r = length (rec r) + length bs" and "pos r = p"
    and "pending r = write_span p cont bs @ rest"
  shows "runs r [(rec_lsn r, rec r @ bs)] (body_done r rest (p + length (write_span p cont bs)))"
  using assms
proof (induction p cont bs arbitrary: r rule: write_span.induct)
  case (1 p cont bs)
  note prems = "1.prems"
  let ?n = "XLOG_PAGE_SIZE - p mod XLOG_PAGE_SIZE"
  show ?case
  proof (cases "p mod XLOG_PAGE_SIZE = 0")
    case True
    let ?r = "r\<lparr>started := True, pos := pos r + page_hdr_len (pos r),
       pending := write_span (p + page_hdr_len p) cont bs @ rest\<rparr>"
    have w: "write_span p cont bs = page_header p (if cont then length bs else 0) @
        write_span (p + page_hdr_len p) cont bs"
      using True prems(1) by (subst write_span.simps) simp
    have pend: "pending r = page_header (pos r) (if cont then length bs else 0) @
        (write_span (p + page_hdr_len p) cont bs @ rest)"
      using prems w by simp
    have "runs ?r [(rec_lsn ?r, rec ?r @ bs)]
        (body_done ?r rest (p + page_hdr_len p + length (write_span (p + page_hdr_len p) cont bs)))"
      using 1(1) [OF prems(1) True, of ?r] prems by simp
    then have "runs r [(rec_lsn ?r, rec ?r @ bs)]
        (body_done ?r rest (p + page_hdr_len p + length (write_span (p + page_hdr_len p) cont bs)))"
      using page_header_step [OF _ pend] True prems by (intro runs_None [of r ?r]) auto
    moreover have "length (write_span p cont bs) =
        page_hdr_len p + length (write_span (p + page_hdr_len p) cont bs)"
      by (simp add: w page_header_simps)
    moreover have "body_done ?r rest q = body_done r rest q" for q
      using prems(2) by (cases r) (simp add: body_done_def)
    ultimately show ?thesis
      by (simp add: add.assoc)
  next
    case False
    have w: "write_span p cont bs = take ?n bs @ write_span (p + ?n) True (drop ?n bs)"
      using False prems(1) by (subst write_span.simps) simp
    have nopad: "\<not> at_padding r" using prems by (simp add: at_padding_def)
    have pend: "pending r = take ?n bs @ (write_span (p + ?n) True (drop ?n bs) @ rest)"
      using prems w by simp
    note step = body_step_piece [OF _ prems(3,4,5,1) _ pend]
    show ?thesis
    proof (cases "length bs \<le> ?n")
      case True
      then have e: "write_span p cont bs = bs" and e2: "write_span (p + ?n) True (drop ?n bs) = []"
        using w by (simp_all add: write_span.simps [of _ _ "[]"])
      have "feed_step r = Next (body_done r rest (p + length bs)) (Some (rec_lsn r, rec r @ bs))"
        using step False True prems(6) e2 by simp
      from runs_step [OF this nopad runs_refl] show ?thesis by (simp add: e)
    next
      case False2: False
      let ?r = "r\<lparr>pos := pos r + ?n, pending := write_span (p + ?n) True (drop ?n bs) @ rest,
         rec := rec r @ take ?n bs\<rparr>"
      have "feed_step r = Next ?r None"
        using step False False2 prems(6) by simp
      moreover have "runs ?r [(rec_lsn ?r, rec ?r @ drop ?n bs)]
          (body_done ?r rest (p + ?n + length (write_span (p + ?n) True (drop ?n bs))))"
        by (rule 1(2) [OF prems(1) False]) (use prems(2-6) False2 in auto)
      ultimately have "runs r [(rec_lsn ?r, rec ?r @ drop ?n bs)]
          (body_done ?r rest (p + ?n + length (write_span (p + ?n) True (drop ?n bs))))"
        using runs_None [OF _ nopad] by blast
      moreover have "length (write_span p cont bs) = ?n + length (write_span (p + ?n) True (drop ?n bs))"
        using False2 by (simp add: w)
      ultimately show ?thesis
        by (simp add: body_done_def add.assoc)
    qed
  qed
qed


lemma maxalign_align_up: "maxalign v = align_up v 8"
  by (simp add: maxalign_def align_up_def)

lemma maxalign_ge: "v \<le> maxalign v"
  by (simp add: maxalign_align_up align_up_ge)

lemma maxalign_dvd: "8 dvd maxalign v"
  by (simp add: maxalign_align_up align_up_dvd)

lemma maxalign_id: "8 dvd v \<Longrightarrow> maxalign v = v"
  by (simp add: maxalign_align_up align_up_id)

lemma maxalign_pad: "0 < m \<Longrightarrow> m < 8 \<Longrightarrow> 8 * a + m = q \<Longrightarrow> maxalign q - q = 8 - m"
proof -
  assume m: "0 < m" "m < 8" "8 * a + m = q"
  then have "(q + 7) div 8 = a + 1" by (intro div_nat_eqI) auto
  with m show ?thesis by (auto simp: maxalign_def)
qed

lemma pad_in_page:
  assumes "0 < maxalign q - q"
  shows "q mod XLOG_PAGE_SIZE \<noteq> 0" and "maxalign q - q \<le> XLOG_PAGE_SIZE - q mod XLOG_PAGE_SIZE"
proof -
  have nd: "\<not> 8 dvd q" using assms maxalign_id by force
  have "8 dvd q" if "q mod XLOG_PAGE_SIZE = 0"
    using dvd_trans [OF _ mod_0_imp_dvd [OF that], of 8] by (simp add: wal_consts)
  with nd show "q mod XLOG_PAGE_SIZE \<noteq> 0" by blast
  have m8: "0 < q mod 8" "q mod 8 < 8" "8 * (q div 8) + q mod 8 = q"
    using nd by (auto simp: mod_greater_zero_iff_not_dvd)
  then have "maxalign q - q = 8 - q mod 8" by (rule maxalign_pad)
  moreover have "q mod 8 = q mod XLOG_PAGE_SIZE mod 8" by (simp add: wal_consts mod_mod_cancel)
  moreover have "8 - m mod 8 \<le> 8192 - m" if "m < 8192" for m :: nat
  proof -
    have "m div 8 < 1024" using that by (simp add: less_mult_imp_div_less)
    moreover have "8 * (m div 8) + m mod 8 = m" by simp
    ultimately show ?thesis by linarith
  qed
  ultimately show "maxalign q - q \<le> XLOG_PAGE_SIZE - q mod XLOG_PAGE_SIZE"
    using mod_page_less [of q] by (simp add: wal_consts)
qed

lemma page_rem_aligned:
  assumes "8 dvd q" and "q mod XLOG_PAGE_SIZE \<noteq> 0"
  shows "8 \<le> XLOG_PAGE_SIZE - q mod XLOG_PAGE_SIZE"
proof -
  have "q mod 8 = q mod XLOG_PAGE_SIZE mod 8" by (simp add: wal_consts mod_mod_cancel)
  with assms(1) have "q mod XLOG_PAGE_SIZE mod 8 = 0" by (simp add: dvd_eq_mod_eq_0)
  moreover have "8 \<le> 8192 - m" if "m < 8192" "m mod 8 = 0" for m :: nat
  proof -
    have "m div 8 < 1024" using that by (simp add: less_mult_imp_div_less)
    moreover have "8 * (m div 8) + m mod 8 = m" by simp
    ultimately show ?thesis using that by linarith
  qed
  ultimately show ?thesis using mod_page_less [of q] by (simp add: wal_consts)
qed

text \<open>A reader between two records.\<close>

definition idle :: "WalReader \<Rightarrow> nat \<Rightarrow> bytes \<Rightarrow> bool" where
  "idle r p bs \<longleftrightarrow> pos r = p \<and> pending r = bs \<and> skip_left r = 0 \<and> need r = 0 \<and>
     (started r \<or> p mod XLOG_PAGE_SIZE = 0)"

lemma runs_padding:
  assumes "pos r = q" and "started r" and "need r = 0" and "skip_left r = maxalign q - q"
    and "pending r = replicate (maxalign q - q) 0 @ rest"
  shows "\<exists>r'. runs r [] r' \<and> idle r' (maxalign q) rest"
proof (cases "maxalign q - q = 0")
  case True
  then have "maxalign q = q" using maxalign_ge [of q] by simp
  with assms True have "idle r (maxalign q) rest" by (simp add: idle_def)
  then show ?thesis using runs_refl by blast
next
  case False
  note page = pad_in_page [of q, simplified, OF False [unfolded neq0_conv, simplified]]
  have n: "min (min (skip_left r) (XLOG_PAGE_SIZE - q mod XLOG_PAGE_SIZE)) (length (pending r)) = maxalign q - q"
    using page(2) by (simp add: assms(4,5) min_absorb1)
  have q: "q + (maxalign q - q) = maxalign q" using maxalign_ge by simp
  have "feed_step r = skip_step (XLOG_PAGE_SIZE - q mod XLOG_PAGE_SIZE) r"
    using False page(1) assms by (simp add: feed_step_def Let_def)
  then have step: "feed_step r = Next (skip_by (maxalign q - q) r) None"
    by (simp only: skip_step_by n)
  have "idle (skip_by (maxalign q - q) r) (maxalign q) rest"
    using assms q maxalign_id [OF maxalign_dvd, of q] by (simp add: idle_def skip_by_def Let_def)
  moreover have "\<not> at_padding r" using False assms(4) by (simp add: at_padding_def)
  ultimately show ?thesis
    using runs_None [OF step _ runs_refl] by blast
qed

lemma runs_to_record:
  assumes "idle r p (write_span p False bs @ rest)" and "bs \<noteq> []"
  shows "\<exists>r'. runs r [] r' \<and> idle r' (rec_start p) (write_span (rec_start p) False bs @ rest) \<and> started r'"
proof (cases "p mod XLOG_PAGE_SIZE = 0")
  case True
  have w: "write_span p False bs = page_header p 0 @ write_span (p + page_hdr_len p) False bs"
    using True assms(2) by (subst write_span.simps) simp
  let ?r = "r\<lparr>started := True, pos := pos r + page_hdr_len (pos r),
      pending := write_span (p + page_hdr_len p) False bs @ rest\<rparr>"
  have "feed_step r = Next ?r None" "\<not> at_padding r"
    using page_header_step [of r 0 "write_span (p + page_hdr_len p) False bs @ rest"] True assms(1) w
    by (simp_all add: idle_def)
  then have "runs r [] ?r" using runs_None runs_refl by blast
  moreover have "idle ?r (rec_start p) (write_span (rec_start p) False bs @ rest)"
    using True assms(1) by (simp add: idle_def rec_start_def)
  ultimately show ?thesis by (intro exI [of _ ?r]) simp
next
  case False
  then show ?thesis
    using assms runs_refl by (auto simp: idle_def rec_start_def)
qed

lemma rec_start_props:
  assumes "8 dvd p"
  shows "8 dvd rec_start p" and "rec_start p mod XLOG_PAGE_SIZE \<noteq> 0"
  using assms after_page_header [of p]
  by (auto simp: rec_start_def page_hdr_len_def wal_consts)

lemma write_span_rec_start:
  assumes "bs \<noteq> []"
  shows "p + length (write_span p False bs) = rec_start p + length (write_span (rec_start p) False bs)"
proof (cases "p mod XLOG_PAGE_SIZE = 0")
  case True
  then have "write_span p False bs = page_header p 0 @ write_span (p + page_hdr_len p) False bs"
    using assms by (subst write_span.simps) simp
  with True show ?thesis by (simp add: rec_start_def page_header_simps)
qed (simp add: rec_start_def)

lemma record_start_step:
  assumes "idle r q (write_span q False bs @ rest)" and "8 dvd q" and "q mod XLOG_PAGE_SIZE \<noteq> 0"
    and "record_bytes bs"
  shows "feed_step r = Next (r\<lparr>rec_lsn := q, need := length bs, rec := []\<rparr>) None" and "\<not> at_padding r"
proof -
  have len: "24 \<le> length bs" using assms(4) by (simp add: record_bytes_def wal_consts)
  let ?n = "XLOG_PAGE_SIZE - q mod XLOG_PAGE_SIZE"
  have "write_span q False bs = take ?n bs @ write_span (q + ?n) True (drop ?n bs)"
    using assms(3) len by (subst write_span.simps) auto
  moreover have n8: "8 \<le> ?n" by (rule page_rem_aligned [OF assms(2,3)])
  ultimately have t: "take 4 (pending r) = take 4 bs" and l: "4 \<le> length (pending r)"
    using assms(1) len by (auto simp: idle_def min_def)
  have tot: "unat (from_le (take 4 (pending r)) :: u32) = length bs"
    using assms(4) t by (simp add: record_bytes_def)
  show "feed_step r = Next (r\<lparr>rec_lsn := q, need := length bs, rec := []\<rparr>) None"
    using assms(1,3) l tot len
    by (auto simp: feed_step_def record_step_def Let_def idle_def REC_HDR_LEN_def)
  show "\<not> at_padding r" using tot len by (auto simp: at_padding_def)
qed

lemma runs_record:
  assumes "idle r p (wal_layout p (bs # recs))" and "8 dvd p" and "record_bytes bs"
  shows "\<exists>r'. runs r [(rec_start p, bs)] r' \<and>
     idle r' (maxalign (span_end p bs)) (wal_layout (maxalign (span_end p bs)) recs)"
proof -
  let ?q = "rec_start p" and ?e = "span_end p bs"
  let ?rest = "replicate (maxalign ?e - ?e) 0 @ wal_layout (maxalign ?e) recs"
  have ne: "bs \<noteq> []" using assms(3) by (auto simp: record_bytes_def wal_consts)
  have "idle r p (write_span p False bs @ ?rest)" using assms(1) by simp
  from runs_to_record [OF this ne] obtain r1 where
    r1: "runs r [] r1" "idle r1 ?q (write_span ?q False bs @ ?rest)" "started r1" by blast
  let ?r2 = "r1\<lparr>rec_lsn := ?q, need := length bs, rec := []\<rparr>"
  have "runs r1 [] ?r2"
    using record_start_step [OF r1(2) rec_start_props [OF assms(2)] assms(3)]
    by (blast intro: runs_None runs_refl)
  moreover have e: "?e = ?q + length (write_span ?q False bs)"
    using write_span_rec_start [OF ne] by (simp add: span_end_def)
  moreover have "runs ?r2 [(rec_lsn ?r2, rec ?r2 @ bs)] (body_done ?r2 ?rest ?e)"
    using runs_body [of bs ?r2 ?q False ?rest] r1 ne by (simp add: idle_def e [symmetric])
  ultimately have "runs r [(?q, bs)] (body_done ?r2 ?rest ?e)"
    using runs_trans [OF runs_trans [OF r1(1)]] by fastforce
  moreover have "\<exists>r'. runs (body_done ?r2 ?rest ?e) [] r' \<and> idle r' (maxalign ?e) (wal_layout (maxalign ?e) recs)"
    using r1 by (intro runs_padding) (simp_all add: body_done_def)
  ultimately show ?thesis
    using runs_trans by fastforce
qed

lemma runs_stream:
  "idle r p (wal_layout p recs) \<Longrightarrow> 8 dvd p \<Longrightarrow> \<forall>bs \<in> set recs. record_bytes bs \<Longrightarrow>
   \<exists>r'. runs r (located p recs) r' \<and> pending r' = []"
proof (induction recs arbitrary: r p)
  case Nil
  then show ?case using runs_refl by (auto simp: idle_def)
next
  case (Cons bs recs)
  from runs_record [OF Cons.prems(1,2)] Cons.prems(3) obtain r1 where
    "runs r [(rec_start p, bs)] r1"
    "idle r1 (maxalign (span_end p bs)) (wal_layout (maxalign (span_end p bs)) recs)" by auto
  with Cons.IH [OF this(2) maxalign_dvd] Cons.prems(3) show ?case
    using runs_trans by fastforce
qed


section \<open>Feeding in chunks\<close>

fun feed_chunks :: "WalReader \<Rightarrow> lsn \<Rightarrow> bytes list \<Rightarrow> WalReader \<times> (lsn \<times> bytes) list result" where
  "feed_chunks r l [] = (r, Ok [])"
| "feed_chunks r l (d # ds) =
     (case feed r l d of
        (r1, Err e) \<Rightarrow> (r1, Err e)
      | (r1, Ok xs) \<Rightarrow> map_prod id (map_sum id ((@) xs)) (feed_chunks r1 (l + length d) ds))"

function meets_padding :: "WalReader \<Rightarrow> bool" where
  "meets_padding r =
     (at_padding r \<or> (case feed_step r of Next r' fin \<Rightarrow> meets_padding r' | _ \<Rightarrow> False))"
  by pat_completeness auto
termination
  by (relation "measures [\<lambda>r. length (pending r), step_rank]")
    (auto dest!: feed_step_progress simp: progress_def)

declare meets_padding.simps [simp del]

lemma runs_meets_padding: "runs r xs r' \<Longrightarrow> pending r' = [] \<Longrightarrow> \<not> meets_padding r"
proof (induction rule: runs.induct)
  case (runs_refl r)
  then show ?case by (simp add: meets_padding.simps [of r] at_padding_def feed_step_def)
next
  case (runs_step r r' fin out r'')
  then show ?case by (simp add: meets_padding.simps [of r])
qed

lemma partial_padding_more: "at_partial_padding r \<Longrightarrow> at_padding (more r d)"
  by (simp add: at_partial_padding_def at_padding_def)

lemma meets_padding_more:
  assumes "\<not> meets_padding (more r d)" and "d \<noteq> []"
  shows "\<not> splits_padding r \<and>
    (\<forall>r1 xs. feed_loop r out = (r1, Ok xs) \<longrightarrow> \<not> meets_padding (more r1 d))"
  using assms(1)
proof (induction r out rule: feed_loop.induct)
  case (1 r out)
  have nap: "\<not> at_partial_padding r"
    using 1(2) partial_padding_more by (auto simp: meets_padding.simps [of "more r d"])
  show ?case
  proof (cases "feed_step r")
    case (Next r' fin)
    have nm: "\<not> meets_padding (more r' d)"
      using feed_step_resumes [OF Next nap assms(2)] 1(2)
      by (auto simp: resumes_def meets_padding.simps [of "more r d"] at_padding_def
          meets_padding.simps [of "more r' d"])
    show ?thesis
      using 1(1) [OF Next nm] nap Next
      by (simp add: splits_padding.simps [of r] feed_loop.simps [of r])
  qed (use nap 1(2) in \<open>auto simp: splits_padding.simps [of r] feed_loop.simps [of r]\<close>)
qed

lemma page_step_total: "page_step r = Next r' fin \<Longrightarrow> pos r' + length (pending r') = pos r + length (pending r)"
  by (auto simp: page_step_def Let_def split: if_splits)

lemma skip_by_total:
  "n \<le> length (pending r) \<Longrightarrow> pos (skip_by n r) + length (pending (skip_by n r)) = pos r + length (pending r)"
  by (simp add: skip_by_def Let_def)

lemma body_by_total:
  "body_by n r = Next r' fin \<Longrightarrow> n \<le> length (pending r) \<Longrightarrow> pos r' + length (pending r') = pos r + length (pending r)"
  by (auto simp: body_by_def Let_def split: if_splits)

lemma feed_step_total:
  assumes "feed_step r = Next r' fin"
  shows "pos r' + length (pending r') = pos r + length (pending r)"
proof -
  let ?k = "XLOG_PAGE_SIZE - pos r mod XLOG_PAGE_SIZE"
  consider "page_step r = Next r' fin" | "skip_step ?k r = Next r' fin"
    | "body_step ?k r = Next r' fin" | "record_step ?k r = Next r' fin"
    using assms by (auto simp: feed_step_def Let_def split: if_splits)
  then show ?thesis
  proof cases
    case 2
    then show ?thesis by (auto simp: skip_step_by skip_by_total)
  next
    case 3
    then have "length (rec r) \<le> need r" by (auto simp: body_step_def split: if_splits)
    with 3 show ?thesis by (auto simp: body_step_by dest: body_by_total)
  next
    case 4
    then show ?thesis by (auto simp: record_step_def Let_def split: if_splits)
  qed (rule page_step_total)
qed

lemma feed_loop_total:
  "feed_loop r out = (r1, Ok xs) \<Longrightarrow>
   pos r1 + length (pending r1) = pos r + length (pending r) \<and> feed_step r1 = Break"
proof (induction r out rule: feed_loop.induct)
  case (1 r out)
  then show ?case
    by (cases "feed_step r") (auto simp: feed_loop.simps [of r] dest: feed_step_total)
qed

lemma feed_loop_empty: "pending r = [] \<Longrightarrow> feed_loop r out = (r, Ok out)"
  by (simp add: feed_loop.simps [of r] feed_step_def)

lemma feed_more: "feed r (pos r + length (pending r)) d = feed_loop (more r d) []"
  by (simp add: feed_def more_def)

lemma feed_chunks_whole:
  assumes "\<not> meets_padding (more r (concat ds))" and "feed_step r = Break"
    and "feed_loop (more r (concat ds)) [] = (r', Ok xs)"
  shows "feed_chunks r (pos r + length (pending r)) ds = (r', Ok xs)"
  using assms
proof (induction ds arbitrary: r xs)
  case Nil
  then show ?case by (simp add: feed_loop.simps [of r])
next
  case (Cons d ds)
  show ?case
  proof (cases "concat ds = []")
    case True
    have "feed_chunks r1 l ds = (r1, Ok [])" if "feed_step r1 = Break" "l = pos r1 + length (pending r1)" for r1 l
      using True that
    proof (induction ds arbitrary: l)
      case (Cons d ds)
      then show ?case by (simp add: feed_more feed_loop.simps [of r1])
    qed simp
    from this [of r'] have "feed_chunks r' (pos r + length (pending r) + length d) ds = (r', Ok [])"
      using feed_loop_total [OF Cons.prems(3)] True by (simp add: add.assoc del: concat_eq_Nil_conv)
    with Cons.prems(3) True show ?thesis by (simp add: feed_more)
  next
    case False
    have nm: "\<not> meets_padding (more (more r d) (concat ds))" using Cons.prems(1) by simp
    note mp = meets_padding_more [OF nm False, of "[]"]
    obtain r1 res where L: "feed_loop (more r d) [] = (r1, res)" by fastforce
    show ?thesis
    proof (cases res)
      case (Inl e)
      with feed_loop_more_Err [of "more r d" "[]" r1 e "concat ds"] L mp Cons.prems(3)
      show ?thesis by auto
    next
      case (Inr xs1)
      with L have L: "feed_loop (more r d) [] = (r1, Ok xs1)" by simp
      note T = feed_loop_total [OF L]
      have "feed_loop (more r1 (concat ds)) xs1 = (r', Ok xs)"
        using feed_loop_more [OF conjunct1 [OF mp] L, of "concat ds"] Cons.prems(3) by simp
      then obtain ys where ys: "feed_loop (more r1 (concat ds)) [] = (r', Ok ys)" "xs = xs1 @ ys"
        using feed_loop_append [of "more r1 (concat ds)" xs1 "[]"]
        by (cases "feed_loop (more r1 (concat ds)) []"; cases "snd (feed_loop (more r1 (concat ds)) [])") auto
      have "feed_chunks r1 (pos r1 + length (pending r1)) ds = (r', Ok ys)"
        using Cons.IH [OF _ conjunct2 [OF T] ys(1)] mp L by blast
      then show ?thesis using T L ys by (simp add: feed_more add.assoc)
    qed
  qed
qed


section \<open>Properties\<close>

text \<open>
  C10 (equivalence): reassembly does not depend on how the stream is cut, as long as no cut falls
  inside zero padding. If feeding a first chunk succeeds without leaving padding half received,
  then feeding both chunks at once gives the same records and the same reader as feeding the
  second chunk after the first, errors included.
\<close>
theorem wal_chunking_invariant:
  assumes "\<not> splits_padding (r\<lparr>pending := pending r @ d1\<rparr>)"
    and "feed r l d1 = (r1, Ok xs)"
  shows "feed r l (d1 @ d2) =
    (case feed r1 (l + length d1) d2 of (r2, res) \<Rightarrow> (r2, map_sum id ((@) xs) res))"
proof -
  have l: "l = pos r + length (pending r)" using assms(2) by (auto simp: feed_def split: if_splits)
  have L: "feed_loop (more r d1) [] = (r1, Ok xs)" using assms(2) by (simp add: l feed_more)
  have l1: "l + length d1 = pos r1 + length (pending r1)" using feed_loop_total [OF L] by (simp add: l)
  have "feed r l (d1 @ d2) = feed_loop (more r1 d2) xs"
    using feed_loop_more [OF assms(1) [folded more_def] L, of d2] by (simp add: l feed_more)
  then show ?thesis
    using feed_loop_append [of "more r1 d2" xs "[]"] by (simp add: l1 feed_more split_beta map_prod_def)
qed

theorem wal_chunking_invariant_witness:
  "\<exists>r1. feed \<lparr>pos = 8192, pending = [], skip_left = 0, started = False, rec = [], rec_lsn = 0, need = 0\<rparr>
       8192 (replicate 10 0) = (r1, Ok []) \<and>
     feed \<lparr>pos = 8192, pending = [], skip_left = 0, started = False, rec = [], rec_lsn = 0, need = 0\<rparr>
       8192 (replicate 10 0 @ replicate 20 0) =
     (case feed r1 8202 (replicate 20 0) of (r2, res) \<Rightarrow> (r2, map_sum id ((@) []) res))"
proof -
  let ?r = "\<lparr>pos = 8192, pending = [], skip_left = 0, started = False, rec = [], rec_lsn = 0, need = 0\<rparr> :: WalReader"
  have B: "feed_step (?r\<lparr>pending := replicate 10 0\<rparr>) = Break"
    by (simp add: feed_step_def page_step_def page_hdr_len_def wal_consts)
  have F: "feed ?r 8192 (replicate 10 0) = (?r\<lparr>pending := replicate 10 0\<rparr>, Ok [])"
    using B by (simp add: feed_def) (subst feed_loop.simps, simp)
  have S: "\<not> splits_padding (?r\<lparr>pending := pending ?r @ replicate 10 0\<rparr>)"
    using B by (subst splits_padding.simps) (simp add: at_partial_padding_def wal_consts)
  show ?thesis
    using wal_chunking_invariant [OF S F, of "replicate 20 0"] F by auto
qed

text \<open>
  C7 (roundtrip): the reader recovers what PostgreSQL wrote. For any list of records laid out from
  a page boundary (page headers at every page, records broken across pages, each record padded to
  eight bytes) and any cutting of that stream into chunks, a fresh reader fed the chunks in order
  returns exactly the records, each with the LSN of its first byte.
\<close>
theorem wal_stream_roundtrip:
  assumes "p mod XLOG_PAGE_SIZE = 0" and "\<forall>bs \<in> set recs. record_bytes bs"
    and "concat chunks = wal_layout p recs"
  shows "\<exists>r0 r'. wal_reader_new p = Ok r0 \<and> feed_chunks r0 p chunks = (r', Ok (located p recs))"
proof -
  let ?r = "\<lparr>pos = p, pending = [], skip_left = 0, started = False, rec = [], rec_lsn = 0, need = 0\<rparr> :: WalReader"
  have "8 dvd p" using dvd_trans [OF _ mod_0_imp_dvd [OF assms(1)], of 8] by (simp add: wal_consts)
  moreover have "idle (more ?r (wal_layout p recs)) p (wal_layout p recs)"
    using assms(1) by (simp add: idle_def)
  ultimately obtain r' where R: "runs (more ?r (wal_layout p recs)) (located p recs) r'" "pending r' = []"
    using runs_stream assms(2) by blast
  have "feed_loop (more ?r (concat chunks)) [] = (r', Ok (located p recs))"
    using runs_loop [OF R(1), of "[]"] R(2) by (simp add: assms(3) feed_loop.simps [of r'] feed_step_def)
  moreover have "\<not> meets_padding (more ?r (concat chunks))"
    using runs_meets_padding [OF R] by (simp add: assms(3))
  ultimately have "feed_chunks ?r p chunks = (r', Ok (located p recs))"
    using feed_chunks_whole [of ?r chunks r' "located p recs"] by (simp add: feed_step_def)
  then show ?thesis using assms(1) by (simp add: wal_reader_new_def)
qed

theorem wal_stream_roundtrip_witness:
  "\<exists>r0 r'. wal_reader_new 8192 = Ok r0 \<and>
     feed_chunks r0 8192 [take 30 (wal_layout 8192 [to_le (26 :: u32) @ replicate 22 7]),
       drop 30 (wal_layout 8192 [to_le (26 :: u32) @ replicate 22 7])] =
     (r', Ok [(8216, to_le (26 :: u32) @ replicate 22 7)])"
  using wal_stream_roundtrip [of 8192 "[to_le (26 :: u32) @ replicate 22 7]"
      "[take 30 (wal_layout 8192 [to_le (26 :: u32) @ replicate 22 7]),
        drop 30 (wal_layout 8192 [to_le (26 :: u32) @ replicate 22 7])]"]
  by (simp add: record_bytes_def rec_start_def page_hdr_len_def wal_consts del: wal_layout.simps)

section \<open>Padding cut inside a word\<close>

text \<open>
  The last eight bytes of a page are padding and the next page header follows. Received at once,
  the reader passes both; cut after six bytes, it reads the last two padding bytes and the page
  magic as a record length and waits for a record of more than three gigabytes.
\<close>

definition padded_page_end :: WalReader where
  "padded_page_end = \<lparr>pos = 16376, pending = [], skip_left = 0, started = True, rec = [], rec_lsn = 0, need = 0\<rparr>"

lemma zero_word_step:
  assumes "pos r mod XLOG_PAGE_SIZE \<noteq> 0" and "skip_left r = 0" and "need r = 0"
    and "4 \<le> length (pending r)" and "take 4 (pending r) = replicate 4 0"
  shows "feed_step r = Next (advance (min (XLOG_PAGE_SIZE - pos r mod XLOG_PAGE_SIZE) (length (pending r))) r) None"
proof -
  have "(from_le (replicate 4 0) :: u32) = 0" by (simp add: from_le_def numeral_eq_Suc)
  moreover have "pending r \<noteq> []" using assms(4) by auto
  ultimately show ?thesis
    using assms by (simp add: feed_step_def record_step_def Let_def)
qed

lemma padding_cut_differs:
  "need (fst (feed padded_page_end 16376 (replicate 8 0 @ page_header 16384 0))) = 0"
  "feed_step (more (fst (feed padded_page_end 16376 (replicate 6 0))) (replicate 2 0 @ page_header 16384 0)) =
     Next (padded_page_end\<lparr>pos := 16382, pending := replicate 2 0 @ page_header 16384 0,
       rec_lsn := 16382, need := 0xD1160000\<rparr>) None"
proof -
  let ?r = padded_page_end and ?h = "page_header 16384 0"
  have len: "length ?h = 24" by (simp add: page_header_simps page_hdr_len_def wal_consts)
  let ?r1 = "?r\<lparr>pos := 16384, pending := ?h\<rparr>"
  have "feed_step (more ?r (replicate 8 0 @ ?h)) = Next ?r1 None"
    by (subst zero_word_step) (simp_all add: padded_page_end_def wal_consts len more_def advance_def)
  moreover have "feed_step ?r1 = Next (?r1\<lparr>started := True, pos := 16384 + page_hdr_len 16384, pending := []\<rparr>) None"
    using page_header_step(1) [of ?r1 0 "[]"] by (simp add: padded_page_end_def wal_consts)
  ultimately have "feed_loop (more ?r (replicate 8 0 @ ?h)) [] = (?r1\<lparr>started := True, pos := 16384 + page_hdr_len 16384, pending := []\<rparr>, Ok [])"
    by (simp add: feed_loop.simps [of "more ?r (replicate 8 0 @ ?h)"] feed_loop.simps [of ?r1] feed_loop_empty)
  then show "need (fst (feed ?r 16376 (replicate 8 0 @ ?h))) = 0"
    using feed_more [of ?r "replicate 8 0 @ ?h"] by (simp add: padded_page_end_def)
  have empty: "pending ?r = []" by (simp add: padded_page_end_def)
  have "feed_step (more ?r (replicate 6 0)) = Next (?r\<lparr>pos := 16382\<rparr>) None"
    by (subst zero_word_step) (simp_all add: padded_page_end_def wal_consts more_def advance_def)
  then have "feed_loop (more ?r (replicate 6 0)) [] = (?r\<lparr>pos := 16382\<rparr>, Ok [])"
    by (simp add: feed_loop.simps [of "more ?r (replicate 6 0)"] feed_loop_empty [of "?r\<lparr>pos := 16382\<rparr>"] empty)
  then have f: "fst (feed ?r 16376 (replicate 6 0)) = ?r\<lparr>pos := 16382\<rparr>"
    using feed_more [of ?r "replicate 6 0"] by (simp add: padded_page_end_def)
  have "take 4 (replicate 2 0 @ ?h) = replicate 2 0 @ to_le (0xD116 :: u16)"
    using page_header_simps(2) [of 16384 0] by simp
  moreover have "to_le (0xD116 :: u16) = [0x16, 0xD1]" by (simp add: to_le_def le_bytes_2)
  moreover have "replicate 2 0 = [0, 0 :: u8]" by (simp add: numeral_2_eq_2)
  ultimately have "take 4 (replicate 2 0 @ ?h) = [0, 0, 0x16, 0xD1]" by (simp only: append.simps)
  moreover have "(from_le [0, 0, 0x16, 0xD1] :: u32) = 0xD1160000" by (simp add: from_le_def)
  ultimately have "(from_le (take 4 (replicate 2 0 @ ?h)) :: u32) = 0xD1160000" by (simp only:)
  then show "feed_step (more (fst (feed ?r 16376 (replicate 6 0))) (replicate 2 0 @ ?h)) =
     Next (?r\<lparr>pos := 16382, pending := replicate 2 0 @ ?h, rec_lsn := 16382, need := 0xD1160000\<rparr>) None"
    unfolding f by (simp add: feed_step_def record_step_def padded_page_end_def more_def wal_consts Let_def len)
qed

end
