(* ===== verification/Heaprec.thy ===== *)
theory Heaprec
  imports Prelude
begin

text \<open>
  The fixed parts of heap, transaction and storage WAL records
  (\<^verbatim>\<open>src/wal/heap.rs\<close>): opcodes of the two dialects, record headers, subtransaction
  lists, offset numbers, and the lookup of a tuple on a heap page through its line pointer. A
  bit test \<^verbatim>\<open>x & FLAG != 0\<close> is written as in the source.
\<close>

section \<open>Opcodes and dialects\<close>

definition rmgr_XACT :: u8 where "rmgr_XACT = 1"
definition rmgr_SMGR :: u8 where "rmgr_SMGR = 2"
definition rmgr_HEAP2 :: u8 where "rmgr_HEAP2 = 9"
definition rmgr_HEAP :: u8 where "rmgr_HEAP = 10"
definition rmgr_NEON :: u8 where "rmgr_NEON = 134"

definition XLOG_HEAP_OPMASK :: u8 where "XLOG_HEAP_OPMASK = 0x70"
definition XLOG_HEAP_INSERT :: u8 where "XLOG_HEAP_INSERT = 0x00"
definition XLOG_HEAP_DELETE :: u8 where "XLOG_HEAP_DELETE = 0x10"
definition XLOG_HEAP_UPDATE :: u8 where "XLOG_HEAP_UPDATE = 0x20"
definition XLOG_HEAP_HOT_UPDATE :: u8 where "XLOG_HEAP_HOT_UPDATE = 0x40"
definition XLOG_HEAP2_MULTI_INSERT :: u8 where "XLOG_HEAP2_MULTI_INSERT = 0x50"
definition XLOG_HEAP_INIT_PAGE :: u8 where "XLOG_HEAP_INIT_PAGE = 0x80"
definition XLOG_XACT_HAS_INFO :: u8 where "XLOG_XACT_HAS_INFO = 0x80"
definition XLH_UPDATE_CONTAINS_NEW_TUPLE :: u8 where "XLH_UPDATE_CONTAINS_NEW_TUPLE = 0x10"
definition XLH_UPDATE_PREFIX_FROM_OLD :: u8 where "XLH_UPDATE_PREFIX_FROM_OLD = 0x20"
definition XLH_UPDATE_SUFFIX_FROM_OLD :: u8 where "XLH_UPDATE_SUFFIX_FROM_OLD = 0x40"

lemmas heap_consts = rmgr_XACT_def rmgr_SMGR_def rmgr_HEAP2_def rmgr_HEAP_def rmgr_NEON_def
  XLOG_HEAP_OPMASK_def XLOG_HEAP_INSERT_def XLOG_HEAP_DELETE_def XLOG_HEAP_UPDATE_def
  XLOG_HEAP_HOT_UPDATE_def XLOG_HEAP2_MULTI_INSERT_def XLOG_HEAP_INIT_PAGE_def
  XLOG_XACT_HAS_INFO_def XLH_UPDATE_CONTAINS_NEW_TUPLE_def XLH_UPDATE_PREFIX_FROM_OLD_def
  XLH_UPDATE_SUFFIX_FROM_OLD_def

datatype HeapFmt = Vanilla | Neon

definition normalize_dml :: "u8 \<Rightarrow> u8 \<Rightarrow> (u8 \<times> u8 \<times> HeapFmt) option" where
  "normalize_dml rmid info =
     (let raw_op = info AND XLOG_HEAP_OPMASK in
      if rmid = rmgr_NEON then
        if raw_op = 0x00 then Some (rmgr_HEAP, XLOG_HEAP_INSERT, Neon)
        else if raw_op = 0x10 then Some (rmgr_HEAP, XLOG_HEAP_DELETE, Neon)
        else if raw_op = 0x20 then Some (rmgr_HEAP, XLOG_HEAP_UPDATE, Neon)
        else if raw_op = 0x30 then Some (rmgr_HEAP, XLOG_HEAP_HOT_UPDATE, Neon)
        else if raw_op = 0x50 then Some (rmgr_HEAP2, XLOG_HEAP2_MULTI_INSERT, Neon)
        else None
      else Some (rmid, raw_op, Vanilla))"

text \<open>\<open>(t_infomask2, t_infomask, t_hoff, header length)\<close>\<close>

definition wal_heap_header :: "bytes \<Rightarrow> HeapFmt \<Rightarrow> (u16 \<times> u16 \<times> nat \<times> nat) result" where
  "wal_heap_header b fmt =
     (let len = (case fmt of Vanilla \<Rightarrow> 5 | Neon \<Rightarrow> 9) in
      rbind (ok_or (get_range b 0 len) (Bail ''heap header truncated'')) (\<lambda>hdr.
        Ok (from_le (take 2 hdr), from_le (take 2 (drop 2 hdr)), unat (hdr ! (len - 1)), len)))"

section \<open>Transaction and storage records\<close>

text \<open>
  The count is an \<open>i32\<close> cast to \<open>usize\<close>: a negative one becomes huge and the multiplication by
  four overflows.
\<close>

definition parse_xact_subxacts :: "u8 \<Rightarrow> bytes \<Rightarrow> u32 list result" where
  "parse_xact_subxacts info main_data =
     (if info AND XLOG_XACT_HAS_INFO = 0 then Ok []
      else
        rbind (ok_or (get_range main_data 8 12) (Bail ''xact record too short for xinfo'')) (\<lambda>xinfo_bytes.
        let xinfo = from_le xinfo_bytes :: u32;
            off = (if xinfo AND 1 \<noteq> 0 then 20 else 12)
        in if xinfo AND 2 = 0 then Ok []
           else
             rbind (ok_or (get_range main_data off (off + 4)) (Bail ''xact record too short for nsubxacts'')) (\<lambda>n_bytes.
             let n = sint (from_le n_bytes :: i32)
             in if n < 0 then Err (Panic ''attempt to multiply with overflow'')
                else
                  rbind (ok_or (get_range main_data (off + 4) (off + 4 + 4 * nat n))
                          (Bail ''xact record too short for subxacts'')) (\<lambda>xids_bytes.
                  Ok (map from_le (chunks_exact 4 xids_bytes))))))"

definition parse_smgr_create :: "bytes \<Rightarrow> (u32 \<times> u32) option result" where
  "parse_smgr_create main_data =
     (if length main_data < 16 then Err (Bail ''smgr create record too short'')
      else
        let db = from_le (take 4 (drop 4 main_data));
            rel = from_le (take 4 (drop 8 main_data));
            fork = from_le (take 4 (drop 12 main_data)) :: i32
        in Ok (if fork = 0 then Some (db, rel) else None))"

section \<open>Offset numbers\<close>

definition delete_offnum :: "bytes \<Rightarrow> u16 result" where
  "delete_offnum main_data =
     rbind (ok_or (get_range main_data 4 6) (Bail ''delete main data too short'')) (\<lambda>s. Ok (from_le s))"

record UpdateInfo =
  old_offnum :: u16
  new_offnum :: u16
  uflags :: u8

definition parse_update_main :: "bytes \<Rightarrow> HeapFmt \<Rightarrow> UpdateInfo result" where
  "parse_update_main main_data fmt =
     (let new_off = (case fmt of Vanilla \<Rightarrow> 12 | Neon \<Rightarrow> 16) in
      if length main_data < new_off + 2 then Err (Bail ''update main data too short'')
      else Ok \<lparr>old_offnum = from_le (take 2 (drop 4 main_data)),
               new_offnum = from_le (take 2 (drop new_off main_data)),
               uflags = main_data ! 7\<rparr>)"

definition insert_offnum :: "bytes \<Rightarrow> u16 result" where
  "insert_offnum main_data =
     rbind (ok_or (get_range main_data 0 2) (Bail ''insert main data too short'')) (\<lambda>s. Ok (from_le s))"

definition multi_insert_offsets :: "bytes \<Rightarrow> u8 \<Rightarrow> HeapFmt \<Rightarrow> u16 list result" where
  "multi_insert_offsets main_data info fmt =
     (if length main_data < 4 then Err (Bail ''multi-insert main data too short'')
      else
        let ntuples = unat (from_le (take 2 (drop 2 main_data)) :: u16) in
        if info AND XLOG_HEAP_INIT_PAGE \<noteq> 0 then Ok (map word_of_nat [1..<ntuples + 1])
        else
          let base = (case fmt of Vanilla \<Rightarrow> 4 | Neon \<Rightarrow> 8) in
          rbind (ok_or (get_range main_data base (base + 2 * ntuples)) (Bail ''multi-insert offsets truncated'')) (\<lambda>arr.
            Ok (map from_le (chunks_exact 2 arr))))"

section \<open>Tuples on a page\<close>

definition SIZEOF_HEAP_TUPLE_HEADER :: nat where
  "SIZEOF_HEAP_TUPLE_HEADER = 23"

text \<open>The offset, flags and length of an \<open>ItemIdData\<close>.\<close>

definition lp_off :: "u32 \<Rightarrow> nat" where "lp_off itemid = unat (itemid AND 0x7FFF)"
definition lp_flags :: "u32 \<Rightarrow> u32" where "lp_flags itemid = drop_bit 15 itemid AND 3"
definition lp_len :: "u32 \<Rightarrow> nat" where "lp_len itemid = unat (drop_bit 17 itemid)"

text \<open>\<open>(payload, t_infomask2, t_infomask, t_hoff)\<close>\<close>

definition tuple_on_page :: "bytes \<Rightarrow> u16 \<Rightarrow> (bytes \<times> u16 \<times> u16 \<times> nat) result" where
  "tuple_on_page page offnum =
     (if offnum = 0 then Err (Bail ''invalid offset number 0'')
      else
        let idx = 24 + (unat offnum - 1) * 4 in
        rbind (ok_or (get_range page idx (idx + 4)) (Bail ''line pointer beyond page'')) (\<lambda>s.
        let itemid = from_le s :: u32 in
        if lp_flags itemid \<noteq> 1 then Err (Bail ''line pointer is not LP_NORMAL'')
        else
          rbind (ok_or (get_range page (lp_off itemid) (lp_off itemid + lp_len itemid)) (Bail ''tuple beyond page'')) (\<lambda>tuple.
          if length tuple < SIZEOF_HEAP_TUPLE_HEADER then Err (Bail ''tuple shorter than its header'')
          else Ok (drop SIZEOF_HEAP_TUPLE_HEADER tuple, from_le (take 2 (drop 18 tuple)),
                   from_le (take 2 (drop 20 tuple)), unat (tuple ! 22)))))"

text \<open>\<^verbatim>\<open>hoff.checked_sub(SIZEOF_HEAP_TUPLE_HEADER)\<close>\<close>

definition bits_len :: "nat \<Rightarrow> nat result" where
  "bits_len hoff =
     (if hoff < SIZEOF_HEAP_TUPLE_HEADER then Err (Bail ''t_hoff < header size'')
      else Ok (hoff - SIZEOF_HEAP_TUPLE_HEADER))"

definition raw_attrs_from_page :: "bytes \<Rightarrow> u16 \<Rightarrow> bytes result" where
  "raw_attrs_from_page page offnum =
     rbind (tuple_on_page page offnum) (\<lambda>(payload, im2, im, hoff).
     rbind (bits_len hoff) (\<lambda>n.
       ok_or (get_range payload n (length payload)) (Bail ''tuple shorter than its null bitmap'')))"

end
