(* ===== verification/Compression.thy ===== *)
theory Compression
  imports Prelude
begin

text \<open>
  The decompressors of \<^verbatim>\<open>src/wal/heap.rs\<close>: PGLZ in full, LZ4 and the dispatch on the
  TOAST compression method. \<^verbatim>\<open>lz4_flex::block::decompress\<close> is a parameter: a function from
  the compressed bytes and a size bound to the decompressed bytes or nothing.
\<close>

type_synonym decompressor = "bytes \<Rightarrow> nat \<Rightarrow> bytes option"

section \<open>PGLZ\<close>

text \<open>The copy of a back-reference, byte by byte because source and target may overlap.\<close>

fun pglz_copy :: "nat \<Rightarrow> nat \<Rightarrow> nat \<Rightarrow> bytes \<Rightarrow> bytes" where
  "pglz_copy rawsize off 0 out = out"
| "pglz_copy rawsize off (Suc n) out =
     (if length out \<ge> rawsize then out
      else pglz_copy rawsize off n (out @ [out ! (length out - off)]))"

text \<open>One item under a control bit: the new source position and output.\<close>

definition pglz_item :: "bytes \<Rightarrow> nat \<Rightarrow> u8 \<Rightarrow> nat \<Rightarrow> nat \<times> bytes \<Rightarrow> (nat \<times> bytes) result" where
  "pglz_item src rawsize ctrl k st =
     (case st of (sp, out) \<Rightarrow>
        if ctrl AND push_bit k 1 \<noteq> 0 then
          if sp + 1 \<ge> length src then Err (Bail ''pglz: truncated back-reference'')
          else
            let len = unat (src ! sp AND 0x0F) + 3;
                off = push_bit 4 (unat (src ! sp AND 0xF0)) OR unat (src ! (sp + 1));
                sp2 = sp + 2
            in if len = 18 \<and> sp2 \<ge> length src then Err (Bail ''pglz: truncated extended length'')
               else
                 let len2 = (if len = 18 then len + unat (src ! sp2) else len);
                     sp3 = (if len = 18 then sp2 + 1 else sp2)
                 in if off = 0 \<or> off > length out then Err (Bail ''pglz: bad back-reference offset'')
                    else Ok (sp3, pglz_copy rawsize off len2 out)
        else Ok (sp + 1, out @ [src ! sp]))"

fun pglz_items :: "bytes \<Rightarrow> nat \<Rightarrow> u8 \<Rightarrow> nat list \<Rightarrow> nat \<times> bytes \<Rightarrow> (nat \<times> bytes) result" where
  "pglz_items src rawsize ctrl [] st = Ok st"
| "pglz_items src rawsize ctrl (k # ks) st =
     (if fst st \<ge> length src \<or> length (snd st) \<ge> rawsize then Ok st
      else rbind (pglz_item src rawsize ctrl k st) (pglz_items src rawsize ctrl ks))"

lemma pglz_item_sp: "pglz_item src rawsize ctrl k (sp, out) = Ok (sp', out') \<Longrightarrow> sp < sp'"
  by (auto simp: pglz_item_def Let_def split: if_splits)

lemma pglz_items_sp: "pglz_items src rawsize ctrl bits st = Ok st' \<Longrightarrow> fst st \<le> fst st'"
proof (induction bits arbitrary: st)
  case (Cons b bits)
  then show ?case
    using pglz_item_sp [of src rawsize ctrl b "fst st" "snd st"]
    by (fastforce simp: result_simps split: if_splits)
qed simp

function pglz_loop :: "bytes \<Rightarrow> nat \<Rightarrow> nat \<times> bytes \<Rightarrow> (nat \<times> bytes) result" where
  "pglz_loop src rawsize st =
     (if fst st < length src \<and> length (snd st) < rawsize
      then rbind (pglz_items src rawsize (src ! fst st) [0..<8] (fst st + 1, snd st)) (pglz_loop src rawsize)
      else Ok st)"
  by pat_completeness auto
termination
  by (relation "measure (\<lambda>(src, rawsize, st). length src - fst st)")
    (auto dest!: pglz_items_sp intro!: diff_less_mono2)

declare pglz_loop.simps [simp del]

definition pglz_decompress :: "bytes \<Rightarrow> nat \<Rightarrow> bytes result" where
  "pglz_decompress src rawsize =
     rbind (pglz_loop src rawsize (0, [])) (\<lambda>(sp, out).
       if length out \<noteq> rawsize then Err (Bail ''pglz: unexpected output length'') else Ok out)"

section \<open>LZ4 and the method dispatch\<close>

definition lz4_decompress :: "decompressor \<Rightarrow> bytes \<Rightarrow> nat \<Rightarrow> bytes result" where
  "lz4_decompress lz4 src rawsize =
     rbind (ok_or (lz4 src rawsize) (Bail ''lz4 decompress'')) (\<lambda>out.
       if length out \<noteq> rawsize then Err (Bail ''lz4: unexpected output length'') else Ok out)"

definition decompress_datum :: "decompressor \<Rightarrow> u32 \<Rightarrow> bytes \<Rightarrow> nat \<Rightarrow> bytes result" where
  "decompress_datum lz4 meth payload rawsize =
     (if meth = 0 then pglz_decompress payload rawsize
      else if meth = 1 then lz4_decompress lz4 payload rawsize
      else Err (Bail ''unknown toast compression method''))"

lemma decompress_datum_length:
  "decompress_datum lz4 m payload rawsize = Ok out \<Longrightarrow> length out = rawsize"
  by (auto simp: decompress_datum_def pglz_decompress_def lz4_decompress_def result_simps split: if_splits)

section \<open>The token stream of the compressor\<close>

datatype token = Lit u8 | Ref nat nat

fun copy_back :: "nat \<Rightarrow> nat \<Rightarrow> bytes \<Rightarrow> bytes" where
  "copy_back off 0 out = out"
| "copy_back off (Suc n) out = copy_back off n (out @ [out ! (length out - off)])"

fun expand_token :: "bytes \<Rightarrow> token \<Rightarrow> bytes" where
  "expand_token out (Lit b) = out @ [b]"
| "expand_token out (Ref off len) = copy_back off len out"

definition expand :: "token list \<Rightarrow> bytes" where
  "expand ts = foldl expand_token [] ts"

fun token_ok :: "bytes \<Rightarrow> token \<Rightarrow> bool" where
  "token_ok out (Lit b) = True"
| "token_ok out (Ref off len) = (1 \<le> off \<and> off \<le> 4095 \<and> off \<le> length out \<and> 3 \<le> len \<and> len \<le> 273)"

fun tokens_ok :: "bytes \<Rightarrow> token list \<Rightarrow> bool" where
  "tokens_ok out [] = True"
| "tokens_ok out (t # ts) = (token_ok out t \<and> tokens_ok (expand_token out t) ts)"

fun enc_token :: "token \<Rightarrow> bytes" where
  "enc_token (Lit b) = [b]"
| "enc_token (Ref off len) =
     (if len < 18
      then [word_of_nat (off div 256 * 16 + (len - 3)), word_of_nat off]
      else [word_of_nat (off div 256 * 16 + 15), word_of_nat off, word_of_nat (len - 18)])"

fun is_ref :: "token \<Rightarrow> bool" where
  "is_ref (Lit b) = False"
| "is_ref (Ref off len) = True"

definition ctrl_byte :: "token list \<Rightarrow> u8" where
  "ctrl_byte ts = horner_sum of_bool 2 (map is_ref ts)"

function pglz_encode :: "token list \<Rightarrow> bytes" where
  "pglz_encode ts =
     (if ts = [] then []
      else ctrl_byte (take 8 ts) # concat (map enc_token (take 8 ts)) @ pglz_encode (drop 8 ts))"
  by pat_completeness auto
termination by (relation "measure length") auto

declare pglz_encode.simps [simp del]

lemma length_copy_back [simp]: "length (copy_back off n out) = length out + n"
  by (induction n arbitrary: out) auto

lemma length_expand_token: "length out < length (expand_token out t)" if "token_ok out t"
  using that by (cases t) auto

lemma pglz_copy_in: "length out + n \<le> rawsize \<Longrightarrow> pglz_copy rawsize off n out = copy_back off n out"
  by (induction n arbitrary: out) auto

lemma and_bit_nonzero: "w AND push_bit k 1 \<noteq> 0 \<longleftrightarrow> bit w k" for w :: u8
proof -
  have "bit (w AND push_bit k 1) n \<longleftrightarrow> bit w n \<and> n = k \<and> k < 8" for n
    by (auto simp: bit_simps)
  moreover have "bit w k \<Longrightarrow> k < 8" using bit_imp_le_length [of w k] by simp
  ultimately show ?thesis
    by (metis bit_0_eq bit_word_eqI bot_apply bot_bool_def)
qed

lemma ctrl_byte_bit: "k < 8 \<Longrightarrow> k < length ts \<Longrightarrow> ctrl_byte ts AND push_bit k 1 \<noteq> 0 \<longleftrightarrow> is_ref (ts ! k)"
  unfolding and_bit_nonzero by (simp add: ctrl_byte_def bit_horner_sum_bit_word_iff)

lemma low_nibble: "unat (w AND 0x0F) = unat w mod 16" for w :: u8
proof -
  have "(0x0F :: u8) = mask 4" by (simp add: mask_eq_exp_minus_1)
  then have "unat (w AND 0x0F) = unat (take_bit 4 w)" by (simp only: take_bit_eq_mask)
  then show ?thesis by (simp add: unat_mod_distrib take_bit_eq_mod)
qed

lemma high_nibble: "unat (w AND 0xF0) = unat w div 16 * 16" for w :: u8
proof -
  have "w AND 0xF0 = w - (w AND 0x0F)"
  proof -
    have "(0xF0 :: u8) = NOT 0x0F" by simp
    then show ?thesis by (simp only: and_not_minus)
  qed
  moreover have "w AND 0x0F \<le> w" by (rule word_and_le2)
  ultimately show ?thesis
    by (simp add: unat_sub low_nibble minus_mod_eq_div_mult)
qed

lemma ref_off:
  "off \<le> 4095 \<Longrightarrow> push_bit 4 (off div 256 * 16) OR unat (word_of_nat off :: u8) = off" for off :: nat
proof -
  assume "off \<le> 4095"
  have "push_bit 4 (off div 256 * 16) = push_bit 8 (off div 256)" by (simp add: push_bit_eq_mult)
  moreover have "unat (word_of_nat off :: u8) = off mod 256" by (simp add: unat_of_nat)
  moreover have "push_bit 8 (off div 256) OR off mod 256 = push_bit 8 (off div 256) + off mod 256"
    by (rule nat_or_disjoint) simp
  ultimately show ?thesis by (simp add: push_bit_eq_mult mult.commute del: push_bit_numeral)
qed

lemma drop_nth2: "drop sp src = a # b # rest \<Longrightarrow> sp + 1 < length src \<and> src ! sp = a \<and> src ! (sp + 1) = b"
  by (metis Suc_eq_plus1 drop_eq_Nil2 list.distinct(1) list.inject not_less nth_via_drop Cons_nth_drop_Suc)

lemma pglz_item_token:
  assumes "drop sp src = enc_token t @ rest" and "token_ok out t"
    and "ctrl AND push_bit k 1 \<noteq> 0 \<longleftrightarrow> is_ref t" and "length (expand_token out t) \<le> rawsize"
  shows "pglz_item src rawsize ctrl k (sp, out) = Ok (sp + length (enc_token t), expand_token out t)"
proof (cases t)
  case (Lit b)
  then have "src ! sp = b" using assms(1) by (simp add: nth_via_drop)
  with Lit assms(3) show ?thesis by (simp add: pglz_item_def)
next
  case (Ref off len)
  have b: "1 \<le> off" "off \<le> 4095" "off \<le> length out" "3 \<le> len" "len \<le> 273" "length out + len \<le> rawsize"
    using assms(2,4) Ref by auto
  have h: "off div 256 < 16" using b(2) by simp
  show ?thesis
  proof (cases "len < 18")
    case True
    let ?a = "word_of_nat (off div 256 * 16 + (len - 3)) :: u8"
    have d: "sp + 1 < length src" "src ! sp = ?a" "src ! (sp + 1) = word_of_nat off"
      using drop_nth2 [of sp src ?a "word_of_nat off" rest] assms(1) Ref True by auto
    have u: "unat ?a = off div 256 * 16 + (len - 3)" using h True by (intro unat_u8) linarith
    have "unat (?a AND 0x0F) = len - 3" "unat (?a AND 0xF0) = off div 256 * 16"
      unfolding low_nibble high_nibble u using True b mod_mult_self3 [of "off div 256" 16 "len - 3"]
        div_mult_self3 [of 16 "off div 256" "len - 3"] by (simp_all del: Nat.add_diff_assoc)
    then show ?thesis
      using Ref True b d assms(3) by (simp add: pglz_item_def Let_def ref_off pglz_copy_in del: of_nat_add of_nat_mult)
  next
    case False
    let ?a = "word_of_nat (off div 256 * 16 + 15) :: u8"
    have dr: "drop sp src = ?a # word_of_nat off # word_of_nat (len - 18) # rest"
      using assms(1) Ref False by simp
    then have d: "sp + 1 < length src" "src ! sp = ?a" "src ! (sp + 1) = word_of_nat off"
      using drop_nth2 [OF dr] by auto
    have "drop (sp + 1) src = word_of_nat off # word_of_nat (len - 18) # rest"
      using dr by (metis Suc_eq_plus1 drop_Suc tl_drop list.sel(3))
    then have d2: "sp + 2 < length src" "src ! (sp + 2) = word_of_nat (len - 18)"
      using drop_nth2 by fastforce+
    have u: "unat ?a = off div 256 * 16 + 15" using h by (intro unat_u8) linarith
    have "unat (?a AND 0x0F) = 15" "unat (?a AND 0xF0) = off div 256 * 16"
      unfolding low_nibble high_nibble u by simp_all
    moreover have "18 + unat (word_of_nat (len - 18) :: u8) = len"
      using False b by (subst unat_u8) auto
    ultimately show ?thesis
      using Ref False b d d2 assms(3) by (simp add: pglz_item_def Let_def ref_off pglz_copy_in del: of_nat_add of_nat_mult)
  qed
qed

lemma pglz_items_tokens:
  assumes "tokens_ok out ts" and "drop sp src = concat (map enc_token ts) @ rest"
    and "k + length ts = 8 \<or> k + length ts < 8 \<and> rest = []"
    and "\<And>i. i < length ts \<Longrightarrow> ctrl AND push_bit (k + i) 1 \<noteq> 0 \<longleftrightarrow> is_ref (ts ! i)"
    and "length (foldl expand_token out ts) \<le> rawsize"
  shows "pglz_items src rawsize ctrl [k..<8] (sp, out) =
    Ok (sp + length (concat (map enc_token ts)), foldl expand_token out ts)"
  using assms
proof (induction ts arbitrary: out sp k)
  case Nil
  then show ?case by (cases "k < 8") (auto simp: upt_conv_Cons)
next
  case (Cons t ts)
  have len: "length (expand_token out t) \<le> length (foldl expand_token (expand_token out t) ts)"
    using Cons.prems(1)
  proof (induction ts arbitrary: t out)
    case (Cons u us)
    have "length (expand_token out t) \<le> length (expand_token (expand_token out t) u)"
      using Cons.prems length_expand_token [of "expand_token out t" u] by simp
    also have "\<dots> \<le> length (foldl expand_token (expand_token (expand_token out t) u) us)"
      using Cons.IH [of "expand_token out t" u] Cons.prems by simp
    finally show ?case by simp
  qed simp
  have item: "pglz_item src rawsize ctrl k (sp, out) = Ok (sp + length (enc_token t), expand_token out t)"
    using Cons.prems(1,2,5) Cons.prems(4) [of 0] len
    by (intro pglz_item_token [where rest = "concat (map enc_token ts) @ rest"]) auto
  have ne: "enc_token t \<noteq> []" by (cases t) auto
  have k: "k < 8" using Cons.prems(3) by auto
  have "sp < length src"
    using Cons.prems(2) ne by (metis append_is_Nil_conv concat.simps(2) drop_all list.simps(9) not_less)
  moreover have "length out < rawsize"
    using Cons.prems(1,5) len length_expand_token [of out t] by simp
  moreover have "drop (sp + length (enc_token t)) src = concat (map enc_token ts) @ rest"
    using Cons.prems(2) by (intro drop_past) simp
  then have "pglz_items src rawsize ctrl [Suc k..<8] (sp + length (enc_token t), expand_token out t) =
    Ok (sp + length (enc_token t) + length (concat (map enc_token ts)), foldl expand_token (expand_token out t) ts)"
    using Cons.prems(1,3,5) Cons.prems(4) [of "Suc i" for i] by (intro Cons.IH) auto
  ultimately show ?case
    using k item by (simp add: upt_conv_Cons)
qed

lemma tokens_ok_append: "tokens_ok out (ts @ us) \<longleftrightarrow> tokens_ok out ts \<and> tokens_ok (foldl expand_token out ts) us"
  by (induction ts arbitrary: out) auto

lemma foldl_expand_mono: "tokens_ok out ts \<Longrightarrow> length out + length ts \<le> length (foldl expand_token out ts)"
proof (induction ts arbitrary: out)
  case (Cons t ts)
  then show ?case using length_expand_token [of out t] by fastforce
qed simp

lemma pglz_loop_encode:
  assumes "tokens_ok out ts" and "drop sp src = pglz_encode ts" and "sp \<le> length src"
    and "rawsize = length (foldl expand_token out ts)"
  shows "pglz_loop src rawsize (sp, out) = Ok (length src, foldl expand_token out ts)"
  using assms
proof (induction ts arbitrary: sp out rule: pglz_encode.induct)
  case (1 ts)
  show ?case
  proof (cases "ts = []")
    case True
    with 1 show ?thesis by (simp add: pglz_loop.simps pglz_encode.simps)
  next
    case False
    let ?now = "take 8 ts" and ?later = "drop 8 ts"
    let ?body = "concat (map enc_token ?now)" and ?out = "foldl expand_token out ?now"
    have enc: "drop sp src = ctrl_byte ?now # ?body @ pglz_encode ?later"
      using 1(3) False by (subst (asm) pglz_encode.simps) simp
    then have sp: "sp < length src" "src ! sp = ctrl_byte ?now"
      by (auto simp: nth_via_drop not_less [symmetric] dest: arg_cong [where f = length])
    have d1: "drop (Suc sp) src = ?body @ pglz_encode ?later"
      using enc by (metis drop_Suc tl_drop list.sel(3))
    have ok: "tokens_ok out ?now" "tokens_ok ?out ?later"
      using 1(2) tokens_ok_append [of out ?now ?later] by simp_all
    have fold: "foldl expand_token out ts = foldl expand_token ?out ?later"
      by (metis append_take_drop_id foldl_append)
    have items: "pglz_items src rawsize (src ! sp) [0..<8] (sp + 1, out) =
        Ok (sp + 1 + length ?body, ?out)"
    proof (rule pglz_items_tokens [OF ok(1)])
      show "drop (sp + 1) src = ?body @ pglz_encode ?later" using d1 by simp
      show "0 + length ?now = 8 \<or> 0 + length ?now < 8 \<and> pglz_encode ?later = []"
        by (auto simp: pglz_encode.simps)
      show "length ?out \<le> rawsize" using foldl_expand_mono [OF ok(2)] 1(5) fold by simp
      show "(src ! sp AND push_bit (0 + i) 1 \<noteq> 0) = is_ref (?now ! i)" if "i < length ?now" for i
        using ctrl_byte_bit [of i ?now] that unfolding sp(2) by (simp del: push_bit_of_1)
    qed
    have d2: "drop (sp + 1 + length ?body) src = pglz_encode ?later"
      using d1 by (intro drop_past) simp
    have le: "sp + 1 + length ?body \<le> length src"
      using arg_cong [OF enc, of length] sp(1) by simp
    have "length out < rawsize"
      using foldl_expand_mono [OF 1(2)] False 1(5) by (cases ts) auto
    then show ?thesis
      using sp(1) items 1(1) [OF False ok(2) d2 le] 1(5) fold by (subst pglz_loop.simps) simp
  qed
qed

section \<open>Properties\<close>

text \<open>
  C12 (roundtrip): PGLZ decompression inverts the format. For every token stream whose
  back-references have an offset in 1..4095 that does not reach before the output and a length in
  3..273 (overlapping copies included), decoding the encoded stream with the exact raw size
  returns the expansion of the tokens.
\<close>
theorem pglz_roundtrip:
  assumes "tokens_ok [] ts"
  shows "pglz_decompress (pglz_encode ts) (length (expand ts)) = Ok (expand ts)"
  using pglz_loop_encode [OF assms, of 0 "pglz_encode ts"]
  by (simp add: pglz_decompress_def expand_def)

theorem pglz_roundtrip_witness:
  "pglz_decompress (pglz_encode [Lit 97, Lit 98, Ref 2 20]) 22 = Ok (expand [Lit 97, Lit 98, Ref 2 20])"
  using pglz_roundtrip [of "[Lit 97, Lit 98, Ref 2 20]"] by (simp add: expand_def)

end
