(* ===== verification/Toast.thy ===== *)
theory Toast
  imports Heaprec Compression "HOL-Library.AList" "HOL-Library.Multiset"
begin

text \<open>
  Variable-length datums (\<^verbatim>\<open>src/wal/heap.rs\<close>): the toast chunk cache, the varlena decoder
  with its short, plain, inline-compressed and out-of-line forms, and the decoding of a toast
  table's own rows. The hash map of the cache is an association list, the ordered map of the chunks
  of a value a sorted one keyed by the signed chunk number.
\<close>

section \<open>The chunk cache\<close>

record ToastCache =
  vals :: "(u32 \<times> (u32 \<times> (int \<times> bytes) list)) list"

definition toast_default :: ToastCache where
  "toast_default = \<lparr>vals = []\<rparr>"

definition add_chunk :: "u32 \<Rightarrow> u32 \<Rightarrow> i32 \<Rightarrow> bytes \<Rightarrow> ToastCache \<Rightarrow> ToastCache" where
  "add_chunk xid valueid seq data t =
     (let (owner, chunks) = (case map_of (vals t) valueid of Some e \<Rightarrow> e | None \<Rightarrow> (xid, []))
      in t\<lparr>vals := AList.update valueid (owner, bt_insert (sint seq) data chunks) (vals t)\<rparr>)"

definition gc_xid :: "u32 \<Rightarrow> ToastCache \<Rightarrow> ToastCache" where
  "gc_xid xid t = t\<lparr>vals := filter (\<lambda>(_, owner, _). owner \<noteq> xid) (vals t)\<rparr>"

definition toast_len :: "ToastCache \<Rightarrow> nat" where
  "toast_len t = length (vals t)"

definition toast_contains :: "ToastCache \<Rightarrow> u32 \<Rightarrow> bool" where
  "toast_contains t valueid \<longleftrightarrow> map_of (vals t) valueid \<noteq> None"

text \<open>The loop over the chunks: chunk \<open>i\<close> must be numbered \<^verbatim>\<open>i as i32\<close>.\<close>

fun join_chunks :: "nat \<Rightarrow> (int \<times> bytes) list \<Rightarrow> bytes result" where
  "join_chunks i [] = Ok []"
| "join_chunks i ((seq, chunk) # cs) =
     (if seq \<noteq> sint (word_of_nat i :: i32) then Err (Bail ''toast value: missing chunk'')
      else rbind (join_chunks (Suc i) cs) (\<lambda>buf. Ok (chunk @ buf)))"

text \<open>
  \<^verbatim>\<open>rawsize as usize - 4\<close>: a negative \<open>rawsize\<close> sign-extends to a large \<open>usize\<close>, so only
  0 to 3 underflow.
\<close>

definition raw_data_size :: "i32 \<Rightarrow> nat result" where
  "raw_data_size rawsize =
     (let u = unat (scast rawsize :: u64)
      in if u < 4 then Err (Panic ''attempt to subtract with overflow'') else Ok (u - 4))"

definition toast_resolve :: "decompressor \<Rightarrow> ToastCache \<Rightarrow> u32 \<Rightarrow> i32 \<Rightarrow> u32 \<Rightarrow> bytes result" where
  "toast_resolve lz4 t valueid rawsize extinfo =
     rbind (ok_or (map_of (vals t) valueid) (Bail ''toast value has no buffered chunks'')) (\<lambda>(_, chunks).
     let extsize = unat (extinfo AND 0x3FFFFFFF) in
     rbind (join_chunks 0 chunks) (\<lambda>buf.
     if length buf \<noteq> extsize then Err (Bail ''toast value: unexpected reassembled size'')
     else rbind (raw_data_size rawsize) (\<lambda>raw_data.
       if length buf = raw_data then Ok buf
       else rbind (ok_or (get_range buf 4 (length buf)) (Bail ''toast value: too short for a compression header''))
              (\<lambda>payload. decompress_datum lz4 (drop_bit 30 extinfo) payload raw_data))))"

section \<open>Varlena datums\<close>

definition align_to :: "nat \<Rightarrow> nat \<Rightarrow> nat" where
  "align_to off align = align_up off align"

text \<open>The out-of-line pointer: 18 unaligned bytes.\<close>

definition decode_external :: "decompressor \<Rightarrow> bytes \<Rightarrow> nat \<Rightarrow> ToastCache \<Rightarrow> (bytes option \<times> nat) result" where
  "decode_external lz4 data off toast =
     rbind (ok_or (get data (off + 1)) (Bail ''truncated toast pointer'')) (\<lambda>tag.
     if tag \<noteq> 18 then Err (Bail ''unsupported varatt tag'')
     else rbind (ok_or (get_range data (off + 2) (off + 18)) (Bail ''truncated varatt_external'')) (\<lambda>s.
       let rawsize = from_le (take 4 s) :: i32;
           extinfo = from_le (take 4 (drop 4 s)) :: u32;
           valueid = from_le (take 4 (drop 8 s)) :: u32
       in if \<not> toast_contains toast valueid then Ok (None, off + 18)
          else rbind (toast_resolve lz4 toast valueid rawsize extinfo) (\<lambda>v. Ok (Some v, off + 18))))"

text \<open>The 4-byte header form, plain or inline-compressed.\<close>

definition decode_long :: "decompressor \<Rightarrow> bytes \<Rightarrow> nat \<Rightarrow> (bytes option \<times> nat) result" where
  "decode_long lz4 data off0 =
     (let off = align_to off0 4 in
      rbind (ok_or (get_range data off (off + 4)) (Bail ''truncated varlena header'')) (\<lambda>hdr_bytes.
      let hdr = from_le hdr_bytes :: u32; total = unat (drop_bit 2 hdr) in
      if total < 4 then Err (Bail ''corrupt varlena length'')
      else if hdr AND 3 = 2 then
        rbind (ok_or (get_range data (off + 4) (off + 8)) (Bail ''truncated compressed varlena'')) (\<lambda>tcinfo_bytes.
        let tcinfo = from_le tcinfo_bytes :: u32 in
        rbind (ok_or (get_range data (off + 8) (off + total)) (Bail ''truncated compressed varlena body'')) (\<lambda>payload.
        rbind (decompress_datum lz4 (drop_bit 30 tcinfo) payload (unat (tcinfo AND 0x3FFFFFFF))) (\<lambda>out.
          Ok (Some out, off + total))))
      else
        rbind (ok_or (get_range data (off + 4) (off + total)) (Bail ''truncated varlena body'')) (\<lambda>payload.
          Ok (Some payload, off + total))))"

definition decode_varlena :: "decompressor \<Rightarrow> bytes \<Rightarrow> nat \<Rightarrow> ToastCache \<Rightarrow> (bytes option \<times> nat) result" where
  "decode_varlena lz4 data off toast =
     rbind (ok_or (get data off) (Bail ''truncated varlena'')) (\<lambda>first.
     if first = 1 then decode_external lz4 data off toast
     else if first AND 1 = 1 then
       let total = unat (drop_bit 1 first) in
       if total = 0 then Err (Bail ''corrupt short varlena'')
       else rbind (ok_or (get_range data (off + 1) (off + total)) (Bail ''truncated short varlena'')) (\<lambda>payload.
         Ok (Some payload, off + total))
     else decode_long lz4 data off)"

section \<open>Toast table rows\<close>

definition decode_toast_chunk :: "decompressor \<Rightarrow> bytes \<Rightarrow> nat \<Rightarrow> (u32 \<times> i32 \<times> bytes) result" where
  "decode_toast_chunk lz4 payload t_hoff =
     rbind (bits_len t_hoff) (\<lambda>n.
     rbind (ok_or (get_range payload n (length payload)) (Bail ''toast tuple shorter than its null bitmap'')) (\<lambda>data.
     rbind (ok_or (get_range data 0 4) (Bail ''truncated toast chunk_id'')) (\<lambda>valueid_bytes.
     rbind (ok_or (get_range data 4 8) (Bail ''truncated toast chunk_seq'')) (\<lambda>seq_bytes.
     rbind (decode_varlena lz4 data 8 toast_default) (\<lambda>(b, _).
     rbind (ok_or b (Bail ''toast chunk_data is itself a toast pointer'')) (\<lambda>bs.
       Ok (from_le valueid_bytes, from_le seq_bytes, bs)))))))"

definition decode_toast_chunk_from_wal :: "decompressor \<Rightarrow> bytes \<Rightarrow> HeapFmt \<Rightarrow> (u32 \<times> i32 \<times> bytes) result" where
  "decode_toast_chunk_from_wal lz4 block_data fmt =
     rbind (wal_heap_header block_data fmt) (\<lambda>(_, _, t_hoff, hdr_len).
       decode_toast_chunk lz4 (drop hdr_len block_data) t_hoff)"

definition decode_toast_chunk_from_page :: "decompressor \<Rightarrow> bytes \<Rightarrow> u16 \<Rightarrow> (u32 \<times> i32 \<times> bytes) result" where
  "decode_toast_chunk_from_page lz4 page offnum =
     rbind (tuple_on_page page offnum) (\<lambda>(payload, _, _, t_hoff). decode_toast_chunk lz4 payload t_hoff)"

section \<open>Reassembly\<close>

text \<open>The chunks the cache holds for a value.\<close>

definition chunks_of :: "ToastCache \<Rightarrow> u32 \<Rightarrow> (int \<times> bytes) list" where
  "chunks_of t v = (case map_of (vals t) v of Some (_, cs) \<Rightarrow> cs | None \<Rightarrow> [])"

lemma chunks_of_add:
  "chunks_of (add_chunk xid v seq d t) w =
     (if v = w then bt_insert (sint seq) d (chunks_of t v) else chunks_of t w)"
  by (auto simp: chunks_of_def add_chunk_def update_conv' split: option.splits prod.splits)

text \<open>A stream of chunk inserts: transaction, value, chunk number, bytes.\<close>

type_synonym chunk_event = "u32 \<times> u32 \<times> i32 \<times> bytes"

fun buffer_chunk :: "chunk_event \<Rightarrow> ToastCache \<Rightarrow> ToastCache" where
  "buffer_chunk (xid, v, seq, d) t = add_chunk xid v seq d t"

definition value_chunks :: "u32 \<Rightarrow> chunk_event list \<Rightarrow> (i32 \<times> bytes) list" where
  "value_chunks v es = map (snd \<circ> snd) (filter (\<lambda>e. fst (snd e) = v) es)"

lemma buffered_chunks:
  assumes "distinct (map fst (value_chunks v es))"
  shows "sorted (map fst (chunks_of (fold buffer_chunk es toast_default) v)) \<and>
    distinct (map fst (chunks_of (fold buffer_chunk es toast_default) v)) \<and>
    set (chunks_of (fold buffer_chunk es toast_default) v) = (\<lambda>(seq, d). (sint seq, d)) ` set (value_chunks v es)"
  using assms
proof (induction es rule: rev_induct)
  case Nil
  then show ?case by (simp add: chunks_of_def toast_default_def value_chunks_def)
next
  case (snoc e es)
  obtain xid w seq d where e: "e = (xid, w, seq, d)" by (cases e)
  show ?case
  proof (cases "w = v")
    case False
    then show ?thesis using snoc by (simp add: e chunks_of_add value_chunks_def)
  next
    case True
    let ?m = "chunks_of (fold buffer_chunk es toast_default) v"
    from snoc.prems True have dist: "distinct (map fst (value_chunks v es))"
      and new: "seq \<notin> fst ` set (value_chunks v es)"
      by (simp_all add: value_chunks_def e image_comp)
    note IH = snoc.IH [OF dist]
    have "fst ` set ?m = sint ` (fst ` set (value_chunks v es))"
      using IH by (simp add: image_image split_def)
    then have "sint seq \<notin> fst ` set ?m"
      using new by (auto dest: signed_word_eqI)
    then have "set (bt_insert (sint seq) d ?m) = insert (sint seq, d) (set ?m)"
      using IH by (intro bt_insert_new_set) auto
    moreover have "sorted (map fst (bt_insert (sint seq) d ?m)) \<and> distinct (map fst (bt_insert (sint seq) d ?m))"
      using IH by (intro bt_insert_sorted) simp
    ultimately show ?thesis
      using IH True by (simp add: e chunks_of_add value_chunks_def)
  qed
qed

lemma join_numbered:
  "i + length ds \<le> 2 ^ 31 \<Longrightarrow> join_chunks i (zip (map int [i..<i + length ds]) ds) = Ok (concat ds)"
proof (induction ds arbitrary: i)
  case (Cons d ds)
  have "sint (word_of_nat i :: i32) = int i"
    using Cons.prems by (simp add: signed_of_nat signed_take_bit_int_eq_self)
  then show ?case
    using Cons.IH [of "Suc i"] Cons.prems by (simp add: upt_conv_Cons del: upt_Suc)
qed simp

lemma buffered_in_order:
  assumes "mset (value_chunks v es) = mset (zip (map word_of_nat [0..<length ds]) ds)" and "length ds \<le> 2 ^ 31"
  shows "chunks_of (fold buffer_chunk es toast_default) v = zip (map int [0..<length ds]) ds"
proof -
  let ?n = "length ds"
  have s: "sint (word_of_nat i :: i32) = int i" if "i < ?n" for i
    using that assms(2) by (simp add: signed_of_nat signed_take_bit_int_eq_self)
  have "inj_on (word_of_nat :: nat \<Rightarrow> i32) {0..<?n}"
    by (rule inj_onI) (metis s atLeastLessThan_iff of_nat_eq_iff)
  then have d: "distinct (map fst (zip (map (word_of_nat :: nat \<Rightarrow> i32) [0..<?n]) ds))"
    by (simp add: distinct_map)
  have "mset (map fst (value_chunks v es)) = mset (map fst (zip (map (word_of_nat :: nat \<Rightarrow> i32) [0..<?n]) ds))"
    using assms(1) by (simp only: mset_map)
  with d have "distinct (map fst (value_chunks v es))" by (metis mset_eq_imp_distinct_iff)
  note B = buffered_chunks [OF this]
  have "set (value_chunks v es) = set (zip (map word_of_nat [0..<?n]) ds)"
    using assms(1) by (metis set_mset_mset)
  moreover have "map (\<lambda>(seq, d). (sint seq, d)) (zip (map (word_of_nat :: nat \<Rightarrow> i32) [0..<?n]) ds) =
      zip (map (\<lambda>i. sint (word_of_nat i :: i32)) [0..<?n]) ds"
    by (simp add: zip_map1 split_def comp_def)
  moreover have "map (\<lambda>i. sint (word_of_nat i :: i32)) [0..<?n] = map int [0..<?n]"
    using s by simp
  ultimately have "(\<lambda>(seq, d). (sint seq, d)) ` set (value_chunks v es) = set (zip (map int [0..<?n]) ds)"
    by (metis list.set_map)
  with B show ?thesis
    by (intro bt_unique) (auto simp: sorted_map distinct_map)
qed


text \<open>
  C16 (roundtrip): toasted values reassemble. When the chunks of a value, numbered from zero, have
  been buffered in any order and interleaved with the chunks of other values and transactions,
  resolving its pointer gives the concatenation of the chunks if the value is stored plain, and the
  decompression of everything after the 4-byte compression header if it is stored compressed.
\<close>
theorem toast_reassembly:
  assumes chunks: "mset (value_chunks v es) = mset (zip (map word_of_nat [0..<length ds]) ds)"
    and "ds \<noteq> []" and "length ds \<le> 2 ^ 31"
    and ext: "unat (extinfo AND 0x3FFFFFFF) = length (concat ds)"
    and raw: "sint rawsize = int raw + 4"
  shows "toast_contains (fold buffer_chunk es toast_default) v \<and>
    toast_resolve lz4 (fold buffer_chunk es toast_default) v rawsize extinfo =
      (if raw = length (concat ds) then Ok (concat ds)
       else if length (concat ds) < 4 then Err (Bail ''toast value: too short for a compression header'')
       else decompress_datum lz4 (drop_bit 30 extinfo) (drop 4 (concat ds)) raw)"
proof -
  let ?t = "fold buffer_chunk es toast_default"
  have c: "chunks_of ?t v = zip (map int [0..<length ds]) ds"
    using buffered_in_order [OF chunks] assms(3) .
  then have "chunks_of ?t v \<noteq> []" using \<open>ds \<noteq> []\<close> by (cases ds) (simp_all add: upt_conv_Cons del: upt_Suc)
  then obtain owner where m: "map_of (vals ?t) v = Some (owner, zip (map int [0..<length ds]) ds)"
    using c by (auto simp: chunks_of_def split: option.splits)
  have "unat (scast rawsize :: u64) = raw + 4"
  proof -
    have "sint rawsize = int (raw + 4)" using raw by simp
    then have "(scast rawsize :: u64) = word_of_nat (raw + 4)"
      by (simp only: scast_eq of_int_of_nat_eq)
    moreover have "raw + 4 < 2 ^ 64" using sint_lt [of rawsize] raw by simp
    ultimately show ?thesis by (simp only: unat_of_nat) simp
  qed
  then have "raw_data_size rawsize = Ok raw"
    by (simp add: raw_data_size_def)
  with m ext join_numbered [of 0 ds] assms(3) show ?thesis
    by (auto simp: toast_contains_def toast_resolve_def Let_def get_range_def)
qed

theorem toast_reassembly_witness:
  "toast_resolve (\<lambda>_ _. None) (fold buffer_chunk
      [(7, 100, 1, [3]), (7, 200, 0, [9, 9]), (7, 100, 0, [1, 2])] toast_default) 100 7 3 = Ok [1, 2, 3]"
  using toast_reassembly [of 100 "[(7, 100, 1, [3]), (7, 200, 0, [9, 9]), (7, 100, 0, [1, 2])]"
      "[[1, 2], [3]]" 3 7 3 "\<lambda>_ _. None"]
  by (simp add: value_chunks_def upt_rec)

end
