(* ===== verification/Schema.thy ===== *)
theory Schema
  imports Prelude
begin

text \<open>
  \<^verbatim>\<open>src/schema.rs\<close> and the value types of \<^verbatim>\<open>src/wal/heap.rs\<close>: the column
  types the transcoder supports, table descriptors, decoded rows, and how a descriptor is built
  from the catalog rows a SQL connection returns (the rows are the argument of the model; the
  connection itself is I/O).
\<close>

section \<open>Types and values\<close>

datatype PgType = Bool | Int2 | Int4 | Int8 | Float4 | Float8 | Text | Bytea | Uuid | Numeric
  | Jsonb | Date | Timestamp | TimestampTz

definition from_oid :: "u32 \<Rightarrow> PgType result" where
  "from_oid oid =
     (if oid = 16 then Ok Bool
      else if oid = 21 then Ok Int2
      else if oid = 23 then Ok Int4
      else if oid = 20 then Ok Int8
      else if oid = 700 then Ok Float4
      else if oid = 701 then Ok Float8
      else if oid = 25 \<or> oid = 1043 \<or> oid = 1042 then Ok Text
      else if oid = 114 \<or> oid = 142 then Ok Text
      else if oid = 17 then Ok Bytea
      else if oid = 2950 then Ok Uuid
      else if oid = 1700 then Ok Numeric
      else if oid = 3802 then Ok Jsonb
      else if oid = 1082 then Ok Date
      else if oid = 1114 then Ok Timestamp
      else if oid = 1184 then Ok TimestampTz
      else Err (Bail ''unsupported column type oid''))"

text \<open>Floats are carried as their bit patterns; a text is its UTF-8 bytes as characters.\<close>

datatype Value = VBool bool | VI16 i16 | VI32 i32 | VI64 i64 | VF32 u32 | VF64 u64
  | VText string | VBytes bytes

type_synonym Row = "Value option list"

record Col =
  col_name :: string
  col_ty :: PgType

datatype PhysCol = Live Col | Dropped (attlen: i16) (attalign: nat)

record TableDesc =
  td_name :: string
  td_oid :: u32
  db_oid :: u32
  rel_node :: u32
  toast_rel_node :: "u32 option"
  cols :: "Col list"
  phys :: "PhysCol list"
  has_fast_defaults :: bool
  pk :: "string list"

section \<open>Building a descriptor from catalog rows\<close>

text \<open>A row of the \<^verbatim>\<open>pg_attribute\<close> query of \<^verbatim>\<open>discover\<close>.\<close>

record AttrRow =
  ar_name :: string
  ar_typid :: u32
  ar_dropped :: bool
  ar_len :: i32
  ar_align :: string
  ar_missing :: bool

definition align_of_code :: "string \<Rightarrow> nat" where
  "align_of_code a = (if a = ''c'' then 1 else if a = ''s'' then 2 else if a = ''i'' then 4 else 8)"

fun discover_attrs ::
  "AttrRow list \<Rightarrow> Col list \<Rightarrow> PhysCol list \<Rightarrow> bool \<Rightarrow> (Col list \<times> PhysCol list \<times> bool) result" where
  "discover_attrs [] cs ps fd = Ok (cs, ps, fd)"
| "discover_attrs (a # as) cs ps fd =
     (if ar_dropped a
      then discover_attrs as cs (ps @ [Dropped (ucast (ar_len a)) (align_of_code (ar_align a))]) fd
      else rbind (from_oid (ar_typid a)) (\<lambda>ty.
        let col = \<lparr>col_name = ar_name a, col_ty = ty\<rparr> in
        discover_attrs as (cs @ [col]) (ps @ [Live col]) (fd \<or> ar_missing a)))"

text \<open>The \<^verbatim>\<open>pg_class\<close> row: filenode, database, toast filenode and oid.\<close>

record ClassSqlRow =
  cr_filenode :: u32
  cr_db :: u32
  cr_toast :: "u32 option"
  cr_oid :: u32

definition discover ::
  "string \<Rightarrow> ClassSqlRow option \<Rightarrow> string list \<Rightarrow> AttrRow list \<Rightarrow> TableDesc result" where
  "discover table class_row pk_rows attrs =
     rbind (ok_or class_row (Bail ''table not found'')) (\<lambda>r.
     rbind (discover_attrs attrs [] [] False) (\<lambda>(cs, ps, fd).
       if cs = [] then Err (Bail ''table has no columns?'')
       else Ok \<lparr>td_name = table, td_oid = cr_oid r, db_oid = cr_db r, rel_node = cr_filenode r,
                toast_rel_node = cr_toast r, cols = cs, phys = ps, has_fast_defaults = fd,
                pk = pk_rows\<rparr>))"

section \<open>Well-formed descriptors\<close>

text \<open>The logical columns are the live physical ones, in order.\<close>

fun live_cols :: "PhysCol list \<Rightarrow> Col list" where
  "live_cols [] = []"
| "live_cols (Live c # ps) = c # live_cols ps"
| "live_cols (Dropped l a # ps) = live_cols ps"

definition desc_wf :: "TableDesc \<Rightarrow> bool" where
  "desc_wf d \<longleftrightarrow> cols d = live_cols (phys d)"

lemma live_cols_append [simp]: "live_cols (ps @ qs) = live_cols ps @ live_cols qs"
  by (induction ps rule: live_cols.induct) auto

lemma discover_attrs_inv:
  "discover_attrs as cs ps fd = Ok (cs', ps', fd') \<Longrightarrow> cs = live_cols ps \<Longrightarrow>
   cs' = live_cols ps' \<and> length ps' = length ps + length as"
  by (induction as cs ps fd rule: discover_attrs.induct)
    (auto simp: result_simps Let_def split: if_splits)

lemma discover_attrs_fd:
  "discover_attrs as cs ps fd = Ok (cs', ps', fd') \<Longrightarrow>
   fd' \<longleftrightarrow> fd \<or> (\<exists>a \<in> set as. \<not> ar_dropped a \<and> ar_missing a)"
  by (induction as cs ps fd rule: discover_attrs.induct)
    (auto simp: result_simps Let_def split: if_splits)

end
