(* ===== verification/Numeric.thy ===== *)
theory Numeric
  imports Prelude
begin

text \<open>
  The \<^verbatim>\<open>numeric\<close> codec of \<^verbatim>\<open>src/wal/heap.rs\<close>: on-disk bytes and binary-COPY
  bytes to a decimal string, and a decimal string back to on-disk bytes. Weights and scales are
  mathematical integers: they come from 16-bit fields, so no 32-bit operation of the source can
  overflow on them. A \<^verbatim>\<open>String\<close> is the list of its UTF-8 bytes, written as characters.
\<close>

section \<open>Rendering digits\<close>

definition digit_char :: "nat \<Rightarrow> char" where
  "digit_char d = char_of (48 + d)"

text \<open>The closure \<^verbatim>\<open>digit_at\<close>: the decimal digit at an exponent.\<close>

definition digit_at :: "int \<Rightarrow> u16 list \<Rightarrow> int \<Rightarrow> nat" where
  "digit_at weight digits e =
     (let g = weight - e div 4 in
      if g < 0 \<or> nat g \<ge> length digits then 0
      else unat (digits ! nat g) div 10 ^ nat (e mod 4) mod 10)"

text \<open>The loop over the integer digits: leading zeros are not printed.\<close>

fun int_digits :: "(int \<Rightarrow> nat) \<Rightarrow> int list \<Rightarrow> bool \<Rightarrow> string \<Rightarrow> bool \<times> string" where
  "int_digits dig [] started s = (started, s)"
| "int_digits dig (e # es) started s =
     (let d = dig e; started' = (started \<or> d \<noteq> 0)
      in int_digits dig es started' (if started' then s @ [digit_char d] else s))"

definition numeric_digits_to_string :: "bool \<Rightarrow> int \<Rightarrow> int \<Rightarrow> u16 list \<Rightarrow> string" where
  "numeric_digits_to_string neg weight dscale digits =
     (let s0 = (if neg then ''-'' else []);
          hi = max (4 * weight + 3) 0;
          (started, s1) = int_digits (digit_at weight digits) (rev [0..hi]) False s0;
          s2 = (if started then s1 else s1 @ ''0'')
      in if dscale > 0
         then s2 @ ''.'' @ map (\<lambda>e. digit_char (digit_at weight digits e)) (rev [- dscale..-1])
         else s2)"

section \<open>The on-disk and the wire form\<close>

fun u16_digits :: "bytes \<Rightarrow> u16 list" where
  "u16_digits (a # b # bs) = from_le [a, b] # u16_digits bs"
| "u16_digits bs = []"

definition numeric_to_string :: "bytes \<Rightarrow> string result" where
  "numeric_to_string payload =
     (if length payload < 2 then Err (Bail ''numeric too short'')
      else
        let n_header = from_le (take 2 payload) :: u16; flagbits = n_header AND 0xC000 in
        if flagbits = 0xC000 then
          let k = n_header AND 0xF000 in
          if k = 0xC000 then Ok ''NaN''
          else if k = 0xD000 then Ok ''Infinity''
          else if k = 0xF000 then Ok ''-Infinity''
          else Err (Bail ''numeric: unknown special header'')
        else if flagbits = 0x8000 then
          let neg = n_header AND 0x2000 \<noteq> 0;
              dscale = uint (drop_bit 7 (n_header AND 0x1F80));
              raw_w = uint (n_header AND 0x003F);
              weight = (if n_header AND 0x0040 \<noteq> 0 then raw_w - 64 else raw_w)
          in Ok (numeric_digits_to_string neg weight dscale (u16_digits (drop 2 payload)))
        else if length payload < 4 then Err (Bail ''numeric long header truncated'')
        else
          let neg = (flagbits = 0x4000);
              dscale = uint (n_header AND 0x3FFF);
              weight = sint (from_le (take 2 (drop 2 payload)) :: i16)
          in Ok (numeric_digits_to_string neg weight dscale (u16_digits (drop 4 payload))))"

text \<open>\<open>n\<close> big-endian digits from the front of the remaining bytes.\<close>

fun be_digits :: "nat \<Rightarrow> bytes \<Rightarrow> u16 list result" where
  "be_digits 0 bs = Ok []"
| "be_digits (Suc n) bs =
     (if length bs < 2 then Err (Bail ''numeric binary digits truncated'')
      else rbind (be_digits n (drop 2 bs)) (\<lambda>ds. Ok (from_be (take 2 bs) # ds)))"

definition numeric_from_binary :: "bytes \<Rightarrow> string result" where
  "numeric_from_binary f =
     (if length f < 8 then Err (Bail ''numeric binary too short'')
      else
        let ndigits = nat (max (sint (from_be (take 2 f) :: i16)) 0);
            weight = sint (from_be (take 2 (drop 2 f)) :: i16);
            sign = from_be (take 2 (drop 4 f)) :: u16;
            dscale = sint (from_be (take 2 (drop 6 f)) :: i16)
        in if sign = 0xC000 then Ok ''NaN''
           else if sign = 0xD000 then Ok ''Infinity''
           else if sign = 0xF000 then Ok ''-Infinity''
           else rbind (be_digits ndigits (drop 8 f)) (\<lambda>digits.
             Ok (numeric_digits_to_string (sign = 0x4000) weight dscale digits)))"

section \<open>Parsing a decimal string\<close>

text \<open>
  \<^verbatim>\<open>str::trim\<close>: the UTF-8 encodings of the characters with the Unicode property
  \<^verbatim>\<open>White_Space\<close>.
\<close>

definition white_space :: "string list" where
  "white_space =
     map (\<lambda>n. [char_of n]) [9..<14] @ ['' ''] @
     map (map char_of)
       ([[0xC2, 0x85], [0xC2, 0xA0], [0xE1, 0x9A, 0x80], [0xE2, 0x80, 0xA8], [0xE2, 0x80, 0xA9],
         [0xE2, 0x80, 0xAF], [0xE2, 0x81, 0x9F], [0xE3, 0x80, 0x80 :: nat]] @
        map (\<lambda>n. [0xE2, 0x80, n]) [0x80..<0x8B])"

definition strip_one :: "string list \<Rightarrow> string \<Rightarrow> string option" where
  "strip_one pats s =
     map_option (\<lambda>p. drop (length p) s) (find (\<lambda>p. p \<noteq> [] \<and> take (length p) s = p) pats)"

lemma strip_one_length: "strip_one pats s = Some t \<Longrightarrow> length t < length s"
proof -
  assume "strip_one pats s = Some t"
  then obtain p where p: "p \<noteq> []" "take (length p) s = p" "t = drop (length p) s"
    by (auto simp: strip_one_def find_Some_iff)
  then have "s \<noteq> []" by auto
  with p show ?thesis by simp
qed

function strip_all :: "string list \<Rightarrow> string \<Rightarrow> string" where
  "strip_all pats s = (case strip_one pats s of None \<Rightarrow> s | Some t \<Rightarrow> strip_all pats t)"
  by pat_completeness auto
termination
  by (relation "measure (\<lambda>(pats, s). length s)") (auto dest: strip_one_length)

declare strip_all.simps [simp del]

definition trim :: "string \<Rightarrow> string" where
  "trim s = rev (strip_all (map rev white_space) (rev (strip_all white_space s)))"

definition to_ascii_lowercase :: "string \<Rightarrow> string" where
  "to_ascii_lowercase s =
     map (\<lambda>c. let n = of_char c :: nat in if 65 \<le> n \<and> n \<le> 90 then char_of (n + 32) else c) s"

definition is_ascii_digit :: "char \<Rightarrow> bool" where
  "is_ascii_digit c \<longleftrightarrow> (let n = of_char c :: nat in 48 \<le> n \<and> n \<le> 57)"

text \<open>\<^verbatim>\<open>split_once('.').unwrap_or((body, ""))\<close>.\<close>

fun split_point :: "string \<Rightarrow> string \<times> string" where
  "split_point [] = ([], [])"
| "split_point (c # cs) = (if c = CHR ''.'' then ([], cs) else (c # fst (split_point cs), snd (split_point cs)))"

definition char_digit :: "char \<Rightarrow> nat" where
  "char_digit c = of_char c - 48"

text \<open>Four decimal digits to one base-10000 digit; the value is below 10000, so it fits an \<open>i16\<close>.\<close>

definition group_value :: "string \<Rightarrow> nat" where
  "group_value cs = foldl (\<lambda>v c. v * 10 + char_digit c) 0 cs"

function groups4 :: "string \<Rightarrow> nat list" where
  "groups4 cs = (if cs = [] then [] else group_value (take 4 cs) # groups4 (drop 4 cs))"
  by pat_completeness auto
termination by (relation "measure length") auto

declare groups4.simps [simp del]

fun trim_front :: "nat list \<Rightarrow> int \<Rightarrow> nat list \<times> int" where
  "trim_front (d # e # ds) w = (if d = 0 then trim_front (e # ds) (w - 1) else (d # e # ds, w))"
| "trim_front ds w = (ds, w)"

function trim_back :: "nat list \<Rightarrow> nat list" where
  "trim_back ds = (if length ds > 1 \<and> last ds = 0 then trim_back (butlast ds) else ds)"
  by pat_completeness auto
termination by (relation "measure length") auto

declare trim_back.simps [simp del]

definition numeric_special :: "string \<Rightarrow> u16 option" where
  "numeric_special t =
     (let l = to_ascii_lowercase t in
      if l = ''nan'' then Some 0xC000
      else if l = ''infinity'' \<or> l = ''inf'' \<or> l = ''+infinity'' \<or> l = ''+inf'' then Some 0xD000
      else if l = ''-infinity'' \<or> l = ''-inf'' then Some 0xF000
      else None)"

text \<open>Sign and magnitude of a trimmed literal.\<close>

definition split_sign :: "string \<Rightarrow> bool \<times> string" where
  "split_sign t =
     (case t of
        c # r \<Rightarrow> if c = CHR ''-'' then (True, r) else if c = CHR ''+'' then (False, r) else (False, t)
      | [] \<Rightarrow> (False, t))"

definition numeric_encode :: "bool \<Rightarrow> string \<Rightarrow> string \<Rightarrow> bytes" where
  "numeric_encode neg int_str frac_str =
     (let dscale = length frac_str;
          int_pad = (4 - length int_str mod 4) mod 4;
          frac_pad = (4 - length frac_str mod 4) mod 4;
          combined = replicate int_pad CHR ''0'' @ int_str @ frac_str @ replicate frac_pad CHR ''0'';
          padded_int_len = int_pad + length int_str;
          (ds1, weight1) = trim_front (groups4 combined) (int (padded_int_len div 4) - 1);
          ds2 = trim_back ds1;
          zero = list_all (\<lambda>d. d = 0) ds2;
          ds3 = (if zero then [] else ds2);
          weight = (if zero then 0 else weight1);
          neg' = (if zero then False else neg);
          n_sign_dscale = (if neg' then 0x4000 else 0) OR (word_of_nat dscale AND 0x3FFF) :: u16
      in to_le n_sign_dscale @ to_le (word_of_int weight :: i16) @
         concat (map (\<lambda>d. to_le (word_of_nat d :: i16)) ds3))"

definition numeric_from_string :: "string \<Rightarrow> bytes result" where
  "numeric_from_string s =
     (let t = trim s in
      case numeric_special t of
        Some h \<Rightarrow> Ok (to_le h)
      | None \<Rightarrow>
          (case split_sign t of (neg, body) \<Rightarrow>
           case split_point body of (int_str, frac_str) \<Rightarrow>
             if int_str = [] \<and> frac_str = [] \<or> \<not> list_all is_ascii_digit int_str \<or>
                \<not> list_all is_ascii_digit frac_str
             then Err (Bail ''invalid numeric literal'')
             else Ok (numeric_encode neg int_str frac_str)))"

section \<open>Digits of a decimal string\<close>

definition gdigit :: "int \<Rightarrow> nat list \<Rightarrow> int \<Rightarrow> nat" where
  "gdigit w ds e =
     (let g = w - e div 4 in
      if g < 0 \<or> nat g \<ge> length ds then 0 else ds ! nat g div 10 ^ nat (e mod 4) mod 10)"

lemma digit_at_gdigit: "\<forall>d \<in> set ds. d < 65536 \<Longrightarrow> digit_at w (map word_of_nat ds) e = gdigit w ds e"
  by (auto simp: digit_at_def gdigit_def Let_def unat_u16)

lemma gdigit_shift: "gdigit (w - 1) ds e = gdigit w (0 # ds) e"
proof (cases "w - e div 4 \<le> 0")
  case True
  then show ?thesis by (auto simp: gdigit_def Let_def)
next
  case False
  define n where "n = nat (w - e div 4 - 1)"
  with False have n: "w - e div 4 = 1 + int n" by simp
  then have n': "w - 1 - e div 4 = int n" by simp
  show ?thesis by (simp only: gdigit_def Let_def n n') (simp add: nat_add_distrib)
qed

lemma gdigit_trim_front: "trim_front ds w = (ds', w') \<Longrightarrow> gdigit w' ds' e = gdigit w ds e"
proof (induction ds w arbitrary: ds' w' rule: trim_front.induct)
  case (1 d x ds w)
  show ?case
  proof (cases "d = 0")
    case True
    then have "gdigit w' ds' e = gdigit (w - 1) (x # ds) e" using 1 by simp
    also have "\<dots> = gdigit w (d # x # ds) e"
      using True gdigit_shift by simp
    finally show ?thesis .
  next
    case False
    with 1 show ?thesis by simp
  qed
qed auto

lemma gdigit_trim_back: "gdigit w (trim_back ds) e = gdigit w ds e"
proof (induction ds rule: trim_back.induct)
  case (1 ds)
  show ?case
  proof (cases "length ds > 1 \<and> last ds = 0")
    case True
    then have "gdigit w (trim_back ds) e = gdigit w (butlast ds) e"
      using 1 by (subst trim_back.simps) simp
    also have "\<dots> = gdigit w ds e"
    proof -
      obtain xs where xs: "ds = xs @ [0]" using True by (metis append_butlast_last_id list.size(3) not_less_zero)
      define g where "g = w - e div 4"
      show ?thesis unfolding gdigit_def Let_def g_def [symmetric] xs
        by (cases "nat g < length xs") (auto simp: nth_append)
    qed
    finally show ?thesis .
  next
    case False
    then show ?thesis by (subst trim_back.simps) auto
  qed
qed

lemma gdigit_zero: "list_all (\<lambda>d. d = 0) ds \<Longrightarrow> gdigit w ds e = 0"
  by (auto simp: gdigit_def Let_def list_all_length)

lemma trim_front_weight:
  "trim_front ds w = (ds', w') \<Longrightarrow> ds \<noteq> [] \<Longrightarrow> w' \<le> w \<and> w - int (length ds) < w'"
  by (induction ds w arbitrary: ds' w' rule: trim_front.induct) (fastforce split: if_splits)+

lemma trim_front_set: "trim_front ds w = (ds', w') \<Longrightarrow> set ds' \<subseteq> set ds"
  by (induction ds w arbitrary: ds' w' rule: trim_front.induct) (fastforce split: if_splits)+

lemma trim_back_set: "set (trim_back ds) \<subseteq> set ds"
proof (induction ds rule: trim_back.induct)
  case (1 ds)
  then show ?case by (subst trim_back.simps) (auto dest: in_set_butlastD)
qed

lemma groups4_length: "4 dvd length cs \<Longrightarrow> length (groups4 cs) = length cs div 4"
proof (induction cs rule: groups4.induct)
  case (1 cs)
  show ?case
  proof (cases "cs = []")
    case False
    with 1(2) have "4 \<le> length cs" by (auto dest: dvd_imp_le)
    moreover from this have "length (groups4 (drop 4 cs)) = (length cs - 4) div 4"
      using 1(1) [OF False] 1(2) by (simp add: dvd_diff_nat)
    ultimately show ?thesis using False by (subst groups4.simps) (simp add: le_div_geq)
  qed (simp add: groups4.simps)
qed

lemma groups4_nth: "4 dvd length cs \<Longrightarrow> g < length cs div 4 \<Longrightarrow> groups4 cs ! g = group_value (take 4 (drop (4 * g) cs))"
proof (induction cs arbitrary: g rule: groups4.induct)
  case (1 cs)
  then have ne: "cs \<noteq> []" by auto
  show ?case
  proof (cases g)
    case 0
    with ne show ?thesis by (subst groups4.simps) simp
  next
    case (Suc h)
    have "4 \<le> length cs" using 1(2) ne by (auto dest: dvd_imp_le)
    then have "groups4 (drop 4 cs) ! h = group_value (take 4 (drop (4 * h) (drop 4 cs)))"
      using 1(1) [OF ne, of h] 1(2,3) Suc by (simp add: dvd_diff_nat le_div_geq)
    with Suc ne show ?thesis by (subst groups4.simps) (simp add: algebra_simps)
  qed
qed

lemma four: "length xs = 4 \<Longrightarrow> xs = [xs ! 0, xs ! 1, xs ! 2, xs ! 3]"
  by (auto simp: list_eq_iff_nth_eq numeral_eq_Suc nth_Cons' less_Suc_eq)

lemma char_digit_lt: "is_ascii_digit c \<Longrightarrow> char_digit c < 10"
  by (auto simp: is_ascii_digit_def char_digit_def Let_def)

lemma group_value_digit:
  assumes "length cs = 4" and "list_all is_ascii_digit cs" and "k < 4"
  shows "group_value cs div 10 ^ k mod 10 = char_digit (cs ! (3 - k))" and "group_value cs < 10000"
proof -
  have lt: "char_digit (cs ! i) < 10" if "i < 4" for i
    using assms(1,2) that by (auto simp: list_all_length char_digit_lt)
  obtain a b c d where abcd: "a = char_digit (cs ! 0)" "b = char_digit (cs ! Suc 0)" "c = char_digit (cs ! 2)"
    "d = char_digit (cs ! 3)" by blast
  have v: "group_value cs = 1000 * a + 100 * b + 10 * c + d"
    by (subst four [OF assms(1)]) (simp add: abcd group_value_def)
  have l: "a < 10" "b < 10" "c < 10" "d < 10" using lt abcd by simp_all
  then show "group_value cs < 10000" by (simp only: v)
  have "(1000 * a + 100 * b + 10 * c + d) div 100 = 10 * a + b"
    "(1000 * a + 100 * b + 10 * c + d) div 1000 = a" "(1000 * a + 100 * b + 10 * c + d) div 10 = 100 * a + 10 * b + c"
    using l by auto
  moreover have "k = 0 \<or> k = 1 \<or> k = 2 \<or> k = 3" using assms(3) by auto
  moreover have "(1000 * a + 100 * b + 10 * c + d) mod 10 = d" "(100 * a + 10 * b + c) mod 10 = c" "(10 * a + b) mod 10 = b"
    using l mod_mult_self2 [of d 10 "100 * a + 10 * b + c"] mod_mult_self2 [of c 10 "10 * a + b"]
    by (simp_all add: algebra_simps)
  ultimately show "group_value cs div 10 ^ k mod 10 = char_digit (cs ! (3 - k))"
    using l unfolding v by (auto simp flip: abcd)
qed

text \<open>The digit at an exponent of a padded decimal string whose point is after \<open>p\<close> characters.\<close>

definition cdigit :: "string \<Rightarrow> nat \<Rightarrow> int \<Rightarrow> nat" where
  "cdigit cs p e =
     (let i = int p - 1 - e in if i < 0 \<or> nat i \<ge> length cs then 0 else char_digit (cs ! nat i))"

lemma gdigit_groups4:
  assumes "4 dvd length cs" and "4 dvd p" and "list_all is_ascii_digit cs"
  shows "gdigit (int (p div 4) - 1) (groups4 cs) e = cdigit cs p e"
proof -
  define g where "g = int (p div 4) - 1 - e div 4"
  define k where "k = nat (e mod 4)"
  have k: "k < 4" "int k = e mod 4" by (auto simp: k_def nat_less_iff)
  have p: "int p = 4 * int (p div 4)" using assms(2) by auto
  have i: "int p - 1 - e = 4 * g + 3 - int k"
    unfolding g_def k(2) p by (simp add: algebra_simps)
  have L: "length cs = 4 * (length cs div 4)" using assms(1) by simp
  show ?thesis
  proof (cases "0 \<le> g \<and> nat g < length cs div 4")
    case True
    then have ng: "nat (4 * g + 3 - int k) = 4 * nat g + (3 - k)" "0 \<le> 4 * g + 3 - int k" using k(1) by auto
    have in_range: "4 * nat g + 4 \<le> length cs" using True L by linarith
    let ?c = "take 4 (drop (4 * nat g) cs)"
    have "length ?c = 4" "list_all is_ascii_digit ?c"
      using in_range assms(3) by (auto simp: list_all_length)
    from group_value_digit(1) [OF this k(1)]
    have "group_value ?c div 10 ^ k mod 10 = char_digit (cs ! (4 * nat g + (3 - k)))"
      using in_range k(1) by simp
    moreover have "gdigit (int (p div 4) - 1) (groups4 cs) e = group_value ?c div 10 ^ k mod 10"
      using True unfolding gdigit_def Let_def g_def [symmetric] k_def [symmetric]
      by (simp add: groups4_length groups4_nth assms(1))
    moreover have "cdigit cs p e = char_digit (cs ! (4 * nat g + (3 - k)))"
    proof -
      have "4 * nat g + (3 - k) < length cs" using in_range by linarith
      then show ?thesis using ng unfolding cdigit_def Let_def i by (simp del: Nat.add_diff_assoc)
    qed
    ultimately show ?thesis by simp
  next
    case False
    then have "gdigit (int (p div 4) - 1) (groups4 cs) e = 0"
      unfolding gdigit_def Let_def g_def [symmetric] by (auto simp: groups4_length assms(1))
    moreover have "int p - 1 - e < 0 \<or> nat (int p - 1 - e) \<ge> length cs"
      using False L k(1) unfolding i by linarith
    ultimately show ?thesis unfolding cdigit_def Let_def by auto
  qed
qed

lemma groups4_bound: "4 dvd length cs \<Longrightarrow> list_all is_ascii_digit cs \<Longrightarrow> d \<in> set (groups4 cs) \<Longrightarrow> d < 10000"
proof -
  assume a: "4 dvd length cs" "list_all is_ascii_digit cs" "d \<in> set (groups4 cs)"
  then obtain g where g: "g < length cs div 4" "d = groups4 cs ! g"
    by (metis groups4_length in_set_conv_nth)
  have "4 * g + 4 \<le> length cs" using g(1) a(1) by auto
  then have "length (take 4 (drop (4 * g) cs)) = 4" "list_all is_ascii_digit (take 4 (drop (4 * g) cs))"
    using a(2) by (auto simp: list_all_length)
  from group_value_digit(2) [OF this, of 0] g a show ?thesis by (simp add: groups4_nth)
qed

lemma int_digits_dropWhile:
  "int_digits dig es st s =
     (let zs = (if st then es else dropWhile (\<lambda>e. dig e = 0) es)
      in (st \<or> zs \<noteq> [], s @ map (\<lambda>e. digit_char (dig e)) zs))"
  by (induction es arbitrary: st s) (auto simp: Let_def)

lemma digit_char_digit: "is_ascii_digit c \<Longrightarrow> digit_char (char_digit c) = c"
  by (auto simp: is_ascii_digit_def char_digit_def digit_char_def Let_def)

lemma u16_digits_concat:
  "u16_digits (concat (map (\<lambda>d. to_le (word_of_nat d :: i16)) ds)) = map word_of_nat ds"
proof (induction ds)
  case (Cons d ds)
  have "\<exists>a b. to_le (word_of_nat d :: i16) = [a, b]"
    by (simp add: to_le_def le_bytes_2)
  then obtain a b where ab: "to_le (word_of_nat d :: i16) = [a, b]" by blast
  then have "from_le [a, b] = (word_of_nat d :: u16)" by (metis from_to_le_u16)
  with ab Cons show ?case by simp
qed simp


section \<open>Printing what was parsed\<close>

definition padded :: "string \<Rightarrow> string \<Rightarrow> string" where
  "padded i f = replicate ((4 - length i mod 4) mod 4) CHR ''0'' @ i @ f @ replicate ((4 - length f mod 4) mod 4) CHR ''0''"

definition padded_int :: "string \<Rightarrow> nat" where
  "padded_int i = (4 - length i mod 4) mod 4 + length i"

definition literal_ok :: "string \<Rightarrow> string \<Rightarrow> bool" where
  "literal_ok i f \<longleftrightarrow> list_all is_ascii_digit i \<and> list_all is_ascii_digit f \<and> (i \<noteq> [] \<or> f \<noteq> []) \<and>
     length i \<le> 131072 \<and> length f < 16384"

lemma pad4: "4 dvd ((4 - n mod 4) mod 4 + n)" for n :: nat
proof -
  have "n mod 4 < 4" by simp
  then consider "n mod 4 = 0" | "n mod 4 = 1" | "n mod 4 = 2" | "n mod 4 = 3" by linarith
  then show ?thesis by cases (simp_all add: dvd_eq_mod_eq_0 mod_Suc numeral_3_eq_3)
qed

lemma pad4_lt: "(4 - n mod 4) mod 4 < 4" for n :: nat
  by simp

lemma padded_props:
  assumes "literal_ok i f"
  shows "4 dvd length (padded i f)" and "4 dvd padded_int i" and "list_all is_ascii_digit (padded i f)"
    and "padded_int i \<le> length (padded i f)" and "padded i f \<noteq> []"
    and "length (padded i f) \<le> padded_int i + length f + 3"
proof -
  have z: "is_ascii_digit CHR ''0''" by (simp add: is_ascii_digit_def)
  have "length (padded i f) = padded_int i + ((4 - length f mod 4) mod 4 + length f)"
    by (simp add: padded_def padded_int_def)
  then show "4 dvd length (padded i f)" "padded_int i \<le> length (padded i f)"
    "length (padded i f) \<le> padded_int i + length f + 3"
    using pad4 [of "length i"] pad4 [of "length f"] pad4_lt [of "length f"] by (auto simp: padded_int_def)
  show "4 dvd padded_int i" using pad4 [of "length i"] by (simp add: padded_int_def)
  show "list_all is_ascii_digit (padded i f)" using assms z by (auto simp: padded_def literal_ok_def list_all_iff)
  show "padded i f \<noteq> []" using assms by (auto simp: padded_def literal_ok_def)
qed

lemma sint_i16: "- 32768 \<le> w \<Longrightarrow> w < 32768 \<Longrightarrow> sint (word_of_int w :: i16) = w"
  by (simp add: sint_sbintrunc' signed_take_bit_int_eq_self)

lemma u16_and_mask:
  assumes "n < 2 ^ k" and "k \<le> 16"
  shows "(word_of_nat n :: u16) AND mask k = word_of_nat n"
proof -
  have "n < 2 ^ 16" using assms power_increasing [of k 16 "2 :: nat"] by simp
  then have "take_bit k (word_of_nat n :: u16) = word_of_nat n"
    using assms(1) by (intro unsigned_word_eqI [where ?'a = nat])
      (simp add: unsigned_take_bit_eq unat_u16 take_bit_nat_eq_self)
  then show ?thesis by (simp only: take_bit_eq_mask)
qed

lemma dscale_header:
  fixes n :: nat
  assumes "n < 16384"
  shows "((if neg then 0x4000 else 0) OR (word_of_nat n AND 0x3FFF)) AND 0xC000 = (if neg then 0x4000 else (0 :: u16))"
    and "uint (((if neg then 0x4000 else 0) OR (word_of_nat n AND 0x3FFF)) AND (0x3FFF :: u16)) = int n"
proof -
  have n: "word_of_nat n AND 0x3FFF = (word_of_nat n :: u16)"
    using u16_and_mask [of n 14] assms by (simp add: mask_eq_exp_minus_1)
  have c: "word_of_nat n AND 0xC000 = (0 :: u16)"
  proof -
    have "word_of_nat n AND 0xC000 = (word_of_nat n AND (0x3FFF :: u16)) AND 0xC000" by (simp only: n)
    also have "\<dots> = 0" by (simp add: and.assoc)
    finally show ?thesis .
  qed
  show "((if neg then 0x4000 else 0) OR (word_of_nat n AND 0x3FFF)) AND 0xC000 = (if neg then 0x4000 else (0 :: u16))"
    unfolding n by (simp add: bit.conj_disj_distrib2 c)
  show "uint (((if neg then 0x4000 else 0) OR (word_of_nat n AND 0x3FFF)) AND (0x3FFF :: u16)) = int n"
    unfolding n using n assms by (simp add: bit.conj_disj_distrib2 unsigned_of_nat take_bit_nat_eq_self)
qed


lemma numeric_long_form:
  assumes "h AND 0xC000 = (if neg then 0x4000 else (0 :: u16))"
  shows "numeric_to_string (to_le h @ to_le (w :: i16) @ bs) =
    Ok (numeric_digits_to_string neg (sint w) (uint (h AND 0x3FFF)) (u16_digits bs))"
  using assms by (cases neg) (simp_all add: numeric_to_string_def Let_def)

lemma decimal_zero:
  fixes n :: nat
  assumes "n < 10000" and "n mod 10 = 0" and "n div 10 mod 10 = 0" and "n div 100 mod 10 = 0" and "n div 1000 mod 10 = 0"
  shows "n = 0"
proof -
  have "n div 1000 < 10" using assms(1) by (simp add: less_mult_imp_div_less)
  then have "n < 1000" using assms(5) by (simp add: div_eq_0_iff)
  then have "n div 100 < 10" by (simp add: less_mult_imp_div_less)
  then have "n < 100" using assms(4) by (simp add: div_eq_0_iff)
  then have "n div 10 < 10" by (simp add: less_mult_imp_div_less)
  then have "n < 10" using assms(3) by (simp add: div_eq_0_iff)
  then show ?thesis using assms(2) by simp
qed

lemma numeric_encode_decode:
  assumes "literal_ok i f"
  shows "\<exists>w ds. numeric_to_string (numeric_encode neg i f) =
      Ok (numeric_digits_to_string (neg \<and> (\<exists>e. cdigit (padded i f) (padded_int i) e \<noteq> 0)) w (int (length f)) ds) \<and>
    (\<forall>e. digit_at w ds e = cdigit (padded i f) (padded_int i) e)"
proof -
  note P = padded_props [OF assms]
  let ?w0 = "int (padded_int i div 4) - 1"
  obtain ds1 w1 where tf: "trim_front (groups4 (padded i f)) ?w0 = (ds1, w1)" by fastforce
  define ds2 where "ds2 = trim_back ds1"
  define zero where "zero = list_all (\<lambda>d. d = 0) ds2"
  define w where "w = (if zero then 0 else w1)"
  define ds3 where "ds3 = (if zero then [] else ds2)"
  have gd: "gdigit w ds3 e = cdigit (padded i f) (padded_int i) e" for e
  proof -
    have "gdigit w1 ds2 e = cdigit (padded i f) (padded_int i) e"
      using gdigit_trim_front [OF tf] gdigit_groups4 [OF P(1,2,3)] by (simp add: ds2_def gdigit_trim_back)
    moreover have "gdigit w ds3 e = gdigit w1 ds2 e"
      using gdigit_zero [of ds2] by (auto simp: w_def ds3_def zero_def gdigit_def [of _ "[]"] Let_def)
    ultimately show ?thesis by simp
  qed
  have small: "d < 10000" if "d \<in> set ds3" for d
    using that groups4_bound [OF P(1,3)] trim_front_set [OF tf] trim_back_set [of ds1]
    by (auto simp: ds3_def ds2_def split: if_splits)
  have dig: "digit_at w (map word_of_nat ds3) e = cdigit (padded i f) (padded_int i) e" for e
    using digit_at_gdigit [of ds3 w e] small gd by fastforce
  have nz: "(\<exists>e. cdigit (padded i f) (padded_int i) e \<noteq> 0) \<longleftrightarrow> \<not> zero"
  proof
    show "\<exists>e. cdigit (padded i f) (padded_int i) e \<noteq> 0 \<Longrightarrow> \<not> zero"
      using gd by (auto simp: ds3_def gdigit_def Let_def)
    assume nz: "\<not> zero"
    then obtain g where g: "g < length ds2" "ds2 ! g \<noteq> 0" by (auto simp: zero_def list_all_length)
    have lt: "ds2 ! g < 10000" using small [of "ds2 ! g"] g nz by (simp add: ds3_def)
    have "\<exists>k < 4. ds2 ! g div 10 ^ k mod 10 \<noteq> 0"
    proof (rule ccontr)
      assume "\<not> ?thesis"
      then have z: "ds2 ! g div 10 ^ k mod 10 = 0" if "k < 4" for k using that by blast
      have z4: "ds2 ! g mod 10 = 0" "ds2 ! g div 10 mod 10 = 0" "ds2 ! g div 100 mod 10 = 0" "ds2 ! g div 1000 mod 10 = 0"
        using z [of 0] z [of 1] z [of 2] z [of 3] by simp_all
      show False using decimal_zero [OF lt z4] g(2) by simp
    qed
    then obtain k where k: "k < 4" "ds2 ! g div 10 ^ k mod 10 \<noteq> 0" by blast
    let ?e = "4 * (w1 - int g) + int k"
    have "?e div 4 = w1 - int g" using k(1) by simp
    moreover have "?e mod 4 = int k"
      using mod_mult_self4 [of 4 "w1 - int g" "int k"] k(1) by simp
    ultimately have "gdigit w ds3 ?e \<noteq> 0"
      using g k nz by (simp add: gdigit_def Let_def w_def ds3_def)
    with gd show "\<exists>e. cdigit (padded i f) (padded_int i) e \<noteq> 0" by metis
  qed
  have wb: "- 32768 \<le> w" "w < 32768"
  proof -
    have ne: "groups4 (padded i f) \<noteq> []" using P(5) by (subst groups4.simps) simp
    have "w1 \<le> ?w0" "?w0 - int (length (padded i f) div 4) < w1"
      using trim_front_weight [OF tf ne] by (simp_all add: groups4_length P(1))
    moreover have "padded_int i \<le> 131072"
      using assms P(2) by (auto simp: literal_ok_def padded_int_def)
    moreover have "length (padded i f) div 4 \<le> padded_int i div 4 + 4096"
    proof -
      have "length (padded i f) \<le> padded_int i + 16386" using P(6) assms by (simp add: literal_ok_def)
      then have "length (padded i f) div 4 \<le> (padded_int i + 16386) div 4" by (rule div_le_mono)
      moreover obtain k where "padded_int i = 4 * k" using P(2) ..
      ultimately show ?thesis by simp
    qed
    ultimately show "- 32768 \<le> w" "w < 32768" by (auto simp: w_def)
  qed
  let ?h = "(if neg \<and> \<not> zero then 0x4000 else 0) OR (word_of_nat (length f) AND 0x3FFF) :: u16"
  have enc: "numeric_encode neg i f = to_le ?h @ to_le (word_of_int w :: i16) @
      concat (map (\<lambda>d. to_le (word_of_nat d :: i16)) ds3)"
    using tf unfolding numeric_encode_def Let_def padded_def padded_int_def
    by (auto simp: ds2_def zero_def w_def ds3_def)
  have lf: "length f < 16384" using assms by (simp add: literal_ok_def)
  have h: "?h AND 0xC000 = (if neg \<and> \<not> zero then 0x4000 else 0)" "uint (?h AND 0x3FFF) = int (length f)"
    using dscale_header [OF lf, of "neg \<and> \<not> zero"] by simp_all
  have "numeric_to_string (numeric_encode neg i f) =
      Ok (numeric_digits_to_string (neg \<and> \<not> zero) w (int (length f)) (map word_of_nat ds3))"
    unfolding enc numeric_long_form [OF h(1)] h(2) sint_i16 [OF wb] u16_digits_concat ..
  with dig nz show ?thesis by auto
qed


lemma dropWhile_exponents:
  assumes "\<And>e. a < e \<Longrightarrow> dig e = (0 :: nat)" and "a \<le> b" and "- 1 \<le> a"
  shows "dropWhile (\<lambda>e. dig e = 0) (rev [0..b]) = dropWhile (\<lambda>e. dig e = 0) (rev [0..a])"
proof -
  have "[0..b] = [0..a] @ [a + 1..b]"
  proof (cases "a = - 1")
    case False
    then show ?thesis using assms(2,3) by (intro upto_split2) auto
  qed simp
  then have "rev [0..b] = rev [a + 1..b] @ rev [0..a]" by simp
  moreover have "dropWhile (\<lambda>e. dig e = 0) (rev [a + 1..b] @ rev [0..a]) = dropWhile (\<lambda>e. dig e = 0) (rev [0..a])"
    using assms(1) by (intro dropWhile_append2) auto
  ultimately show ?thesis by simp
qed

definition strip_zeros :: "string \<Rightarrow> string" where
  "strip_zeros i = (let j = dropWhile (\<lambda>c. c = CHR ''0'') i in if j = [] then ''0'' else j)"

lemma digit_char_zero: "d < 10 \<Longrightarrow> digit_char d = CHR ''0'' \<longleftrightarrow> d = 0"
proof -
  assume "d < 10"
  then have "(of_char (digit_char d) :: nat) = 48 + d" by (simp add: digit_char_def)
  moreover have "(of_char CHR ''0'' :: nat) = 48" by simp
  moreover have "digit_char d = CHR ''0'' \<longleftrightarrow> (of_char (digit_char d) :: nat) = of_char CHR ''0''"
    by (rule of_char_eq_iff [symmetric])
  ultimately show ?thesis by simp
qed

lemma cdigit_lt: "list_all is_ascii_digit cs \<Longrightarrow> cdigit cs p e < 10"
  by (auto simp: cdigit_def Let_def list_all_length char_digit_lt)

lemma print_int_part:
  assumes "list_all is_ascii_digit cs" and "p \<le> length cs"
  shows "map (\<lambda>e. digit_char (cdigit cs p e)) (rev [0..int p - 1]) = take p cs"
proof (rule nth_equalityI)
  show "length (map (\<lambda>e. digit_char (cdigit cs p e)) (rev [0..int p - 1])) = length (take p cs)"
    using assms(2) by simp
  fix k assume "k < length (map (\<lambda>e. digit_char (cdigit cs p e)) (rev [0..int p - 1]))"
  then have k: "k < p" by simp
  then have "rev [0..int p - 1] ! k = int p - 1 - int k" by (simp add: rev_nth)
  then show "map (\<lambda>e. digit_char (cdigit cs p e)) (rev [0..int p - 1]) ! k = take p cs ! k"
    using k assms by (simp add: cdigit_def Let_def list_all_length digit_char_digit)
qed

lemma print_frac_part:
  assumes "list_all is_ascii_digit cs" and "p + n \<le> length cs"
  shows "map (\<lambda>e. digit_char (cdigit cs p e)) (rev [- int n..-1]) = take n (drop p cs)"
proof (rule nth_equalityI)
  show "length (map (\<lambda>e. digit_char (cdigit cs p e)) (rev [- int n..-1])) = length (take n (drop p cs))"
    using assms(2) by simp
  fix k assume "k < length (map (\<lambda>e. digit_char (cdigit cs p e)) (rev [- int n..-1]))"
  then have k: "k < n" by simp
  then have "rev [- int n..-1] ! k = - 1 - int k" by (simp add: rev_nth)
  then show "map (\<lambda>e. digit_char (cdigit cs p e)) (rev [- int n..-1]) ! k = take n (drop p cs) ! k"
    using k assms by (simp add: cdigit_def Let_def list_all_length digit_char_digit nat_add_distrib)
qed

lemma digit_at_above: "4 * w + 3 < e \<Longrightarrow> digit_at w ds e = 0"
  by (auto simp: digit_at_def Let_def)

lemma print_literal:
  assumes "literal_ok i f" and dig: "\<And>e. digit_at w ds e = cdigit (padded i f) (padded_int i) e"
  shows "numeric_digits_to_string neg w (int (length f)) ds =
    (if neg then ''-'' else []) @ strip_zeros i @ (if f = [] then [] else CHR ''.'' # f)"
proof -
  note P = padded_props [OF assms(1)]
  let ?d = "cdigit (padded i f) (padded_int i)" and ?hi = "max (4 * w + 3) 0" and ?p = "int (padded_int i) - 1"
  let ?zs = "dropWhile (\<lambda>e. ?d e = 0)"
  have above: "?d e = 0" if "4 * w + 3 < e \<or> ?p < e" for e
    using that dig [of e] digit_at_above [of w e ds] by (auto simp: cdigit_def Let_def)
  have "?zs (rev [0..?hi]) = ?zs (rev [0..max ?hi ?p])"
    using above by (intro dropWhile_exponents [symmetric]) auto
  also have "\<dots> = ?zs (rev [0..?p])"
    using above by (intro dropWhile_exponents) auto
  finally have zs: "?zs (rev [0..?hi]) = ?zs (rev [0..?p])" .
  have lt: "?d e < 10" for e by (rule cdigit_lt [OF P(3)])
  have "map (\<lambda>e. digit_char (?d e)) (?zs (rev [0..?p])) =
      dropWhile (\<lambda>c. c = CHR ''0'') (map (\<lambda>e. digit_char (?d e)) (rev [0..?p]))"
    using lt by (simp add: dropWhile_map comp_def digit_char_zero)
  also have "\<dots> = dropWhile (\<lambda>c. c = CHR ''0'') (take (padded_int i) (padded i f))"
    by (simp add: print_int_part [OF P(3,4)])
  also have "take (padded_int i) (padded i f) = replicate ((4 - length i mod 4) mod 4) CHR ''0'' @ i"
    by (simp add: padded_def padded_int_def)
  also have "dropWhile (\<lambda>c. c = CHR ''0'') \<dots> = dropWhile (\<lambda>c. c = CHR ''0'') i"
    by (rule dropWhile_append2) simp
  finally have ip: "map (\<lambda>e. digit_char (?d e)) (?zs (rev [0..?hi])) = dropWhile (\<lambda>c. c = CHR ''0'') i"
    by (simp only: zs)
  then have ne: "?zs (rev [0..?hi]) = [] \<longleftrightarrow> dropWhile (\<lambda>c. c = CHR ''0'') i = []"
    by (metis map_is_Nil_conv)
  have fp: "map (\<lambda>e. digit_char (?d e)) (rev [- int (length f)..-1]) = f"
  proof -
    have "take (length f) (drop (padded_int i) (padded i f)) = f" by (simp add: padded_def padded_int_def)
    moreover have "padded_int i + length f \<le> length (padded i f)" by (simp add: padded_def padded_int_def)
    ultimately show ?thesis using print_frac_part [OF P(3)] by metis
  qed
  have fun_eq: "digit_at w ds = ?d" using dig by (rule ext)
  show ?thesis
    unfolding numeric_digits_to_string_def Let_def fun_eq int_digits_dropWhile
    using ip ne fp by (simp add: strip_zeros_def Let_def)
qed


lemma white_space_codes:
  "list_all (\<lambda>p. p \<noteq> [] \<and> ((of_char (hd p) :: nat) < 43 \<or> 57 < (of_char (hd p) :: nat)) \<and>
     ((of_char (last p) :: nat) < 48 \<or> 57 < (of_char (last p) :: nat))) white_space"
  by code_simp

lemma white_space_ends:
  assumes "p \<in> set white_space"
  shows "p \<noteq> []" and "\<not> is_ascii_digit (hd p)" and "hd p \<noteq> CHR ''-''"
    and "hd p \<noteq> CHR ''.''" and "\<not> is_ascii_digit (last p)"
  using assms white_space_codes by (auto simp: list_all_iff is_ascii_digit_def Let_def)

lemma strip_one_none:
  assumes "\<And>p. p \<in> set pats \<Longrightarrow> p \<noteq> [] \<Longrightarrow> hd p \<noteq> hd s"
  shows "strip_one pats s = None"
  using assms by (auto simp: strip_one_def find_None_iff) (metis hd_take length_greater_0_conv)

lemma strip_all_none:
  assumes "\<And>p. p \<in> set pats \<Longrightarrow> p \<noteq> [] \<Longrightarrow> hd p \<noteq> hd s"
  shows "strip_all pats s = s"
  using strip_one_none [OF assms] by (subst strip_all.simps) simp

definition sign_of :: "bool \<Rightarrow> string" where
  "sign_of neg = (if neg then ''-'' else [])"

definition literal :: "bool \<Rightarrow> string \<Rightarrow> string \<Rightarrow> string" where
  "literal neg i f = sign_of neg @ i @ (if f = [] then [] else CHR ''.'' # f)"

lemma trim_literal:
  assumes "literal_ok i f"
  shows "trim (literal neg i f) = literal neg i f"
proof -
  let ?l = "literal neg i f"
  have hd: "is_ascii_digit (hd ?l) \<or> hd ?l = CHR ''-'' \<or> hd ?l = CHR ''.''"
    using assms by (cases i) (auto simp: literal_def sign_of_def literal_ok_def)
  have last: "is_ascii_digit (hd (rev ?l))"
    using assms by (auto simp: literal_def literal_ok_def hd_rev list_all_iff last_append)
  have "strip_all white_space ?l = ?l"
    using hd white_space_ends by (intro strip_all_none) metis
  moreover have "strip_all (map rev white_space) (rev ?l) = rev ?l"
    using last white_space_ends(1,5) by (intro strip_all_none) (force simp: hd_rev)
  ultimately show ?thesis by (simp add: trim_def)
qed


lemma special_literal:
  assumes "literal_ok i f"
  shows "numeric_special (literal neg i f) = None"
proof -
  let ?low = "\<lambda>c. let n = of_char c :: nat in if 65 \<le> n \<and> n \<le> 90 then char_of (n + 32) else c"
  let ?m = "i @ (if f = [] then [] else CHR ''.'' # f)"
  obtain c r where cr: "?m = c # r" and c: "is_ascii_digit c \<or> c = CHR ''.''"
    using assms by (cases i) (auto simp: literal_ok_def)
  have low: "?low c = c" using c by (auto simp: is_ascii_digit_def Let_def)
  have n: "(of_char c :: nat) < 58 \<and> (of_char c :: nat) > 45" using c by (auto simp: is_ascii_digit_def Let_def)
  have "to_ascii_lowercase (literal neg i f) = sign_of neg @ c # map ?low r"
    using low cr by (simp add: to_ascii_lowercase_def literal_def sign_of_def)
  moreover have "c \<noteq> CHR ''n''" "c \<noteq> CHR ''i''" "c \<noteq> CHR ''+''" "c \<noteq> CHR ''-''" using n by auto
  ultimately show ?thesis by (cases neg) (simp_all add: numeric_special_def sign_of_def Let_def)
qed

lemma split_point_digits:
  "list_all is_ascii_digit i \<Longrightarrow> split_point (i @ (if f = [] then [] else CHR ''.'' # f)) = (i, f)"
  by (induction i) (auto simp: is_ascii_digit_def)

lemma numeric_from_literal:
  assumes "literal_ok i f"
  shows "numeric_from_string (literal neg i f) = Ok (numeric_encode neg i f)"
proof -
  let ?m = "i @ (if f = [] then [] else CHR ''.'' # f)"
  have "split_sign (literal neg i f) = (neg, ?m)"
    using assms by (cases i) (auto simp: literal_def sign_of_def split_sign_def literal_ok_def is_ascii_digit_def)
  moreover have "split_point ?m = (i, f)" using assms by (intro split_point_digits) (simp add: literal_ok_def)
  ultimately show ?thesis
    using assms by (auto simp: numeric_from_string_def trim_literal special_literal literal_ok_def)
qed

lemma nonzero_padding:
  "(\<exists>c \<in> set (replicate n z @ i @ f @ replicate k z). c \<noteq> z) \<longleftrightarrow> (\<exists>c \<in> set (i @ f). c \<noteq> z)"
  by auto

lemma cdigit_all_zero:
  assumes "literal_ok i f"
  shows "(\<exists>e. cdigit (padded i f) (padded_int i) e \<noteq> 0) \<longleftrightarrow> (\<exists>c \<in> set (i @ f). c \<noteq> CHR ''0'')"
proof -
  let ?cs = "padded i f" and ?p = "padded_int i"
  have z: "char_digit c = 0 \<longleftrightarrow> c = CHR ''0''" if "is_ascii_digit c" for c
    using digit_char_digit [OF that] digit_char_zero [OF char_digit_lt [OF that]] by auto
  have "(\<exists>e. cdigit ?cs ?p e \<noteq> 0) \<longleftrightarrow> (\<exists>k < length ?cs. char_digit (?cs ! k) \<noteq> 0)"
  proof
    assume "\<exists>e. cdigit ?cs ?p e \<noteq> 0"
    then obtain e where e: "cdigit ?cs ?p e \<noteq> 0" ..
    then show "\<exists>k < length ?cs. char_digit (?cs ! k) \<noteq> 0"
      by (intro exI [of _ "nat (int ?p - 1 - e)"]) (auto simp: cdigit_def Let_def split: if_splits)
  next
    assume "\<exists>k < length ?cs. char_digit (?cs ! k) \<noteq> 0"
    then obtain k where "k < length ?cs" "char_digit (?cs ! k) \<noteq> 0" by blast
    then have "cdigit ?cs ?p (int ?p - 1 - int k) \<noteq> 0" by (simp add: cdigit_def Let_def)
    then show "\<exists>e. cdigit ?cs ?p e \<noteq> 0" ..
  qed
  also have "\<dots> \<longleftrightarrow> (\<exists>c \<in> set ?cs. c \<noteq> CHR ''0'')"
  proof -
    have "(\<exists>k < length ?cs. char_digit (?cs ! k) \<noteq> 0) \<longleftrightarrow> (\<exists>c \<in> set ?cs. char_digit c \<noteq> 0)"
      by (metis in_set_conv_nth)
    also have "\<dots> \<longleftrightarrow> (\<exists>c \<in> set ?cs. c \<noteq> CHR ''0'')"
    proof (rule bex_cong [OF refl])
      fix c assume "c \<in> set ?cs"
      then have "is_ascii_digit c" using padded_props(3) [OF assms] by (simp add: list_all_iff)
      then show "char_digit c \<noteq> 0 \<longleftrightarrow> c \<noteq> CHR ''0''" by (simp add: z)
    qed
    finally show ?thesis .
  qed
  also have "\<dots> \<longleftrightarrow> (\<exists>c \<in> set (i @ f). c \<noteq> CHR ''0'')"
    unfolding padded_def by (rule nonzero_padding)
  finally show ?thesis .
qed

section \<open>Properties\<close>

text \<open>
  C15 (roundtrip): decimal strings survive the on-disk form. For every literal of at most 131072
  integer and 16383 fraction digits, encoding it to on-disk bytes and rendering those bytes gives
  the literal in canonical form: the same sign (a zero loses its minus), the integer part without
  leading zeros but at least one digit, and every fraction digit, trailing zeros included.
\<close>
theorem numeric_string_roundtrip:
  assumes "literal_ok i f"
  shows "rbind (numeric_from_string (literal neg i f)) numeric_to_string =
    Ok (literal (neg \<and> (\<exists>c \<in> set (i @ f). c \<noteq> CHR ''0'')) (strip_zeros i) f)"
proof -
  obtain w ds where "numeric_to_string (numeric_encode neg i f) =
      Ok (numeric_digits_to_string (neg \<and> (\<exists>e. cdigit (padded i f) (padded_int i) e \<noteq> 0)) w (int (length f)) ds)"
    and "\<And>e. digit_at w ds e = cdigit (padded i f) (padded_int i) e"
    using numeric_encode_decode [OF assms, of neg] by blast
  with print_literal [OF assms] show ?thesis
    unfolding numeric_from_literal [OF assms] cdigit_all_zero [OF assms] rbind.simps
    by (simp only: literal_def sign_of_def)
qed

theorem numeric_string_roundtrip_witness:
  "rbind (numeric_from_string (literal True ''0012345'' ''670'')) numeric_to_string = Ok ''-12345.670''"
  using numeric_string_roundtrip [of "''0012345''" "''670''" True]
  by (simp add: literal_ok_def is_ascii_digit_def literal_def sign_of_def strip_zeros_def)

section \<open>The three encodings of a value\<close>

definition sign_word :: "bool \<Rightarrow> u16" where
  "sign_word neg = (if neg then 0x4000 else 0)"

definition disk_long :: "bool \<Rightarrow> i16 \<Rightarrow> nat \<Rightarrow> u16 list \<Rightarrow> bytes" where
  "disk_long neg w dscale ds =
     to_le (sign_word neg OR word_of_nat dscale) @ to_le w @ concat (map to_le ds)"

definition disk_short :: "bool \<Rightarrow> i16 \<Rightarrow> nat \<Rightarrow> u16 list \<Rightarrow> bytes" where
  "disk_short neg w dscale ds =
     to_le (0x8000 OR (if neg then 0x2000 else 0) OR push_bit 7 (word_of_nat dscale) OR (w AND 0x7F)) @
     concat (map to_le ds)"

definition numeric_send :: "bool \<Rightarrow> i16 \<Rightarrow> nat \<Rightarrow> u16 list \<Rightarrow> bytes" where
  "numeric_send neg w dscale ds =
     to_be (word_of_nat (length ds) :: i16) @ to_be w @ to_be (sign_word neg) @
     to_be (word_of_nat dscale :: i16) @ concat (map to_be ds)"

lemma be_digits_concat: "be_digits (length ds) (concat (map to_be ds) @ bs) = Ok ds"
  by (induction ds) simp_all

lemma sint_nat16: "n < 32768 \<Longrightarrow> sint (word_of_nat n :: i16) = int n"
  using sint_i16 [of "int n"] by simp

lemma u16_digits_to_le: "u16_digits (concat (map to_le ds)) = ds"
  using u16_digits_concat [of "map unat ds"] by (simp add: comp_def)

lemma short_header:
  fixes d w :: u16 and neg :: bool
  assumes "d AND 0x3F = d"
  defines "h \<equiv> 0x8000 OR (if neg then 0x2000 else 0) OR push_bit 7 d OR (w AND 0x7F)"
  shows "h AND 0xC000 = 0x8000" and "h AND 0x2000 \<noteq> 0 \<longleftrightarrow> neg" and "drop_bit 7 (h AND 0x1F80) = d"
    and "h AND 0x3F = w AND 0x3F" and "h AND 0x40 = w AND 0x40"
proof -
  have bd: "\<not> bit d n" if "6 \<le> n" for n
  proof -
    have "(0x3F :: u16) = mask 6" by (simp add: mask_eq_exp_minus_1)
    then show ?thesis using assms(1) that by (metis bit_and_iff bit_mask_iff not_le)
  qed
  have pp: "drop_bit 7 (push_bit 7 d) = d"
  proof (rule bit_word_eqI)
    fix n
    show "bit (drop_bit 7 (push_bit 7 d)) n = bit d n"
      using bd [of n] by (cases "6 \<le> n") (auto simp: bit_simps)
  qed
  have hi: "push_bit 7 d AND push_bit 7 m = push_bit 7 (d AND (0x3F AND m))" for m
    using assms(1) by (metis and.assoc push_bit_and)
  have "push_bit 7 d AND 0x7F = 0"
  proof -
    have "(0x7F :: u16) = mask 7" by (simp add: mask_eq_exp_minus_1)
    then have "push_bit 7 d AND 0x7F = take_bit 7 (push_bit 7 d)" by (simp only: take_bit_eq_mask)
    also have "\<dots> = 0" by (simp add: take_bit_push_bit)
    finally show ?thesis .
  qed
  then have lo: "push_bit 7 d AND (0x7F AND m) = 0" for m by (metis and.assoc and_zero_eq and.commute)
  have A: "push_bit 7 d AND 0xC000 = 0" "push_bit 7 d AND 0x2000 = 0" "push_bit 7 d AND 0x3F = 0" "push_bit 7 d AND 0x40 = 0"
    "push_bit 7 d AND 0x1F80 = push_bit 7 d"
    using hi [of "0x180"] hi [of "0x40"] hi [of "0x3F"] lo [of "0x3F"] lo [of "0x40"] assms(1) by simp_all
  show "h AND 0xC000 = 0x8000" and "h AND 0x2000 \<noteq> 0 \<longleftrightarrow> neg" and "drop_bit 7 (h AND 0x1F80) = d"
    and "h AND 0x3F = w AND 0x3F" and "h AND 0x40 = w AND 0x40"
    unfolding h_def
    by (simp_all add: bit.conj_disj_distrib2 A and.assoc pp)
qed

lemma weight_bits:
  fixes w :: i16
  assumes "- 64 \<le> sint w" and "sint w < 64"
  shows "(if w AND 0x40 \<noteq> 0 then uint (w AND 0x3F) - 64 else uint (w AND 0x3F)) = sint w"
proof -
  have all: "list_all (\<lambda>k. (if (word_of_int k :: i16) AND 0x40 \<noteq> 0
      then uint ((word_of_int k :: i16) AND 0x3F) - 64 else uint ((word_of_int k :: i16) AND 0x3F)) = k) [- 64..63]"
    by code_simp
  have "sint w \<in> set [- 64..63]" using assms by (simp only: set_upto) simp
  with all have "(if (word_of_int (sint w) :: i16) AND 0x40 \<noteq> 0
      then uint ((word_of_int (sint w) :: i16) AND 0x3F) - 64 else uint ((word_of_int (sint w) :: i16) AND 0x3F)) = sint w"
    unfolding list_all_iff by blast
  moreover have "(word_of_int (sint w) :: i16) = w" by simp
  ultimately show ?thesis by (simp only:)
qed

text \<open>
  the three encodings of a numeric render alike. A value with sign, weight,
  display scale and base-10000 digits prints the same from its long on-disk form, from its short
  on-disk form where weight and scale fit it, and from the big-endian form that binary COPY sends,
  so rows read from the WAL and rows read by a snapshot agree.
\<close>
theorem numeric_forms_agree:
  assumes "dscale < 16384" and "length ds < 32768"
  shows "numeric_from_binary (numeric_send neg w dscale ds) = numeric_to_string (disk_long neg w dscale ds) \<and>
    (dscale < 64 \<and> - 64 \<le> sint w \<and> sint w < 64 \<longrightarrow>
      numeric_to_string (disk_short neg w dscale ds) = numeric_to_string (disk_long neg w dscale ds))"
proof -
  let ?r = "Ok (numeric_digits_to_string neg (sint w) (int dscale) ds)"
  have long: "numeric_to_string (disk_long neg w dscale ds) = ?r"
  proof -
    have "(word_of_nat dscale :: u16) AND 0x3FFF = word_of_nat dscale"
      using u16_and_mask [of dscale 14] assms(1) by (simp add: mask_eq_exp_minus_1)
    with dscale_header [OF assms(1), of neg] show ?thesis
      using numeric_long_form [of "sign_word neg OR word_of_nat dscale" neg w "concat (map to_le ds)"]
      by (simp add: disk_long_def sign_word_def u16_digits_to_le)
  qed
  have "numeric_from_binary (numeric_send neg w dscale ds) = ?r"
    using assms by (simp add: numeric_from_binary_def numeric_send_def Let_def sint_nat16
        be_digits_concat [of ds "[]", simplified] sign_word_def)
  moreover have "numeric_to_string (disk_short neg w dscale ds) = ?r"
    if s: "dscale < 64" "- 64 \<le> sint w" "sint w < 64"
  proof -
    have d: "(word_of_nat dscale :: u16) AND 0x3F = word_of_nat dscale"
      using u16_and_mask [of dscale 6] s(1) by (simp add: mask_eq_exp_minus_1)
    note H = short_header [OF d, of neg w]
    have u: "uint (word_of_nat dscale :: u16) = int dscale"
      using s(1) by (simp add: unsigned_of_nat take_bit_nat_eq_self)
    let ?h = "0x8000 OR (if neg then 0x2000 else 0) OR push_bit 7 (word_of_nat dscale) OR (w AND 0x7F) :: u16"
    have t: "from_le (take 2 (disk_short neg w dscale ds)) = ?h" "drop 2 (disk_short neg w dscale ds) = concat (map to_le ds)"
      "\<not> length (disk_short neg w dscale ds) < 2" by (simp_all add: disk_short_def)
    have n: "(0x8000 :: u16) \<noteq> 0xC000" by simp
    show ?thesis
      unfolding numeric_to_string_def Let_def t H u16_digits_to_le u weight_bits [OF s(2,3)] using t(3) n by simp
  qed
  ultimately show ?thesis using long by simp
qed

theorem numeric_forms_agree_witness:
  "numeric_from_binary (numeric_send True 1 2 [7, 1234, 5600]) = numeric_to_string (disk_long True 1 2 [7, 1234, 5600]) \<and>
   numeric_to_string (disk_short True 1 2 [7, 1234, 5600]) = numeric_to_string (disk_long True 1 2 [7, 1234, 5600])"
  using numeric_forms_agree [of 2 "[7, 1234, 5600]" True 1] by simp

end
