(* ===== verification/Jsonb.thy ===== *)
theory Jsonb
  imports Numeric
begin

text \<open>
  Text decoding: \<^verbatim>\<open>String::from_utf8_lossy\<close> of the standard library and the
  \<^verbatim>\<open>jsonb\<close> renderer of \<^verbatim>\<open>src/wal/heap.rs\<close>. A \<^verbatim>\<open>String\<close> is the list
  of its UTF-8 bytes, so iterating over its characters and escaping those below 128 is iterating
  over its bytes.
\<close>

section \<open>Lossy UTF-8\<close>

definition as_string :: "bytes \<Rightarrow> string" where
  "as_string bs = map (\<lambda>b. char_of (unat b)) bs"

definition as_bytes :: "string \<Rightarrow> bytes" where
  "as_bytes s = map (\<lambda>c. word_of_nat (of_char c)) s"

lemma as_string_bytes [simp]: "as_string (as_bytes s) = s"
  by (simp add: as_string_def as_bytes_def comp_def unat_of_nat)

lemma as_bytes_string [simp]: "as_bytes (as_string bs) = bs"
proof -
  have "(word_of_nat (of_char (char_of (unat b) :: char)) :: u8) = b" for b :: u8
    using unsigned_less [of b, where ?'a = nat] by simp
  then show ?thesis by (simp add: as_string_def as_bytes_def comp_def)
qed

text \<open>Byte \<open>i\<close>, or 0 past the end, as the standard library's validator reads it.\<close>

definition safe_get :: "bytes \<Rightarrow> nat \<Rightarrow> u8" where
  "safe_get bs i = (if i < length bs then bs ! i else 0)"

definition is_cont :: "u8 \<Rightarrow> bool" where
  "is_cont b \<longleftrightarrow> 0x80 \<le> b \<and> b \<le> 0xBF"

text \<open>The next sequence: whether it is valid, and how many bytes it takes.\<close>

definition utf8_step :: "bytes \<Rightarrow> bool \<times> nat" where
  "utf8_step bs =
     (let a = safe_get bs 0; b = safe_get bs 1 in
      if a < 0x80 then (True, 1)
      else if 0xC2 \<le> a \<and> a \<le> 0xDF then (if is_cont b then (True, 2) else (False, 1))
      else if 0xE0 \<le> a \<and> a \<le> 0xEF then
        if a = 0xE0 \<and> 0xA0 \<le> b \<and> b \<le> 0xBF \<or> 0xE1 \<le> a \<and> a \<le> 0xEC \<and> is_cont b \<or>
           a = 0xED \<and> 0x80 \<le> b \<and> b \<le> 0x9F \<or> 0xEE \<le> a \<and> is_cont b
        then (if is_cont (safe_get bs 2) then (True, 3) else (False, 2))
        else (False, 1)
      else if 0xF0 \<le> a \<and> a \<le> 0xF4 then
        if a = 0xF0 \<and> 0x90 \<le> b \<and> b \<le> 0xBF \<or> 0xF1 \<le> a \<and> a \<le> 0xF3 \<and> is_cont b \<or>
           a = 0xF4 \<and> 0x80 \<le> b \<and> b \<le> 0x8F
        then (if is_cont (safe_get bs 2)
              then (if is_cont (safe_get bs 3) then (True, 4) else (False, 3))
              else (False, 2))
        else (False, 1)
      else (False, 1))"

lemma utf8_step_pos: "0 < snd (utf8_step bs)"
  by (simp add: utf8_step_def Let_def)

function from_utf8_lossy :: "bytes \<Rightarrow> string" where
  "from_utf8_lossy bs =
     (if bs = [] then []
      else (case utf8_step bs of (ok, n) \<Rightarrow>
        (if ok then as_string (take n bs) else as_string [0xEF, 0xBF, 0xBD]) @ from_utf8_lossy (drop n bs)))"
  by pat_completeness auto
termination
proof (relation "measure length")
  fix bs ok n
  assume "bs \<noteq> []" and "(ok, n) = utf8_step bs"
  then show "(drop n bs, bs) \<in> measure length"
    using utf8_step_pos [of bs] by (cases "utf8_step bs") auto
qed simp

declare from_utf8_lossy.simps [simp del]

text \<open>Bytes that are well-formed UTF-8 throughout.\<close>

function valid_utf8 :: "bytes \<Rightarrow> bool" where
  "valid_utf8 bs =
     (if bs = [] then True
      else fst (utf8_step bs) \<and> snd (utf8_step bs) \<le> length bs \<and> valid_utf8 (drop (snd (utf8_step bs)) bs))"
  by pat_completeness auto
termination
proof (relation "measure length")
  fix bs :: bytes
  assume "bs \<noteq> []"
  then show "(drop (snd (utf8_step bs)) bs, bs) \<in> measure length"
    using utf8_step_pos [of bs] by simp
qed simp

declare valid_utf8.simps [simp del]

lemma lossy_valid: "valid_utf8 bs \<Longrightarrow> from_utf8_lossy bs = as_string bs"
proof (induction bs rule: valid_utf8.induct)
  case (1 bs)
  show ?case
  proof (cases "bs = []")
    case False
    then have v: "fst (utf8_step bs) \<and> valid_utf8 (drop (snd (utf8_step bs)) bs)"
      using 1(2) by (subst (asm) valid_utf8.simps) simp
    have "from_utf8_lossy bs = as_string (take (snd (utf8_step bs)) bs) @ as_string (drop (snd (utf8_step bs)) bs)"
      using False v 1(1) [OF False] by (subst from_utf8_lossy.simps) (simp add: split_beta)
    then show ?thesis by (simp add: as_string_def flip: map_append)
  qed (simp add: from_utf8_lossy.simps as_string_def)
qed

section \<open>JSON text\<close>

definition hex_lower :: "nat \<Rightarrow> char" where
  "hex_lower d = char_of (if d < 10 then 48 + d else 87 + d)"

text \<open>Escaping of one character of a string literal.\<close>

definition json_escape :: "char \<Rightarrow> string" where
  "json_escape c =
     (let n = of_char c :: nat in
      if c = CHR 0x22 then [CHR 0x5C, CHR 0x22]
      else if c = CHR 0x5C then [CHR 0x5C, CHR 0x5C]
      else if n = 8 then CHR 0x5C # ''b''
      else if n = 12 then CHR 0x5C # ''f''
      else if n = 10 then CHR 0x5C # ''n''
      else if n = 13 then CHR 0x5C # ''r''
      else if n = 9 then CHR 0x5C # ''t''
      else if n < 0x20 then CHR 0x5C # ''u00'' @ [hex_lower (n div 16), hex_lower (n mod 16)]
      else [c])"

definition write_json_string :: "bytes \<Rightarrow> string" where
  "write_json_string bs = [CHR 0x22] @ concat (map json_escape (from_utf8_lossy bs)) @ [CHR 0x22]"

definition numeric_varlena_to_string :: "bytes \<Rightarrow> string result" where
  "numeric_varlena_to_string v =
     rbind (ok_or (get v 0) (Bail ''jsonb numeric empty'')) (\<lambda>b0.
     rbind (if b0 AND 1 = 1
            then ok_or (get_range v 1 (unat (drop_bit 1 b0 AND 0x7F))) (Bail ''jsonb short numeric truncated'')
            else rbind (ok_or (get_range v 0 4) (Bail ''jsonb numeric hdr'')) (\<lambda>hdr.
              ok_or (get_range v 4 (unat (drop_bit 2 (from_le hdr :: u32)))) (Bail ''jsonb long numeric truncated'')))
       numeric_to_string)"

section \<open>Containers\<close>

definition JB_CMASK :: u32 where "JB_CMASK = 0x0FFFFFFF"
definition JB_FOBJECT :: u32 where "JB_FOBJECT = 0x20000000"
definition JB_FSCALAR :: u32 where "JB_FSCALAR = 0x10000000"
definition JENTRY_OFFLENMASK :: u32 where "JENTRY_OFFLENMASK = 0x0FFFFFFF"
definition JENTRY_HAS_OFF :: u32 where "JENTRY_HAS_OFF = 0x80000000"
definition JENTRY_TYPEMASK :: u32 where "JENTRY_TYPEMASK = 0x70000000"

lemmas jsonb_consts = JB_CMASK_def JB_FOBJECT_def JB_FSCALAR_def JENTRY_OFFLENMASK_def
  JENTRY_HAS_OFF_def JENTRY_TYPEMASK_def

definition jentry :: "bytes \<Rightarrow> nat \<Rightarrow> u32 result" where
  "jentry c i = rbind (ok_or (get_range c (4 + i * 4) (4 + i * 4 + 4)) (Bail ''jsonb JEntry truncated'')) (\<lambda>b. Ok (from_le b))"

text \<open>The running end offsets of entries \<open>i\<close>, \<open>i + 1\<close>, \dots\<close>

fun jentry_ends :: "bytes \<Rightarrow> nat list \<Rightarrow> nat \<Rightarrow> nat list result" where
  "jentry_ends c [] cum = Ok []"
| "jentry_ends c (i # is) cum =
     rbind (jentry c i) (\<lambda>je.
       let cum' = (if je AND JENTRY_HAS_OFF \<noteq> 0 then unat (je AND JENTRY_OFFLENMASK)
                   else cum + unat (je AND JENTRY_OFFLENMASK))
       in rbind (jentry_ends c is cum') (\<lambda>es. Ok (cum' # es)))"

text \<open>The closure \<^verbatim>\<open>write_value\<close>; \<open>nested\<close> renders a container one level down.\<close>

definition write_value :: "(bytes \<Rightarrow> string result) \<Rightarrow> bytes \<Rightarrow> nat \<Rightarrow> nat list \<Rightarrow> nat \<Rightarrow> string result" where
  "write_value nested c data_start ends i =
     rbind (jentry c i) (\<lambda>je.
     rbind (if i = 0 then Ok 0 else index ends (i - 1)) (\<lambda>st.
     rbind (index ends i) (\<lambda>en.
       let s = data_start + st; e = data_start + en; pad = (4 - s mod 4) mod 4; ty = je AND JENTRY_TYPEMASK in
     rbind (ok_or (get_range c s e) (Bail ''jsonb value out of range'')) (\<lambda>slot.
       if ty = 0x00000000 then Ok (write_json_string slot)
       else if ty = 0x30000000 then Ok ''true''
       else if ty = 0x20000000 then Ok ''false''
       else if ty = 0x40000000 then Ok ''null''
       else if ty = 0x10000000 then rbind (slice c (s + pad) e) numeric_varlena_to_string
       else if ty = 0x50000000 then rbind (slice c (s + pad) e) nested
       else Err (Bail ''jsonb: unknown JEntry type'')))))"

text \<open>Items separated by a comma, as the loops over elements and pairs print them.\<close>

fun commas :: "string list \<Rightarrow> string" where
  "commas [] = []"
| "commas [s] = s"
| "commas (s # t # ss) = s @ '', '' @ commas (t # ss)"

function jsonb_write :: "bytes \<Rightarrow> nat \<Rightarrow> string result" where
  "jsonb_write c depth =
     (if depth > 200 then Err (Bail ''jsonb nested too deep'')
      else if length c < 4 then Err (Bail ''jsonb container too short'')
      else
        let header = from_le (take 4 c) :: u32;
            count = unat (header AND JB_CMASK);
            is_object = (header AND JB_FOBJECT \<noteq> 0);
            is_scalar = (header AND JB_FSCALAR \<noteq> 0);
            nentries = (if is_object then count * 2 else count);
            data_start = 4 + nentries * 4
        in rbind (jentry_ends c [0..<nentries] 0) (\<lambda>ends.
           let val = write_value (\<lambda>b. jsonb_write b (depth + 1)) c data_start ends in
           if is_scalar then val 0
           else if is_object then
             rbind (rmap (\<lambda>p. rbind (val p) (\<lambda>k. rbind (val (count + p)) (\<lambda>v. Ok (k @ '': '' @ v)))) [0..<count])
               (\<lambda>items. Ok (''{'' @ commas items @ ''}''))
           else
             rbind (rmap val [0..<count]) (\<lambda>items. Ok (''['' @ commas items @ '']''))))"
  by pat_completeness auto
termination by (relation "measure (\<lambda>(c, depth). 201 - depth)") auto

declare jsonb_write.simps [simp del]

definition jsonb_to_string :: "bytes \<Rightarrow> string result" where
  "jsonb_to_string container = jsonb_write container 0"

end
