(* ===== verification/Heap.thy ===== *)
theory Heap
  imports Toast Schema Jsonb
begin

text \<open>
  Typed rows (\<^verbatim>\<open>src/wal/heap.rs\<close>): decoding attribute bytes into values against a table
  descriptor, the tuples of insert, multi-insert and update records, and the re-encoding of a row
  into attribute bytes that prefix- and suffix-compressed updates are rebuilt from. The fallible
  encoder returns an option inside a result, because a date or timestamp at the end of its range
  overflows the shift of the epoch.
\<close>

definition PG_EPOCH_DAYS :: i32 where "PG_EPOCH_DAYS = 10957"
definition PG_EPOCH_MICROS :: i64 where "PG_EPOCH_MICROS = 946684800000000"

section \<open>Values\<close>

definition hex_byte :: "u8 \<Rightarrow> string" where
  "hex_byte b = [hex_lower (unat b div 16), hex_lower (unat b mod 16)]"

text \<open>The 16 bytes of a uuid in groups of 4, 2, 2, 2 and 6.\<close>

definition format_uuid :: "bytes \<Rightarrow> string" where
  "format_uuid bs =
     (let hex = concat (map hex_byte bs) in
      take 8 hex @ ''-'' @ take 4 (drop 8 hex) @ ''-'' @ take 4 (drop 12 hex) @ ''-'' @
      take 4 (drop 16 hex) @ ''-'' @ take 12 (drop 20 hex))"

definition fixed :: "nat \<Rightarrow> bytes \<Rightarrow> nat \<Rightarrow> nat \<Rightarrow> (bytes \<times> nat) result" where
  "fixed n data off align =
     (let off' = align_to off align in
      rbind (ok_or (get_range data off' (off' + n)) (Bail ''truncated'')) (\<lambda>s. Ok (s, off' + n)))"

definition varlena_value ::
  "decompressor \<Rightarrow> (bytes \<Rightarrow> Value result) \<Rightarrow> bytes \<Rightarrow> nat \<Rightarrow> ToastCache \<Rightarrow> (Value option \<times> nat) result" where
  "varlena_value lz4 f data off toast =
     rbind (decode_varlena lz4 data off toast) (\<lambda>(b, new_off).
       case b of None \<Rightarrow> Ok (None, new_off)
       | Some bs \<Rightarrow> rbind (f bs) (\<lambda>v. Ok (Some v, new_off)))"

fun decode_value ::
  "decompressor \<Rightarrow> bytes \<Rightarrow> nat \<Rightarrow> PgType \<Rightarrow> ToastCache \<Rightarrow> (Value option \<times> nat) result" where
  "decode_value lz4 data off Bool toast =
     rbind (ok_or (get data off) (Bail ''truncated bool'')) (\<lambda>b. Ok (Some (VBool (b \<noteq> 0)), off + 1))"
| "decode_value lz4 data off Int2 toast =
     rbind (fixed 2 data off 2) (\<lambda>(s, off). Ok (Some (VI16 (from_le s)), off))"
| "decode_value lz4 data off Int4 toast =
     rbind (fixed 4 data off 4) (\<lambda>(s, off). Ok (Some (VI32 (from_le s)), off))"
| "decode_value lz4 data off Int8 toast =
     rbind (fixed 8 data off 8) (\<lambda>(s, off). Ok (Some (VI64 (from_le s)), off))"
| "decode_value lz4 data off Float4 toast =
     rbind (fixed 4 data off 4) (\<lambda>(s, off). Ok (Some (VF32 (from_le s)), off))"
| "decode_value lz4 data off Float8 toast =
     rbind (fixed 8 data off 8) (\<lambda>(s, off). Ok (Some (VF64 (from_le s)), off))"
| "decode_value lz4 data off Date toast =
     rbind (fixed 4 data off 4) (\<lambda>(s, off).
     rbind (checked_add (from_le s) PG_EPOCH_DAYS) (\<lambda>d. Ok (Some (VI32 d), off)))"
| "decode_value lz4 data off Timestamp toast =
     rbind (fixed 8 data off 8) (\<lambda>(s, off).
     rbind (checked_add (from_le s) PG_EPOCH_MICROS) (\<lambda>d. Ok (Some (VI64 d), off)))"
| "decode_value lz4 data off TimestampTz toast =
     rbind (fixed 8 data off 8) (\<lambda>(s, off).
     rbind (checked_add (from_le s) PG_EPOCH_MICROS) (\<lambda>d. Ok (Some (VI64 d), off)))"
| "decode_value lz4 data off Uuid toast =
     rbind (ok_or (get_range data off (off + 16)) (Bail ''truncated uuid'')) (\<lambda>s.
       Ok (Some (VText (format_uuid s)), off + 16))"
| "decode_value lz4 data off Text toast = varlena_value lz4 (\<lambda>b. Ok (VText (from_utf8_lossy b))) data off toast"
| "decode_value lz4 data off Bytea toast = varlena_value lz4 (\<lambda>b. Ok (VBytes b)) data off toast"
| "decode_value lz4 data off Numeric toast =
     varlena_value lz4 (\<lambda>b. rbind (numeric_to_string b) (\<lambda>s. Ok (VText s))) data off toast"
| "decode_value lz4 data off Jsonb toast =
     varlena_value lz4 (\<lambda>b. rbind (jsonb_to_string b) (\<lambda>s. Ok (VText s))) data off toast"

section \<open>Tuples\<close>

text \<open>\<^verbatim>\<open>map_err\<close> with the column name: an error value is re-wrapped, a panic is not.\<close>

fun column_context :: "'a result \<Rightarrow> 'a result" where
  "column_context (Inl (Panic s)) = Err (Panic s)"
| "column_context (Inl e) = Err (Bail ''column'')"
| "column_context (Inr x) = Ok x"

definition HEAP_HASNULL :: u16 where "HEAP_HASNULL = 1"

text \<open>\<^verbatim>\<open>has_nulls && bitmap[i / 8] & (1 << (i % 8)) == 0\<close>\<close>

definition is_null :: "bool \<Rightarrow> bytes \<Rightarrow> nat \<Rightarrow> bool result" where
  "is_null has_nulls bitmap i =
     (if \<not> has_nulls then Ok False
      else rbind (index bitmap (i div 8)) (\<lambda>b. Ok (b AND push_bit (i mod 8) 1 = 0)))"

text \<open>\<^verbatim>\<open>old_row.and_then(|r| r.get(live_i)).and_then(|v| v.clone())\<close>\<close>

definition old_value :: "Row option \<Rightarrow> nat \<Rightarrow> Value option" where
  "old_value old live_i = Option.bind old (\<lambda>r. Option.bind (get r live_i) id)"

text \<open>The loop over the physical attributes from number \<open>i\<close> on.\<close>

fun decode_attrs ::
  "decompressor \<Rightarrow> ToastCache \<Rightarrow> nat \<Rightarrow> bool \<Rightarrow> bytes \<Rightarrow> bytes \<Rightarrow> Row option \<Rightarrow>
   PhysCol list \<Rightarrow> nat \<Rightarrow> nat \<Rightarrow> nat \<Rightarrow> Row result" where
  "decode_attrs lz4 toast natts hn bitmap data old [] i off live_i = Ok []"
| "decode_attrs lz4 toast natts hn bitmap data old (pc # pcs) i off live_i =
     (if i \<ge> natts then
        (case pc of
           Live c \<Rightarrow> rbind (decode_attrs lz4 toast natts hn bitmap data old pcs (i + 1) off (live_i + 1)) (\<lambda>r. Ok (None # r))
         | Dropped l a \<Rightarrow> decode_attrs lz4 toast natts hn bitmap data old pcs (i + 1) off live_i)
      else
        rbind (is_null hn bitmap i) (\<lambda>null.
        case pc of
          Dropped l a \<Rightarrow>
            rbind (if null then Ok off
                   else if sint l \<ge> 0 then Ok (align_to off a + nat (sint l))
                   else rbind (decode_varlena lz4 data off toast) (\<lambda>(_, o'). Ok o')) (\<lambda>off'.
              decode_attrs lz4 toast natts hn bitmap data old pcs (i + 1) off' live_i)
        | Live c \<Rightarrow>
            if null then
              rbind (decode_attrs lz4 toast natts hn bitmap data old pcs (i + 1) off (live_i + 1)) (\<lambda>r. Ok (None # r))
            else
              rbind (column_context (decode_value lz4 data off (col_ty c) toast)) (\<lambda>(value, new_off).
              rbind (case value of
                       Some v \<Rightarrow> Ok v
                     | None \<Rightarrow> ok_or (old_value old live_i)
                         (Bail ''toast value has no buffered chunks and no previous row version'')) (\<lambda>v.
              rbind (decode_attrs lz4 toast natts hn bitmap data old pcs (i + 1) new_off (live_i + 1)) (\<lambda>r.
                Ok (Some v # r))))))"

definition decode_tuple_payload ::
  "decompressor \<Rightarrow> bytes \<Rightarrow> u16 \<Rightarrow> u16 \<Rightarrow> nat \<Rightarrow> TableDesc \<Rightarrow> ToastCache \<Rightarrow> Row option \<Rightarrow> (Row \<times> bytes) result" where
  "decode_tuple_payload lz4 tuple t_infomask2 t_infomask t_hoff desc toast old =
     (let natts = unat (t_infomask2 AND 0x07FF) in
      if natts > length (phys desc) then Err SchemaDrift
      else
        rbind (bits_len t_hoff) (\<lambda>n.
        if length tuple < n then Err (Bail ''tuple shorter than its null bitmap'')
        else
          rbind (decode_attrs lz4 toast natts (t_infomask AND HEAP_HASNULL \<noteq> 0) (take n tuple) (drop n tuple) old
                   (phys desc) 0 0 0) (\<lambda>row.
            Ok (row, drop n tuple))))"

definition decode_tuple_from_page ::
  "decompressor \<Rightarrow> bytes \<Rightarrow> u16 \<Rightarrow> TableDesc \<Rightarrow> ToastCache \<Rightarrow> (Row \<times> bytes) result" where
  "decode_tuple_from_page lz4 page offnum desc toast =
     rbind (tuple_on_page page offnum) (\<lambda>(payload, im2, im, hoff).
       decode_tuple_payload lz4 payload im2 im hoff desc toast None)"

definition decode_insert_tuple ::
  "decompressor \<Rightarrow> bytes \<Rightarrow> TableDesc \<Rightarrow> ToastCache \<Rightarrow> HeapFmt \<Rightarrow> (Row \<times> bytes) result" where
  "decode_insert_tuple lz4 block_data desc toast fmt =
     rbind (wal_heap_header block_data fmt) (\<lambda>(im2, im, hoff, hdr_len).
       decode_tuple_payload lz4 (drop hdr_len block_data) im2 im hoff desc toast None)"

text \<open>The optional length words at the front of an update's block data.\<close>

definition update_len :: "bytes \<Rightarrow> bool \<Rightarrow> nat \<Rightarrow> (nat \<times> nat) result" where
  "update_len block_data present off =
     (if \<not> present then Ok (0, off)
      else rbind (ok_or (get_range block_data off (off + 2)) (Bail ''truncated prefix or suffix len'')) (\<lambda>s.
        Ok (unat (from_le s :: u16), off + 2)))"

definition decode_update_new_tuple ::
  "decompressor \<Rightarrow> bytes \<Rightarrow> u8 \<Rightarrow> bytes option \<Rightarrow> Row option \<Rightarrow> TableDesc \<Rightarrow> ToastCache \<Rightarrow> HeapFmt \<Rightarrow>
   (Row \<times> bytes) result" where
  "decode_update_new_tuple lz4 block_data flags old_attrs old desc toast fmt =
     rbind (update_len block_data (flags AND XLH_UPDATE_PREFIX_FROM_OLD \<noteq> 0) 0) (\<lambda>(prefix, off1).
     rbind (update_len block_data (flags AND XLH_UPDATE_SUFFIX_FROM_OLD \<noteq> 0) off1) (\<lambda>(suffix, off2).
     rbind (wal_heap_header (drop off2 block_data) fmt) (\<lambda>(im2, im, hoff, hdr_len).
     let off = off2 + hdr_len in
     rbind (bits_len hoff) (\<lambda>n.
     rbind (ok_or (get_range block_data off (off + n)) (Bail ''update tuple shorter than its null bitmap'')) (\<lambda>bitmap.
     let partial = drop (off + n) block_data in
     rbind (if prefix = 0 \<and> suffix = 0 then Ok (drop off block_data)
            else
              rbind (ok_or old_attrs (Bail ''update shares bytes with an old tuple we do not have'')) (\<lambda>attrs.
              if prefix + suffix > length attrs then Err (Bail ''prefix and suffix exceed old tuple'')
              else Ok (bitmap @ take prefix attrs @ partial @ drop (length attrs - suffix) attrs))) (\<lambda>payload.
       decode_tuple_payload lz4 payload im2 im hoff desc toast old))))))"

text \<open>The loop over the tuples of a multi-insert, from offset \<open>off\<close>.\<close>

fun decode_multi_tuples ::
  "decompressor \<Rightarrow> bytes \<Rightarrow> TableDesc \<Rightarrow> ToastCache \<Rightarrow> nat \<Rightarrow> nat \<Rightarrow> (Row \<times> bytes) list result" where
  "decode_multi_tuples lz4 block_data desc toast 0 off0 = Ok []"
| "decode_multi_tuples lz4 block_data desc toast (Suc n) off0 =
     (let off = align_to off0 2 in
      rbind (ok_or (get_range block_data off (off + 7)) (Bail ''multi-insert truncated'')) (\<lambda>hdr.
      let datalen = unat (from_le (take 2 hdr) :: u16);
          im2 = from_le (take 2 (drop 2 hdr));
          im = from_le (take 2 (drop 4 hdr));
          hoff = unat (hdr ! 6)
      in rbind (ok_or (get_range block_data (off + 7) (off + 7 + datalen)) (Bail ''multi-insert tuple data truncated'')) (\<lambda>payload.
         rbind (decode_tuple_payload lz4 payload im2 im hoff desc toast None) (\<lambda>row.
         rbind (decode_multi_tuples lz4 block_data desc toast n (off + 7 + datalen)) (\<lambda>rows. Ok (row # rows))))))"

definition decode_multi_insert ::
  "decompressor \<Rightarrow> bytes \<Rightarrow> bytes \<Rightarrow> TableDesc \<Rightarrow> ToastCache \<Rightarrow> (Row \<times> bytes) list result" where
  "decode_multi_insert lz4 block_data main_data desc toast =
     (if length main_data < 4 then Err (Bail ''multi-insert main data too short'')
      else decode_multi_tuples lz4 block_data desc toast (unat (from_le (take 2 (drop 2 main_data)) :: u16)) 0)"

section \<open>Re-encoding a row\<close>

definition pad_put :: "bytes \<Rightarrow> nat \<Rightarrow> bytes \<Rightarrow> bytes" where
  "pad_put buf align bs = buf @ replicate (align_to (length buf) align - length buf) 0 @ bs"

definition encode_short_varlena :: "bytes \<Rightarrow> bytes \<Rightarrow> bytes option" where
  "encode_short_varlena buf payload =
     (if length payload > 126 then None
      else Some (buf @ [word_of_nat (push_bit 1 (length payload + 1) OR 1)] @ payload))"

text \<open>\<^verbatim>\<open>u8::from_str_radix(s, 16)\<close> on two characters; a leading plus sign is accepted.\<close>

definition hex_value :: "char \<Rightarrow> nat option" where
  "hex_value c =
     (let n = of_char c :: nat in
      if 48 \<le> n \<and> n \<le> 57 then Some (n - 48)
      else if 97 \<le> n \<and> n \<le> 102 then Some (n - 87)
      else if 65 \<le> n \<and> n \<le> 70 then Some (n - 55)
      else None)"

definition hex_pair :: "char \<Rightarrow> char \<Rightarrow> u8 option" where
  "hex_pair c d =
     (if c = CHR ''+'' then map_option word_of_nat (hex_value d)
      else Option.bind (hex_value c) (\<lambda>h. map_option (\<lambda>l. word_of_nat (16 * h + l)) (hex_value d)))"

text \<open>
  Pairs of characters of the hex text; a string slice that does not start or end on a character
  boundary panics.
\<close>

definition char_boundary :: "string \<Rightarrow> bool" where
  "char_boundary s \<longleftrightarrow> (case s of [] \<Rightarrow> True | c # _ \<Rightarrow> \<not> is_cont (word_of_nat (of_char c)))"

fun uuid_bytes :: "string \<Rightarrow> bytes option result" where
  "uuid_bytes (c # d # s) =
     (if \<not> char_boundary (c # d # s) \<or> \<not> char_boundary s then Err (Panic ''byte index is not a char boundary'')
      else case hex_pair c d of None \<Rightarrow> Ok None
      | Some b \<Rightarrow> rbind (uuid_bytes s) (\<lambda>r. Ok (map_option (\<lambda>bs. b # bs) r)))"
| "uuid_bytes s = Ok (Some [])"

fun encode_value :: "PgType \<Rightarrow> Value \<Rightarrow> bytes \<Rightarrow> bytes option result" where
  "encode_value Bool v buf =
     (case v of VBool b \<Rightarrow>
        Ok (Some (buf @ [if b then 1 else 0]))
      | _ \<Rightarrow> Ok None)"
| "encode_value Int2 v buf =
     (case v of VI16 x \<Rightarrow>
        Ok (Some (pad_put buf 2 (to_le x)))
      | _ \<Rightarrow> Ok None)"
| "encode_value Int4 v buf =
     (case v of VI32 x \<Rightarrow>
        Ok (Some (pad_put buf 4 (to_le x)))
      | _ \<Rightarrow> Ok None)"
| "encode_value Int8 v buf =
     (case v of VI64 x \<Rightarrow>
        Ok (Some (pad_put buf 8 (to_le x)))
      | _ \<Rightarrow> Ok None)"
| "encode_value Float4 v buf =
     (case v of VF32 x \<Rightarrow>
        Ok (Some (pad_put buf 4 (to_le x)))
      | _ \<Rightarrow> Ok None)"
| "encode_value Float8 v buf =
     (case v of VF64 x \<Rightarrow>
        Ok (Some (pad_put buf 8 (to_le x)))
      | _ \<Rightarrow> Ok None)"
| "encode_value Date v buf =
     (case v of VI32 x \<Rightarrow>
        rbind (checked_sub x PG_EPOCH_DAYS) (\<lambda>d. Ok (Some (pad_put buf 4 (to_le d))))
      | _ \<Rightarrow> Ok None)"
| "encode_value Timestamp v buf =
     (case v of VI64 x \<Rightarrow>
        rbind (checked_sub x PG_EPOCH_MICROS) (\<lambda>d. Ok (Some (pad_put buf 8 (to_le d))))
      | _ \<Rightarrow> Ok None)"
| "encode_value TimestampTz v buf =
     (case v of VI64 x \<Rightarrow>
        rbind (checked_sub x PG_EPOCH_MICROS) (\<lambda>d. Ok (Some (pad_put buf 8 (to_le d))))
      | _ \<Rightarrow> Ok None)"
| "encode_value Uuid v buf =
     (case v of VText t \<Rightarrow>
        let hex = filter (\<lambda>c. c \<noteq> CHR ''-'') t in
        if length hex \<noteq> 32 then Ok None
        else rbind (uuid_bytes hex) (\<lambda>r. Ok (map_option (\<lambda>bs. buf @ bs) r))
      | _ \<Rightarrow> Ok None)"
| "encode_value Text v buf =
     (case v of VText t \<Rightarrow>
        Ok (encode_short_varlena buf (as_bytes t))
      | _ \<Rightarrow> Ok None)"
| "encode_value Bytea v buf =
     (case v of VBytes b \<Rightarrow>
        Ok (encode_short_varlena buf b)
      | _ \<Rightarrow> Ok None)"
| "encode_value Numeric v buf =
     (case v of VText t \<Rightarrow>
        (case numeric_from_string t of
          Inl e \<Rightarrow> Ok None | Inr b \<Rightarrow> Ok (encode_short_varlena buf b))
      | _ \<Rightarrow> Ok None)"
| "encode_value Jsonb v buf = Ok None"

fun encode_cols :: "Col list \<Rightarrow> Row \<Rightarrow> bytes \<Rightarrow> bytes option result" where
  "encode_cols [] row buf = Ok (Some buf)"
| "encode_cols (c # cs) [] buf = Ok None"
| "encode_cols (c # cs) (None # row) buf = encode_cols cs row buf"
| "encode_cols (c # cs) (Some v # row) buf =
     rbind (encode_value (col_ty c) v buf) (\<lambda>r.
       case r of None \<Rightarrow> Ok None | Some buf' \<Rightarrow> encode_cols cs row buf')"

definition encode_attrs :: "Row \<Rightarrow> TableDesc \<Rightarrow> bytes option result" where
  "encode_attrs row desc = encode_cols (cols desc) row []"

section \<open>Encoding and decoding one value\<close>

lemma align_to_pos: "0 < a \<Longrightarrow> n \<le> align_to n a"
  by (simp add: align_to_def align_up_ge)

lemma align_to_1 [simp]: "align_to n (Suc 0) = n"
  by (simp add: align_to_def align_up_def)

lemma fixed_at:
  "0 < a \<Longrightarrow> length bs = n \<Longrightarrow>
   fixed n (pad_put buf a bs @ rest) (length buf) a = Ok (bs, length (pad_put buf a bs))"
  using align_to_pos [of a "length buf"]
  by (simp add: fixed_def pad_put_def Let_def get_range_def)

lemma short_header_byte:
  assumes "n \<le> 126"
  shows "(word_of_nat (push_bit 1 (n + 1) OR 1) :: u8) AND 1 = 1"
    and "unat (drop_bit 1 (word_of_nat (push_bit 1 (n + 1) OR 1) :: u8)) = n + 1"
    and "(word_of_nat (push_bit 1 (n + 1) OR 1) :: u8) \<noteq> 1"
proof -
  have e: "push_bit 1 (n + 1) OR 1 = 2 * n + 3"
    using nat_or_disjoint [of 1 1 "n + 1"] by (simp add: push_bit_eq_mult)
  have u: "unat (word_of_nat (2 * n + 3) :: u8) = 2 * n + 3"
    using assms by (intro unat_u8) simp
  show "(word_of_nat (push_bit 1 (n + 1) OR 1) :: u8) \<noteq> 1"
    unfolding e using u by (metis Suc_n_not_le_n add_leD2 unat_1 eval_nat_numeral(3) le_add2 numeral_2_eq_2 numeral_One one_le_numeral plus_1_eq_Suc)
  show "unat (drop_bit 1 (word_of_nat (push_bit 1 (n + 1) OR 1) :: u8)) = n + 1"
    unfolding e unsigned_drop_bit_eq u using assms by (simp add: drop_bit_eq_div take_bit_nat_eq_self)
  have "unat ((word_of_nat (2 * n + 3) :: u8) AND 1) = unat (1 :: u8)"
    unfolding unsigned_and_eq u by (simp add: and_one_eq)
  then show "(word_of_nat (push_bit 1 (n + 1) OR 1) :: u8) AND 1 = 1"
    unfolding e by (rule unsigned_word_eqI)
qed

lemma short_varlena_at:
  assumes "encode_short_varlena buf p = Some buf'"
  shows "decode_varlena lz4 (buf' @ rest) (length buf) toast = Ok (Some p, length buf')"
proof -
  let ?h = "word_of_nat (push_bit 1 (length p + 1) OR 1) :: u8"
  from assms have l: "length p \<le> 126" and b: "buf' = buf @ [?h] @ p"
    by (auto simp: encode_short_varlena_def split: if_splits)
  note h = short_header_byte [OF l]
  have "get (buf' @ rest) (length buf) = Some ?h"
    by (simp add: b get_def nth_append)
  moreover have "get_range (buf' @ rest) (length buf + 1) (length buf + (length p + 1)) = Some p"
    by (simp add: b get_range_def)
  ultimately show ?thesis
    using h b by (simp add: decode_varlena_def Let_def)
qed

text \<open>Values that a decoder produces: well-formed text, hyphenated lower-case uuids, canonical decimals.\<close>

fun canonical :: "PgType \<Rightarrow> Value \<Rightarrow> bool" where
  "canonical Text (VText t) = valid_utf8 (as_bytes t)"
| "canonical Uuid (VText t) =
     (case uuid_bytes (filter (\<lambda>c. c \<noteq> CHR ''-'') t) of Inr (Some bs) \<Rightarrow> length bs = 16 \<and> format_uuid bs = t | _ \<Rightarrow> False)"
| "canonical Numeric (VText t) = (rbind (numeric_from_string t) numeric_to_string = Ok t)"
| "canonical ty v = True"

lemma encode_value_extends: "encode_value ty v buf = Ok (Some buf') \<Longrightarrow> \<exists>ext. buf' = buf @ ext"
  by (cases ty; cases v)
    (auto simp: pad_put_def encode_short_varlena_def result_simps Let_def split: if_splits sum.splits)

lemma decode_encoded_value:
  assumes "encode_value ty v buf = Ok (Some buf')" and "canonical ty v"
  shows "decode_value lz4 (buf' @ rest) (length buf) ty toast = Ok (Some v, length buf')"
proof -
  have V: "varlena_value lz4 f (buf' @ rest) (length buf) toast = rbind (f p) (\<lambda>v. Ok (Some v, length buf'))"
    if "encode_short_varlena buf p = Some buf'" for p f
    by (simp add: varlena_value_def short_varlena_at [OF that])
  show ?thesis
    using assms
    by (cases ty; cases v)
      (auto simp: fixed_at V lossy_valid result_simps Let_def get_def get_range_def nth_append
        dest!: checked_sub_add split: sum.splits option.splits if_splits)
qed


section \<open>Rows\<close>

text \<open>Which physical attributes of a row are present.\<close>

fun present_bits :: "PhysCol list \<Rightarrow> Row \<Rightarrow> bool list" where
  "present_bits [] row = []"
| "present_bits (Dropped l a # ps) row = False # present_bits ps row"
| "present_bits (Live c # ps) row = (row \<noteq> [] \<and> hd row \<noteq> None) # present_bits ps (tl row)"

definition canonical_row :: "Col list \<Rightarrow> Row \<Rightarrow> bool" where
  "canonical_row cs row \<longleftrightarrow>
     length row = length cs \<and> list_all (\<lambda>(c, v). case v of None \<Rightarrow> True | Some x \<Rightarrow> canonical (col_ty c) x) (zip cs row)"

lemma canonical_row_Cons [simp]:
  "canonical_row (c # cs) (v # row) \<longleftrightarrow> (\<forall>x. v = Some x \<longrightarrow> canonical (col_ty c) x) \<and> canonical_row cs row"
  by (auto simp: canonical_row_def split: option.splits)

lemma encode_cols_extends: "encode_cols cs row buf = Ok (Some buf') \<Longrightarrow> \<exists>ext. buf' = buf @ ext"
  by (induction cs row buf rule: encode_cols.induct)
    (fastforce simp: result_simps dest: encode_value_extends split: option.splits)+

lemma decode_encoded_attrs:
  assumes "encode_cols (live_cols ps) row buf = Ok (Some final)"
    and "canonical_row (live_cols ps) row"
    and "\<And>k. k < length ps \<Longrightarrow> is_null hn bitmap (i + k) = Ok (\<not> present_bits ps row ! k)"
    and "i + length ps = natts"
  shows "decode_attrs lz4 toast natts hn bitmap (final @ rest) old ps i (length buf) live_i = Ok row"
  using assms
proof (induction ps arbitrary: row buf i live_i)
  case Nil
  then show ?case by (simp add: canonical_row_def)
next
  case (Cons p ps)
  have nulls: "is_null hn bitmap i = Ok (\<not> present_bits (p # ps) row ! 0)"
    using Cons.prems(3) [of 0] by simp
  have later: "is_null hn bitmap (i + 1 + k) = Ok (\<not> present_bits (p # ps) row ! Suc k)" if "k < length ps" for k
    using Cons.prems(3) [of "Suc k"] that by simp
  show ?case
  proof (cases p)
    case (Dropped l a)
    then show ?thesis
      using Cons.IH [of row buf "i + 1"] Cons.prems nulls later by simp
  next
    case (Live c)
    then obtain v row' where row: "row = v # row'"
      using Cons.prems(2) by (cases row) (auto simp: canonical_row_def)
    show ?thesis
    proof (cases v)
      case None
      then show ?thesis
        using Cons.IH [of row' buf "i + 1"] Cons.prems nulls later Live row by simp
    next
      case (Some x)
      from Cons.prems(1) Live row Some obtain buf' where
        b: "encode_value (col_ty c) x buf = Ok (Some buf')" "encode_cols (live_cols ps) row' buf' = Ok (Some final)"
        by (auto simp: result_simps split: option.splits)
      from encode_cols_extends [OF b(2)] obtain ext where ext: "final = buf' @ ext" by blast
      have "decode_value lz4 (final @ rest) (length buf) (col_ty c) toast = Ok (Some x, length buf')"
        using decode_encoded_value [OF b(1), of lz4 "ext @ rest"] Cons.prems(2) Live row Some ext by simp
      moreover have "decode_attrs lz4 toast natts hn bitmap (final @ rest) old ps (i + 1) (length buf') (live_i + 1) = Ok row'"
        using Cons.IH [of row' buf' "i + 1"] b(2) Cons.prems(2,4) later Live row Some by simp
      ultimately show ?thesis using Cons.prems(4) nulls Live row Some by simp
    qed
  qed
qed

text \<open>
  C17 (roundtrip): re-encoded rows decode to themselves. If a row of canonical values can be
  re-encoded, a tuple with those attribute bytes, a bitmap marking its null and dropped columns and
  the table's attribute count decodes to the row and hands back the same attribute bytes, whatever
  the toast cache and the previous version of the row are.
\<close>
theorem encode_attrs_roundtrip:
  assumes "encode_attrs row d = Ok (Some attrs)" and "desc_wf d" and "canonical_row (cols d) row"
    and "unat (im2 AND 0x7FF) = length (phys d)"
    and "\<And>k. k < length (phys d) \<Longrightarrow>
      is_null (im AND HEAP_HASNULL \<noteq> 0) bitmap k = Ok (\<not> present_bits (phys d) row ! k)"
  shows "decode_tuple_payload lz4 (bitmap @ attrs) im2 im (SIZEOF_HEAP_TUPLE_HEADER + length bitmap) d toast old =
    Ok (row, attrs)"
  using assms decode_encoded_attrs [of "phys d" row "[]" attrs _ bitmap 0 "length (phys d)" lz4 toast "[]" old 0]
  by (simp add: encode_attrs_def desc_wf_def decode_tuple_payload_def bits_len_def Let_def)

text \<open>
  Witness: a table with a dropped column, an \<open>int4\<close>, a null \<open>text\<close> and a \<open>bool\<close>.
\<close>

definition sample_desc :: TableDesc where
  "sample_desc =
     (let a = \<lparr>col_name = ''a'', col_ty = Int4\<rparr>; t = \<lparr>col_name = ''t'', col_ty = Text\<rparr>;
          b = \<lparr>col_name = ''b'', col_ty = Bool\<rparr>
      in \<lparr>td_name = ''t'', td_oid = 1, db_oid = 2, rel_node = 3, toast_rel_node = None,
          cols = [a, t, b], phys = [Live a, Dropped 4 4, Live t, Live b], has_fast_defaults = False, pk = [''a'']\<rparr>)"

lemma all_below_4: "(\<forall>k < 4. P k) \<longleftrightarrow> P 0 \<and> P 1 \<and> P 2 \<and> P (3 :: nat)"
  by (auto simp: less_Suc_eq eval_nat_numeral)

theorem encode_attrs_roundtrip_witness:
  "decode_tuple_payload (\<lambda>_ _. None) ([9] @ [5, 0, 0, 0, 1]) 4 1 24 sample_desc toast_default None =
    Ok ([Some (VI32 5), None, Some (VBool True)], [5, 0, 0, 0, 1])"
proof -
  have "\<forall>k < 4. is_null True [9] k = Ok (\<not> [True, False, False, True] ! k)"
    unfolding all_below_4 by (simp add: is_null_def index_def get_def push_bit_eq_mult)
  then have "is_null (1 AND HEAP_HASNULL \<noteq> 0) [9] k =
      Ok (\<not> present_bits (phys sample_desc) [Some (VI32 5), None, Some (VBool True)] ! k)"
    if "k < length (phys sample_desc)" for k
    using that by (simp add: sample_desc_def HEAP_HASNULL_def Let_def)
  then show ?thesis
    using encode_attrs_roundtrip [of "[Some (VI32 5), None, Some (VBool True)]" sample_desc "[5, 0, 0, 0, 1]" 4 1 "[9]"
        "\<lambda>_ _. None" toast_default None]
    by (simp add: Let_def sample_desc_def SIZEOF_HEAP_TUPLE_HEADER_def encode_attrs_def desc_wf_def canonical_row_def
        pad_put_def align_to_def align_up_def to_le_def le_bytes_4)
qed


section \<open>Updates and the two dialects\<close>

text \<open>
  The block data of an insert or update as the server logs it: an \<open>xl_heap_header\<close>, with the command
  id spliced in for the Neon dialect, and for an update the lengths of the shared prefix and suffix
  (if not zero) before it and the new attribute bytes without them after it.
\<close>

definition heap_hdr :: "HeapFmt \<Rightarrow> u32 \<Rightarrow> u16 \<Rightarrow> u16 \<Rightarrow> u8 \<Rightarrow> bytes" where
  "heap_hdr fmt cid im2 im hoff =
     to_le im2 @ to_le im @ (case fmt of Vanilla \<Rightarrow> [] | Neon \<Rightarrow> to_le cid) @ [hoff]"

definition update_flags :: "nat \<Rightarrow> nat \<Rightarrow> u8" where
  "update_flags p s = 0x10 OR (if p = 0 then 0 else XLH_UPDATE_PREFIX_FROM_OLD) OR (if s = 0 then 0 else XLH_UPDATE_SUFFIX_FROM_OLD)"

definition opt_len :: "nat \<Rightarrow> bytes" where
  "opt_len n = (if n = 0 then [] else to_le (word_of_nat n :: u16))"

definition log_update :: "HeapFmt \<Rightarrow> u32 \<Rightarrow> u16 \<Rightarrow> u16 \<Rightarrow> u8 \<Rightarrow> bytes \<Rightarrow> nat \<Rightarrow> nat \<Rightarrow> bytes \<Rightarrow> bytes" where
  "log_update fmt cid im2 im hoff bitmap p s attrs =
     opt_len p @ opt_len s @ heap_hdr fmt cid im2 im hoff @ bitmap @ take (length attrs - p - s) (drop p attrs)"

text \<open>Two attribute strings share a prefix of \<open>p\<close> and a suffix of \<open>s\<close> bytes.\<close>

definition shares :: "nat \<Rightarrow> nat \<Rightarrow> bytes \<Rightarrow> bytes \<Rightarrow> bool" where
  "shares p s old attrs \<longleftrightarrow> p + s \<le> length old \<and> p + s \<le> length attrs \<and> take p old = take p attrs \<and>
     drop (length old - s) old = drop (length attrs - s) attrs"

lemma heap_header_at:
  "wal_heap_header (heap_hdr fmt cid im2 im hoff @ rest) fmt =
     Ok (im2, im, unat hoff, length (heap_hdr fmt cid im2 im hoff))"
  by (cases fmt) (simp_all add: wal_heap_header_def heap_hdr_def get_range_def nth_append)

lemma update_len_at:
  assumes "n < 65536"
  shows "update_len (pre @ opt_len n @ rest) (n \<noteq> 0) (length pre) = Ok (n, length (pre @ opt_len n))"
  using assms by (simp add: update_len_def opt_len_def get_range_def unat_u16)

lemma update_flags_bits:
  "update_flags p s AND XLH_UPDATE_PREFIX_FROM_OLD \<noteq> 0 \<longleftrightarrow> p \<noteq> 0"
  "update_flags p s AND XLH_UPDATE_SUFFIX_FROM_OLD \<noteq> 0 \<longleftrightarrow> s \<noteq> 0"
  by (simp_all add: update_flags_def heap_consts)

lemma shared_parts:
  assumes "shares p s old attrs"
  shows "take p old @ take (length attrs - p - s) (drop p attrs) @ drop (length old - s) old = attrs"
proof -
  have "take (length attrs - p - s) (drop p attrs) @ drop (length attrs - s) attrs = drop p attrs"
  proof -
    have "drop (length attrs - s) attrs = drop (length attrs - p - s) (drop p attrs)"
      using assms by (simp add: shares_def)
    then show ?thesis by (simp only: append_take_drop_id)
  qed
  with assms show ?thesis by (simp add: shares_def)
qed

text \<open>
  C18 (functional): prefix- and suffix-compressed updates are rebuilt. For an update logged in
  either dialect with any shared prefix and suffix, decoding the block data against the old tuple's
  attribute bytes is decoding the complete new tuple; without sharing the old bytes are not needed.
\<close>
theorem update_new_tuple_rebuilt:
  assumes "p < 65536" and "s < 65536"
    and "p = 0 \<and> s = 0 \<or> (\<exists>old. old_attrs = Some old \<and> shares p s old attrs)"
    and "unat hoff = SIZEOF_HEAP_TUPLE_HEADER + length bitmap"
  shows "decode_update_new_tuple lz4 (log_update fmt cid im2 im hoff bitmap p s attrs) (update_flags p s)
      old_attrs old_row desc toast fmt =
    decode_tuple_payload lz4 (bitmap @ attrs) im2 im (unat hoff) desc toast old_row"
proof -
  let ?hdr = "heap_hdr fmt cid im2 im hoff" and ?mid = "take (length attrs - p - s) (drop p attrs)"
  let ?b = "log_update fmt cid im2 im hoff bitmap p s attrs" and ?o2 = "length (opt_len p @ opt_len s)"
  have u1: "update_len ?b (p \<noteq> 0) 0 = Ok (p, length (opt_len p))"
    using update_len_at [OF assms(1), of "[]"] by (simp add: log_update_def)
  have u2: "update_len ?b (s \<noteq> 0) (length (opt_len p)) = Ok (s, ?o2)"
    using update_len_at [OF assms(2), of "opt_len p"] by (simp add: log_update_def)
  have h: "wal_heap_header (drop ?o2 ?b) fmt = Ok (im2, im, unat hoff, length ?hdr)"
    using heap_header_at [of fmt cid im2 im hoff] by (simp add: log_update_def)
  have n: "bits_len (unat hoff) = Ok (length bitmap)"
    by (simp add: bits_len_def assms(4))
  have g: "get_range ?b (?o2 + length ?hdr) (?o2 + length ?hdr + length bitmap) = Some bitmap"
    "drop (?o2 + length ?hdr + length bitmap) ?b = ?mid" "drop (?o2 + length ?hdr) ?b = bitmap @ ?mid"
    by (simp_all add: log_update_def get_range_def)
  show ?thesis
  proof (cases "p = 0 \<and> s = 0")
    case True
    then show ?thesis
      unfolding decode_update_new_tuple_def update_flags_bits u1 rbind.simps split_conv u2 h n g Let_def ok_or.simps
      by simp
  next
    case False
    with assms(3) obtain old where old: "old_attrs = Some old" "shares p s old attrs" by blast
    then have "\<not> length old < p + s" by (simp add: shares_def)
    with False shared_parts [OF old(2)] show ?thesis
      unfolding decode_update_new_tuple_def update_flags_bits u1 rbind.simps split_conv u2 h n g Let_def ok_or.simps old(1)
      by simp
  qed
qed

theorem update_new_tuple_rebuilt_witness:
  "decode_update_new_tuple (\<lambda>_ _. None) (log_update Neon 77 4 1 24 [9] 1 1 [5, 2, 0, 0, 1]) (update_flags 1 1)
      (Some [5, 0, 0, 0, 1]) None sample_desc toast_default Neon =
    decode_tuple_payload (\<lambda>_ _. None) ([9] @ [5, 2, 0, 0, 1]) 4 1 24 sample_desc toast_default None"
  using update_new_tuple_rebuilt [of 1 1 "Some [5, 0, 0, 0, 1]" "[5, 2, 0, 0, 1]" 24 "[9]" "\<lambda>_ _. None" Neon 77 4 1
      None sample_desc toast_default]
  by (simp add: shares_def SIZEOF_HEAP_TUPLE_HEADER_def)

section \<open>Multi-inserts\<close>

text \<open>The tuples of a multi-insert as the server logs them: 2-byte aligned headers and payloads.\<close>

type_synonym multi_tuple = "u16 \<times> u16 \<times> u8 \<times> bytes"

fun log_tuple :: "bytes \<Rightarrow> multi_tuple \<Rightarrow> bytes" where
  "log_tuple buf (im2, im, hoff, payload) =
     pad_put buf 2 (to_le (word_of_nat (length payload) :: u16) @ to_le im2 @ to_le im @ [hoff]) @ payload"

definition log_multi :: "multi_tuple list \<Rightarrow> bytes" where
  "log_multi ts = foldl log_tuple [] ts"

lemma foldl_log_tuple_extends: "\<exists>ext. foldl log_tuple buf ts = buf @ ext"
proof (induction ts arbitrary: buf)
  case (Cons t ts)
  obtain e where "foldl log_tuple (log_tuple buf t) ts = log_tuple buf t @ e" using Cons by blast
  then show ?case by (cases t) (simp add: pad_put_def)
qed simp

fun decode_one :: "decompressor \<Rightarrow> TableDesc \<Rightarrow> ToastCache \<Rightarrow> multi_tuple \<Rightarrow> (Row \<times> bytes) result" where
  "decode_one lz4 desc toast (im2, im, hoff, payload) =
     decode_tuple_payload lz4 payload im2 im (unat hoff) desc toast None"

lemma multi_tuples_at:
  assumes "\<forall>(im2, im, hoff, payload) \<in> set ts. length payload < 65536"
  shows "decode_multi_tuples lz4 (foldl log_tuple buf ts) desc toast (length ts) (length buf) =
    rmap (decode_one lz4 desc toast) ts"
  using assms
proof (induction ts arbitrary: buf)
  case (Cons t ts)
  obtain im2 im hoff payload where t: "t = (im2, im, hoff, payload)" by (cases t)
  let ?hdr = "to_le (word_of_nat (length payload) :: u16) @ to_le im2 @ to_le im @ [hoff]"
  let ?off = "align_to (length buf) 2"
  have le: "length buf \<le> ?off" by (simp add: align_to_pos)
  have lt: "log_tuple buf t = buf @ replicate (?off - length buf) 0 @ ?hdr @ payload"
    by (simp add: t pad_put_def)
  from foldl_log_tuple_extends [of "log_tuple buf t" ts] obtain ext where
    ext: "foldl log_tuple buf (t # ts) = (buf @ replicate (?off - length buf) 0) @ ?hdr @ payload @ ext"
    using lt by auto
  have pre: "length (buf @ replicate (?off - length buf) 0) = ?off" using le by simp
  have g: "get_range (foldl log_tuple buf (t # ts)) ?off (?off + 7) = Some ?hdr"
    "get_range (foldl log_tuple buf (t # ts)) (?off + 7) (?off + 7 + length payload) = Some payload"
    unfolding ext get_range_def using pre by simp_all
  have len: "length (log_tuple buf t) = ?off + 7 + length payload" using lt le by simp
  have IH: "decode_multi_tuples lz4 (foldl log_tuple buf (t # ts)) desc toast (length ts) (?off + 7 + length payload) =
      rmap (decode_one lz4 desc toast) ts"
    using Cons.IH [of "log_tuple buf t"] Cons.prems len by simp
  have n: "unat (from_le (take 2 ?hdr) :: u16) = length payload"
    using Cons.prems by (simp add: t unat_u16)
  have f: "from_le (take 2 (drop 2 ?hdr)) = im2" "from_le (take 2 (drop 4 ?hdr)) = im" "?hdr ! 6 = hoff"
    by (simp_all add: nth_append)
  show ?case
    by (simp only: length_Cons decode_multi_tuples.simps Let_def g [unfolded t] ok_or.simps rbind.simps n f IH [unfolded t]
        rmap.simps decode_one.simps t)
qed simp

text \<open>
  Multi-inserts decode tuple by tuple. On the tuples as the server logs them, with
  a 2-byte boundary before each, the decoder returns the decoding of every tuple in order, or the
  first error; the offset numbers come from the same count in either dialect.
\<close>
theorem multi_insert_decodes_each:
  assumes "\<forall>(im2, im, hoff, payload) \<in> set ts. length payload < 65536" and "length ts < 65536"
    and "length offs = length ts" and "length pre = 2"
  shows "decode_multi_insert lz4 (log_multi ts) (pre @ to_le (word_of_nat (length ts) :: u16) @ tail) desc toast =
      rmap (decode_one lz4 desc toast) ts \<and>
    multi_insert_offsets (pre @ to_le (word_of_nat (length ts) :: u16) @
      (case fmt of Vanilla \<Rightarrow> [] | Neon \<Rightarrow> to_le (cid :: u32)) @ concat (map to_le offs)) 0 fmt = Ok offs"
proof
  have n: "unat (word_of_nat (length ts) :: u16) = length ts" using assms(2) by (simp add: unat_u16)
  show "decode_multi_insert lz4 (log_multi ts) (pre @ to_le (word_of_nat (length ts) :: u16) @ tail) desc toast =
      rmap (decode_one lz4 desc toast) ts"
    using multi_tuples_at [OF assms(1), of lz4 "[]"] assms(4) n by (simp add: decode_multi_insert_def log_multi_def)
  have c: "chunks_exact 2 (concat (map to_le offs)) = map to_le offs"
    by (rule chunks_exact_concat) auto
  have l: "length (concat (map to_le offs)) = 2 * length ts"
    using assms(3) by (simp add: length_concat comp_def sum_list_triv)
  show "multi_insert_offsets (pre @ to_le (word_of_nat (length ts) :: u16) @
      (case fmt of Vanilla \<Rightarrow> [] | Neon \<Rightarrow> to_le (cid :: u32)) @ concat (map to_le offs)) 0 fmt = Ok offs"
    using assms(4) n c l by (cases fmt) (simp_all add: multi_insert_offsets_def Let_def get_range_def comp_def)
qed

theorem multi_insert_decodes_each_witness:
  "decode_multi_insert (\<lambda>_ _. None) (log_multi [(4, 1, 24, [9, 5, 0, 0, 0, 1]), (4, 1, 24, [8, 1])])
      ([0, 0] @ to_le (word_of_nat 2 :: u16) @ []) sample_desc toast_default =
    rmap (decode_one (\<lambda>_ _. None) sample_desc toast_default) [(4, 1, 24, [9, 5, 0, 0, 0, 1]), (4, 1, 24, [8, 1])]"
  using multi_insert_decodes_each [of "[(4, 1, 24, [9, 5, 0, 0, 0, 1]), (4, 1, 24, [8, 1])]" "[1, 2]" "[0, 0]"
      "\<lambda>_ _. None" "[]" sample_desc toast_default]
  by simp

section \<open>Stale descriptors\<close>

lemma no_drift_items: "pglz_items src n c ks st \<noteq> Err SchemaDrift"
proof (induction ks arbitrary: st)
  case (Cons k ks)
  have "pglz_item src n c k st \<noteq> Err SchemaDrift"
    by (auto simp: pglz_item_def Let_def split: prod.splits)
  with Cons show ?case by (auto simp: result_simps)
qed simp

lemma no_drift_pglz: "pglz_decompress src n \<noteq> Err SchemaDrift"
proof -
  have "pglz_loop src n st \<noteq> Err SchemaDrift" for st
  proof (induction src n st rule: pglz_loop.induct)
    case (1 src n st)
    then show ?case
      by (subst pglz_loop.simps) (simp add: result_simps no_drift_items)
  qed
  then show ?thesis by (auto simp: pglz_decompress_def result_simps)
qed

lemma no_drift_decompress: "decompress_datum lz4 m p n \<noteq> Err SchemaDrift"
  using no_drift_pglz by (auto simp: decompress_datum_def lz4_decompress_def result_simps)

lemma no_drift_join: "join_chunks i cs \<noteq> Err SchemaDrift"
  by (induction i cs rule: join_chunks.induct) (auto simp: result_simps)

lemma no_drift_varlena: "decode_varlena lz4 data off toast \<noteq> Err SchemaDrift"
  using no_drift_decompress no_drift_join
  by (auto simp: decode_varlena_def decode_external_def decode_long_def toast_resolve_def raw_data_size_def
      result_simps Let_def split: if_splits)

lemma no_drift_column: "column_context r \<noteq> Err SchemaDrift"
  by (cases r rule: column_context.cases) auto

lemma no_drift_attrs: "decode_attrs lz4 toast natts hn bitmap data old ps i off live_i \<noteq> Err SchemaDrift"
proof (induction ps arbitrary: i off live_i)
  case (Cons p ps)
  then show ?case
    by (auto simp: result_simps is_null_def index_def no_drift_varlena no_drift_column
        split: PhysCol.splits if_splits option.splits)
qed simp

text \<open>
  C19 (error): schema drift is reported exactly for stale descriptors. Decoding a tuple, from any
  bytes, fails with the drift error if and only if the tuple has more attributes than the
  descriptor; no other failure is taken for drift and no drift is taken for another failure.
\<close>
theorem schema_drift_exact:
  "decode_tuple_payload lz4 tuple im2 im hoff desc toast old = Err SchemaDrift \<longleftrightarrow>
     length (phys desc) < unat (im2 AND 0x7FF)"
  using no_drift_attrs by (auto simp: decode_tuple_payload_def Let_def bits_len_def result_simps)

end
