(* ===== verification/Reconstruct.thy ===== *)
theory Reconstruct
  imports Heap
begin

text \<open>
  \<^verbatim>\<open>src/reconstruct.rs\<close>: rebuilding an 8 KB heap page from rows or from byte-exact
  tuples. One definition per function; the mutable page and the \<open>pd_upper\<close> cursor are passed
  explicitly. The properties are what the module promises: every line pointer resolves to its
  tuple, the tuples decode back to the rows they came from, byte-exact tuples are read back
  unchanged, and the checksum of the page verifies.
\<close>

section \<open>Constants\<close>

definition PAGE_SIZE :: nat where "PAGE_SIZE = 8192"
definition PAGE_HEADER_SIZE :: nat where "PAGE_HEADER_SIZE = 24"
definition ITEM_ID_SIZE :: nat where "ITEM_ID_SIZE = 4"
definition FROZEN_XID :: u32 where "FROZEN_XID = 2"
definition HEAP_HASVARWIDTH :: u16 where "HEAP_HASVARWIDTH = 0x0002"
definition HEAP_XMAX_INVALID :: u16 where "HEAP_XMAX_INVALID = 0x0800"
definition HEAP_XMIN_FROZEN :: u16 where "HEAP_XMIN_FROZEN = 0x0300"
definition HEAP_NATTS_MASK :: u16 where "HEAP_NATTS_MASK = 0x07FF"
definition HEAP_HOT_UPDATED :: u16 where "HEAP_HOT_UPDATED = 0x4000"
definition HEAP_ONLY_TUPLE :: u16 where "HEAP_ONLY_TUPLE = 0x8000"

lemmas page_sizes = PAGE_SIZE_def PAGE_HEADER_SIZE_def ITEM_ID_SIZE_def SIZEOF_HEAP_TUPLE_HEADER_def
lemmas infomask_bits = HEAP_HASNULL_def HEAP_HASVARWIDTH_def HEAP_XMAX_INVALID_def HEAP_XMIN_FROZEN_def
  HEAP_NATTS_MASK_def HEAP_HOT_UPDATED_def HEAP_ONLY_TUPLE_def

text \<open>\<^verbatim>\<open>(n + 7) & !7\<close> and \<^verbatim>\<open>n.div_ceil(8)\<close>\<close>

definition page_maxalign :: "nat \<Rightarrow> nat" where
  "page_maxalign n = align_up n 8"

definition div_ceil8 :: "nat \<Rightarrow> nat" where
  "div_ceil8 n = (n + 7) div 8"

section \<open>Tuples to place\<close>

record TupleSpec =
  ts_row :: Row
  ts_xmin :: u32
  ts_xmax :: u32
  ts_ctid :: "(u32 \<times> u16) option"
  ts_heap_only :: bool
  ts_hot_updated :: bool

definition frozen :: "Row \<Rightarrow> TupleSpec" where
  "frozen row = \<lparr>ts_row = row, ts_xmin = FROZEN_XID, ts_xmax = 0, ts_ctid = None, ts_heap_only = False,
     ts_hot_updated = False\<rparr>"

record RawTuple =
  rt_attrs :: bytes
  rt_null_bitmap :: bytes
  rt_natts :: u16
  rt_has_varwidth :: bool
  rt_xmin :: u32
  rt_xmax :: u32
  rt_ctid :: "(u32 \<times> u16) option"
  rt_heap_only :: bool
  rt_hot_updated :: bool

datatype Slot = Tuple TupleSpec | Raw RawTuple | Unused | Dead | Redirect u16

definition slot_live :: "Row \<Rightarrow> Slot" where
  "slot_live row = Tuple (frozen row)"

section \<open>Line pointers\<close>

record LinePointer =
  lpr_flags :: u8
  lpr_off :: u16
  lpr_len :: u16

definition line_pointer :: "bytes \<Rightarrow> u16 \<Rightarrow> LinePointer result" where
  "line_pointer page offnum =
     (if offnum = 0 then Err (Bail ''invalid offnum 0'')
      else
        let idx = PAGE_HEADER_SIZE + (unat offnum - 1) * ITEM_ID_SIZE in
        rbind (ok_or (get_range page idx (idx + 4)) (Bail ''offnum beyond pd_lower'')) (\<lambda>raw.
        let itemid = from_le raw :: u32 in
        Ok \<lparr>lpr_flags = ucast (drop_bit 15 itemid AND 3), lpr_off = ucast (itemid AND 0x7FFF),
            lpr_len = ucast (drop_bit 17 itemid)\<rparr>))"

text \<open>\<^verbatim>\<open>(bi_hi << 16) | bi_lo\<close> of a \<open>BlockIdData\<close> at byte \<open>o\<close> of a tuple.\<close>

definition block_id :: "bytes \<Rightarrow> u32" where
  "block_id t =
     push_bit 16 (ucast (from_le (take 2 (drop 12 t)) :: u16)) OR ucast (from_le (take 2 (drop 14 t)) :: u16)"

definition raw_from_page :: "bytes \<Rightarrow> u16 \<Rightarrow> RawTuple result" where
  "raw_from_page page offnum =
     rbind (line_pointer page offnum) (\<lambda>lp.
     if lpr_flags lp \<noteq> 1 then Err (Bail ''offnum is not LP_NORMAL'')
     else
       rbind (ok_or (get_range page (unat (lpr_off lp)) (unat (lpr_off lp) + unat (lpr_len lp)))
                (Bail ''tuple beyond page'')) (\<lambda>tup.
       if length tup < SIZEOF_HEAP_TUPLE_HEADER then Err (Bail ''tuple shorter than its header'')
       else
         let infomask2 = from_le (take 2 (drop 18 tup)) :: u16;
             infomask = from_le (take 2 (drop 20 tup)) :: u16;
             t_hoff = unat (tup ! 22);
             natts = infomask2 AND HEAP_NATTS_MASK;
             bitmap_len = (if infomask AND HEAP_HASNULL \<noteq> 0 then div_ceil8 (unat natts) else 0)
         in rbind (ok_or (get_range tup SIZEOF_HEAP_TUPLE_HEADER (SIZEOF_HEAP_TUPLE_HEADER + bitmap_len))
                     (Bail ''tuple shorter than its null bitmap'')) (\<lambda>null_bitmap.
            rbind (ok_or (get_range tup t_hoff (length tup)) (Bail ''t_hoff past tuple end'')) (\<lambda>attrs.
              Ok \<lparr>rt_attrs = attrs, rt_null_bitmap = null_bitmap, rt_natts = natts,
                  rt_has_varwidth = (infomask AND HEAP_HASVARWIDTH \<noteq> 0),
                  rt_xmin = from_le (take 4 tup), rt_xmax = from_le (take 4 (drop 4 tup)),
                  rt_ctid = Some (block_id tup, from_le (take 2 (drop 16 tup))),
                  rt_heap_only = (infomask2 AND HEAP_ONLY_TUPLE \<noteq> 0),
                  rt_hot_updated = (infomask2 AND HEAP_HOT_UPDATED \<noteq> 0)\<rparr>))))"

section \<open>Encoding tuples\<close>

definition infomask :: "u32 \<Rightarrow> u32 \<Rightarrow> bool \<Rightarrow> bool \<Rightarrow> u16" where
  "infomask xmin xmax has_nulls has_varwidth =
     (if xmax = 0 then HEAP_XMAX_INVALID else 0) OR (if xmin = FROZEN_XID then HEAP_XMIN_FROZEN else 0) OR
     (if has_nulls then HEAP_HASNULL else 0) OR (if has_varwidth then HEAP_HASVARWIDTH else 0)"

definition infomask2 :: "u16 \<Rightarrow> bool \<Rightarrow> bool \<Rightarrow> u16" where
  "infomask2 natts heap_only hot_updated =
     (natts AND HEAP_NATTS_MASK) OR (if heap_only then HEAP_ONLY_TUPLE else 0) OR
     (if hot_updated then HEAP_HOT_UPDATED else 0)"

text \<open>The 23 fixed bytes; \<open>t_field3\<close> (bytes 8 to 11) stays zero.\<close>

definition heap_header :: "u32 \<Rightarrow> u32 \<Rightarrow> u32 \<Rightarrow> u16 \<Rightarrow> u16 \<Rightarrow> u16 \<Rightarrow> u8 \<Rightarrow> bytes" where
  "heap_header xmin xmax ctid_block ctid_off im2 im t_hoff =
     to_le xmin @ to_le xmax @ [0, 0, 0, 0] @ to_le (ucast (drop_bit 16 ctid_block) :: u16) @
     to_le (ucast (ctid_block AND 0xFFFF) :: u16) @ to_le ctid_off @ to_le im2 @ to_le im @ [t_hoff]"

text \<open>Setting the present bits of the physical attributes, \<open>spec.row[live_i]\<close> indexing checked.\<close>

fun set_bits :: "PhysCol list \<Rightarrow> Row \<Rightarrow> nat \<Rightarrow> nat \<Rightarrow> bytes \<Rightarrow> bytes result" where
  "set_bits [] row i live_i tup = Ok tup"
| "set_bits (Dropped l a # ps) row i live_i tup = set_bits ps row (i + 1) live_i tup"
| "set_bits (Live c # ps) row i live_i tup =
     rbind (index row live_i) (\<lambda>v.
       let k = SIZEOF_HEAP_TUPLE_HEADER + i div 8;
           tup' = (if v \<noteq> None then tup[k := tup ! k OR push_bit (i mod 8) 1] else tup)
       in set_bits ps row (i + 1) (live_i + 1) tup')"

definition is_dropped :: "PhysCol \<Rightarrow> bool" where
  "is_dropped p = (case p of Dropped _ _ \<Rightarrow> True | Live _ \<Rightarrow> False)"

definition encode_tuple :: "TableDesc \<Rightarrow> u32 \<Rightarrow> u16 \<Rightarrow> TupleSpec \<Rightarrow> bytes result" where
  "encode_tuple desc block offnum spec =
     (if length (ts_row spec) \<noteq> length (cols desc) then Err (Bail ''reconstruct: wrong number of values'')
      else
        rbind (encode_attrs (ts_row spec) desc) (\<lambda>r.
        rbind (ok_or r (Bail ''reconstruct: row not encodable on-page'')) (\<lambda>attrs.
        let natts = length (phys desc);
            has_nulls = (list_ex is_dropped (phys desc) \<or> None \<in> set (ts_row spec));
            bitmap_len = (if has_nulls then div_ceil8 natts else 0);
            t_hoff = page_maxalign (SIZEOF_HEAP_TUPLE_HEADER + bitmap_len);
            has_varwidth = list_ex (\<lambda>(c, v). v \<noteq> None \<and> (col_ty c = Text \<or> col_ty c = Bytea))
                             (zip (cols desc) (ts_row spec));
            im2 = infomask2 (word_of_nat natts) (ts_heap_only spec) (ts_hot_updated spec);
            im = infomask (ts_xmin spec) (ts_xmax spec) has_nulls has_varwidth;
            ctid = (case ts_ctid spec of Some c \<Rightarrow> c | None \<Rightarrow> (block, offnum));
            tup = put (replicate t_hoff 0) 0
                    (heap_header (ts_xmin spec) (ts_xmax spec) (fst ctid) (snd ctid) im2 im (word_of_nat t_hoff))
        in rbind (if has_nulls then set_bits (phys desc) (ts_row spec) 0 0 tup else Ok tup) (\<lambda>tup'.
             Ok (tup' @ attrs)))))"

definition encode_raw_tuple :: "u32 \<Rightarrow> u16 \<Rightarrow> RawTuple \<Rightarrow> bytes result" where
  "encode_raw_tuple block offnum rt =
     (let has_nulls = (rt_null_bitmap rt \<noteq> []);
          expected = (if has_nulls then div_ceil8 (unat (rt_natts rt)) else 0)
      in if length (rt_null_bitmap rt) \<noteq> expected then Err (Bail ''reconstruct: raw null bitmap length'')
         else
           let t_hoff = page_maxalign (SIZEOF_HEAP_TUPLE_HEADER + length (rt_null_bitmap rt));
               im2 = infomask2 (rt_natts rt) (rt_heap_only rt) (rt_hot_updated rt);
               im = infomask (rt_xmin rt) (rt_xmax rt) has_nulls (rt_has_varwidth rt);
               ctid = (case rt_ctid rt of Some c \<Rightarrow> c | None \<Rightarrow> (block, offnum));
               hdr = heap_header (rt_xmin rt) (rt_xmax rt) (fst ctid) (snd ctid) im2 im (word_of_nat t_hoff)
           in Ok (put (put (replicate t_hoff 0) 0 hdr) SIZEOF_HEAP_TUPLE_HEADER (rt_null_bitmap rt) @ rt_attrs rt))"

section \<open>The page\<close>

definition place_tuple :: "bytes \<Rightarrow> nat \<Rightarrow> nat \<Rightarrow> bytes \<Rightarrow> (u32 \<times> bytes \<times> nat) result" where
  "place_tuple page pd_upper pd_lower tup =
     (let slot_size = page_maxalign (length tup) in
      if pd_upper < pd_lower + slot_size then Err (Bail ''reconstruct: page overflow'')
      else
        let pd_upper' = pd_upper - slot_size in
        Ok (word_of_nat pd_upper' OR push_bit 15 1 OR push_bit 17 (word_of_nat (length tup)),
            put page pd_upper' tup, pd_upper'))"

fun place_slot :: "TableDesc \<Rightarrow> u32 \<Rightarrow> nat \<Rightarrow> u16 \<Rightarrow> Slot \<Rightarrow> bytes \<Rightarrow> nat \<Rightarrow> (u32 \<times> bytes \<times> nat) result" where
  "place_slot desc block pd_lower offnum Unused page pd_upper = Ok (0, page, pd_upper)"
| "place_slot desc block pd_lower offnum Dead page pd_upper = Ok (push_bit 15 3, page, pd_upper)"
| "place_slot desc block pd_lower offnum (Redirect target) page pd_upper =
     (if target = 0 then Err (Bail ''reconstruct: LP_REDIRECT target offnum must be > 0'')
      else Ok (ucast target OR push_bit 15 2, page, pd_upper))"
| "place_slot desc block pd_lower offnum (Tuple spec) page pd_upper =
     rbind (encode_tuple desc block offnum spec) (place_tuple page pd_upper pd_lower)"
| "place_slot desc block pd_lower offnum (Raw rt) page pd_upper =
     rbind (encode_raw_tuple block offnum rt) (place_tuple page pd_upper pd_lower)"

fun build_slots :: "TableDesc \<Rightarrow> u32 \<Rightarrow> nat \<Rightarrow> nat \<Rightarrow> Slot list \<Rightarrow> bytes \<times> nat \<Rightarrow> (bytes \<times> nat) result" where
  "build_slots desc block pd_lower i [] st = Ok st"
| "build_slots desc block pd_lower i (s # ss) (page, pd_upper) =
     rbind (place_slot desc block pd_lower (word_of_nat (i + 1)) s page pd_upper) (\<lambda>(itemid, page', pd_upper').
       build_slots desc block pd_lower (i + 1) ss
         (put page' (PAGE_HEADER_SIZE + i * ITEM_ID_SIZE) (to_le itemid), pd_upper'))"

definition write_page_header :: "bytes \<Rightarrow> u64 \<Rightarrow> u16 \<Rightarrow> u16 \<Rightarrow> bytes" where
  "write_page_header page lsn pd_lower pd_upper =
     put (put (put page 0 (to_le (ucast (drop_bit 32 lsn) :: u32) @ to_le (ucast lsn :: u32)))
       12 (to_le pd_lower @ to_le pd_upper)) 16 (to_le (8192 :: u16) @ to_le ((8192 :: u16) OR 4))"

section \<open>Checksum\<close>

definition CHECKSUM_BASE_OFFSETS :: "u32 list" where
  "CHECKSUM_BASE_OFFSETS = [
    0x5B1F36E9, 0xB8525960, 0x02AB50AA, 0x1DE66D2A, 0x79FF467A, 0x9BB9F8A3, 0x217E7CD2,
    0x83E13D2C, 0xF8D4474F, 0xE39EB970, 0x42C6AE16, 0x993216FA, 0x7B093B5D, 0x98DAFF3C,
    0xF718902A, 0x0B1C9CDB, 0xE58F764B, 0x187636BC, 0x5D7B3BB1, 0xE73DE7DE, 0x92BEC979,
    0xCCA6C0B2, 0x304A0979, 0x85AA43D4, 0x783125BB, 0x6CA8EAA2, 0xE407EAC6, 0x4B5CFC3E,
    0x9FBF8C76, 0x15CA20BE, 0xF2CA9FD3, 0x959BD756]"

definition FNV_PRIME :: u32 where "FNV_PRIME = 16777619"

definition checksum_comp :: "u32 \<Rightarrow> u32 \<Rightarrow> u32" where
  "checksum_comp s v = (let tmp = s XOR v in (tmp * FNV_PRIME) XOR drop_bit 17 tmp)"

definition page_word :: "bytes \<Rightarrow> nat \<Rightarrow> u32" where
  "page_word page k = from_le (take 4 (drop (4 * k) page))"

definition pg_checksum_block :: "bytes \<Rightarrow> u32" where
  "pg_checksum_block page =
     (let sums1 = foldl (\<lambda>sums i. map (\<lambda>j. checksum_comp (sums ! j) (page_word page (i * 32 + j))) [0..<32])
                    CHECKSUM_BASE_OFFSETS [0..<64];
          sums2 = map (\<lambda>s. checksum_comp (checksum_comp s 0) 0) sums1
      in foldl (\<lambda>acc s. acc XOR s) 0 sums2)"

definition pg_checksum_page :: "bytes \<Rightarrow> u32 \<Rightarrow> u16 result" where
  "pg_checksum_page page blkno =
     (if length page < PAGE_SIZE then Err (Panic ''index out of bounds'')
      else
        let buf = page[8 := 0, 9 := 0];
            checksum = pg_checksum_block buf XOR blkno
        in Ok (ucast (checksum mod 65535 + 1)))"

definition build_page :: "TableDesc \<Rightarrow> u32 \<Rightarrow> u64 \<Rightarrow> Slot list \<Rightarrow> bytes result" where
  "build_page desc block lsn slots =
     (let pd_lower = PAGE_HEADER_SIZE + length slots * ITEM_ID_SIZE in
      if pd_lower > PAGE_SIZE then Err (Bail ''reconstruct: line pointers overflow the page'')
      else
        rbind (build_slots desc block pd_lower 0 slots (replicate PAGE_SIZE 0, PAGE_SIZE)) (\<lambda>(page, pd_upper).
        let page' = write_page_header page lsn (word_of_nat pd_lower) (word_of_nat pd_upper) in
        rbind (pg_checksum_page page' block) (\<lambda>checksum.
          Ok (put page' 8 (to_le checksum)))))"

section \<open>Item identifiers\<close>

lemma unat_item_id:
  assumes "off < 2 ^ 15" and "len < 2 ^ 15" and "f < 4"
  shows "unat (word_of_nat off OR push_bit 15 (word_of_nat f) OR push_bit 17 (word_of_nat len) :: u32) = (len * 4 + f) * 2 ^ 15 + off"
proof -
  have u: "unat (word_of_nat off :: u32) = off"
    "unat (push_bit 15 (word_of_nat f) :: u32) = push_bit 15 f"
    "unat (push_bit 17 (word_of_nat len) :: u32) = push_bit 17 len"
    unfolding push_bit_of_nat using assms by (intro unat_u32; simp add: push_bit_eq_mult)+
  have "push_bit 17 len OR push_bit 15 f = push_bit 17 len + push_bit 15 f"
    using assms by (intro nat_or_disjoint) (simp add: push_bit_eq_mult)
  also have "\<dots> = push_bit 15 (len * 4 + f)" by (simp add: push_bit_eq_mult)
  finally have "push_bit 17 len OR push_bit 15 f OR off = push_bit 15 (len * 4 + f) + off"
    using nat_or_disjoint [OF assms(1), of "len * 4 + f"] by (simp add: or.assoc [symmetric])
  then show ?thesis
    unfolding unsigned_or_eq u by (simp only: push_bit_eq_mult or.assoc or.commute or.left_commute)
qed

lemma item_id_fields:
  assumes "unat (w :: u32) = (len * 4 + f) * 2 ^ 15 + off" and "off < 2 ^ 15" and "f < 4"
  shows "unat (w AND 0x7FFF) = off" and "drop_bit 15 w AND 3 = word_of_nat f" and "unat (drop_bit 17 w) = len"
proof -
  have m15: "w AND 0x7FFF = take_bit 15 w" and m2: "v AND 3 = take_bit 2 v" for v :: u32
    by (simp_all add: take_bit_eq_mask mask_eq_exp_minus_1)
  show "unat (w AND 0x7FFF) = off"
    unfolding m15 unsigned_take_bit_eq assms(1) using assms(2) by (simp only: take_bit_eq_mod mod_mult_self3) simp
  have d: "unat (drop_bit n w) = unat w div 2 ^ n" for n
    unfolding unsigned_drop_bit_eq using unsigned_less [of w, where ?'a = nat]
    by (simp add: drop_bit_eq_div take_bit_nat_eq_self)
  show "unat (drop_bit 17 w) = len"
    unfolding d assms(1) using assms(2,3) by simp
  have "unat (drop_bit 15 w AND 3) = ((len * 4 + f) * 2 ^ 15 + off) div 2 ^ 15 mod 4"
    unfolding m2 unsigned_take_bit_eq d assms(1) by (simp add: take_bit_eq_mod)
  also have "((len * 4 + f) * 2 ^ 15 + off) div 2 ^ 15 = len * 4 + f"
    using assms(2) by simp
  also have "(len * 4 + f) mod 4 = f" using assms(3) by simp
  finally have "unat (drop_bit 15 w AND 3) = f" .
  from arg_cong [OF this, of "word_of_nat :: nat \<Rightarrow> u32"] show "drop_bit 15 w AND 3 = word_of_nat f" by simp
qed

section \<open>What placing slots keeps\<close>

lemma place_tuple_Ok:
  assumes "place_tuple page u lo tup = Ok (w, page', u')" and "length page = PAGE_SIZE" and "u \<le> PAGE_SIZE"
  shows "u' + length tup \<le> u" and "lo \<le> u'" and "page' = put page u' tup" and "length page' = PAGE_SIZE"
    and "unat w = (length tup * 4 + 1) * 2 ^ 15 + u'"
proof -
  have ge: "length tup \<le> page_maxalign (length tup)" by (simp add: page_maxalign_def align_up_ge)
  from assms(1) have c: "lo + page_maxalign (length tup) \<le> u" "u' = u - page_maxalign (length tup)" "page' = put page u' tup"
    "w = word_of_nat u' OR push_bit 15 1 OR push_bit 17 (word_of_nat (length tup))"
    by (auto simp: place_tuple_def Let_def split: if_splits)
  then show "u' + length tup \<le> u" "lo \<le> u'" "page' = put page u' tup" using ge by linarith+
  then show "length page' = PAGE_SIZE" using assms(2,3) by simp
  have "u' < 2 ^ 15" "length tup < 2 ^ 15"
    using \<open>u' + length tup \<le> u\<close> assms(3) by (simp_all add: PAGE_SIZE_def)
  then show "unat w = (length tup * 4 + 1) * 2 ^ 15 + u'"
    using unat_item_id [of u' "length tup" 1] c(4) by simp
qed

lemma length_heap_header [simp]: "length (heap_header xmin xmax b off im2 im hoff) = 23"
  by (simp add: heap_header_def)

lemma page_maxalign_ge: "n \<le> page_maxalign n"
  by (simp add: page_maxalign_def align_up_ge)

lemma length_set_bits: "set_bits ps row i live_i tup = Ok tup' \<Longrightarrow> length tup' = length tup"
  by (induction ps row i live_i tup rule: set_bits.induct) (auto simp: result_simps Let_def split: if_splits)

lemma hoff_ge: "23 \<le> page_maxalign (SIZEOF_HEAP_TUPLE_HEADER + n)"
  using page_maxalign_ge [of "SIZEOF_HEAP_TUPLE_HEADER + n"] by (simp add: SIZEOF_HEAP_TUPLE_HEADER_def)

lemma encode_tuple_length: "encode_tuple desc block offnum spec = Ok tup \<Longrightarrow> 23 \<le> length tup"
  using hoff_ge [of 0] hoff_ge [of "div_ceil8 (length (phys desc))"]
  by (auto simp: encode_tuple_def result_simps Let_def dest!: length_set_bits split: if_splits)

lemma encode_raw_tuple_length: "encode_raw_tuple block offnum rt = Ok tup \<Longrightarrow> 23 \<le> length tup"
proof -
  assume "encode_raw_tuple block offnum rt = Ok tup"
  then have "page_maxalign (SIZEOF_HEAP_TUPLE_HEADER + length (rt_null_bitmap rt)) + length (rt_attrs rt) = length tup"
    using hoff_ge [of "length (rt_null_bitmap rt)"] page_maxalign_ge [of "SIZEOF_HEAP_TUPLE_HEADER + length (rt_null_bitmap rt)"]
    by (auto simp: encode_raw_tuple_def Let_def split: if_splits prod.splits)
  with hoff_ge [of "length (rt_null_bitmap rt)"] show ?thesis by linarith
qed

text \<open>A line pointer and its tuple, and what a page holds at slot \<open>i\<close>.\<close>

abbreviation item_bytes :: "bytes \<Rightarrow> nat \<Rightarrow> bytes option" where
  "item_bytes page i \<equiv> get_range page (24 + 4 * i) (28 + 4 * i)"

definition holds_tuple :: "bytes \<Rightarrow> nat \<Rightarrow> nat \<Rightarrow> bytes \<Rightarrow> bool" where
  "holds_tuple page lo i tup \<longleftrightarrow>
     (\<exists>off w. item_bytes page i = Some (to_le (w :: u32)) \<and> unat w = (length tup * 4 + 1) * 2 ^ 15 + off \<and>
        lo \<le> off \<and> off + length tup \<le> PAGE_SIZE \<and> get_range page off (off + length tup) = Some tup)"

fun slot_held :: "TableDesc \<Rightarrow> u32 \<Rightarrow> nat \<Rightarrow> bytes \<Rightarrow> nat \<Rightarrow> Slot \<Rightarrow> bool" where
  "slot_held desc block lo page i Unused = (item_bytes page i = Some (to_le (0 :: u32)))"
| "slot_held desc block lo page i Dead = (item_bytes page i = Some (to_le (push_bit 15 3 :: u32)))"
| "slot_held desc block lo page i (Redirect t) =
     (t \<noteq> 0 \<and> item_bytes page i = Some (to_le (ucast t OR push_bit 15 2 :: u32)))"
| "slot_held desc block lo page i (Tuple spec) =
     (\<exists>tup. encode_tuple desc block (word_of_nat (i + 1)) spec = Ok tup \<and> holds_tuple page lo i tup)"
| "slot_held desc block lo page i (Raw rt) =
     (\<exists>tup. encode_raw_tuple block (word_of_nat (i + 1)) rt = Ok tup \<and> holds_tuple page lo i tup)"

definition agree_outside :: "nat \<Rightarrow> nat \<Rightarrow> bytes \<Rightarrow> bytes \<Rightarrow> bool" where
  "agree_outside lo hi page page' \<longleftrightarrow> (\<forall>a b. hi \<le> a \<or> b \<le> lo \<longrightarrow> get_range page' a b = get_range page a b)"

lemma place_slot_held:
  assumes "place_slot desc block lo (word_of_nat (i + 1)) s page u = Ok (w, page1, u')"
    and "page' = put page1 (24 + 4 * i) (to_le w)"
    and "length page = PAGE_SIZE" and "lo \<le> u" and "u \<le> PAGE_SIZE" and "28 + 4 * i \<le> lo"
  shows "slot_held desc block u' page' i s \<and> lo \<le> u' \<and> u' \<le> u \<and> length page' = PAGE_SIZE \<and>
    agree_outside (24 + 4 * i) u page page'"
proof -
  have item: "item_bytes (put page1 (24 + 4 * i) (to_le w)) i = Some (to_le w)" if "length page1 = PAGE_SIZE"
    using that assms(4-6) by (intro get_range_put_same) simp_all
  have kept: "get_range page' a b = get_range page1 a b"
    if "lo \<le> a \<or> b \<le> 24 + 4 * i" "length page1 = PAGE_SIZE" for a b
    using that assms(4-6) unfolding assms(2) by (auto simp: get_range_put_before get_range_put_after)
  have plain: ?thesis if "page1 = page" "u' = u" "slot_held desc block u' page' i s"
    using that kept assms(2-6) by (auto simp: agree_outside_def)
  have placed: "holds_tuple page' u' i tup \<and> lo \<le> u' \<and> u' \<le> u \<and> length page' = PAGE_SIZE \<and>
      agree_outside (24 + 4 * i) u page page'"
    if t: "place_tuple page u lo tup = Ok (w, page1, u')" "23 \<le> length tup" for tup
  proof -
    note P = place_tuple_Ok [OF t(1) assms(3,5)]
    have p: "u' + length tup \<le> u" "lo \<le> u'" "page1 = put page u' tup" "length page1 = PAGE_SIZE"
      "unat w = (length tup * 4 + 1) * 2 ^ 15 + u'" using P by auto
    have "get_range page1 u' (u' + length tup) = Some tup"
      unfolding p(3) using p(1) assms(3,5) by (intro get_range_put_same) auto
    then have "holds_tuple page' u' i tup"
      unfolding holds_tuple_def
      using item [OF p(4)] kept [OF _ p(4), of u' "u' + length tup"] p assms(2,5) by (intro exI [of _ u'] exI [of _ w]) auto
    moreover have "get_range page1 a b = get_range page a b" if "u \<le> a \<or> b \<le> 24 + 4 * i" for a b
      unfolding p(3) using that p(1,2) assms(3,5,6) by (auto simp: get_range_put_before get_range_put_after)
    then have "agree_outside (24 + 4 * i) u page page'"
      using kept [OF _ p(4)] assms(4) by (auto simp: agree_outside_def)
    moreover have "length page' = PAGE_SIZE" using assms(2,4-6) p(4) by simp
    ultimately show ?thesis using p by linarith
  qed
  show ?thesis
  proof (cases s)
    case (Tuple spec)
    with assms(1) obtain tup where "encode_tuple desc block (word_of_nat (i + 1)) spec = Ok tup"
      "place_tuple page u lo tup = Ok (w, page1, u')" by (auto simp: result_simps)
    then show ?thesis using placed encode_tuple_length Tuple by auto
  next
    case (Raw rt)
    with assms(1) obtain tup where "encode_raw_tuple block (word_of_nat (i + 1)) rt = Ok tup"
      "place_tuple page u lo tup = Ok (w, page1, u')" by (auto simp: result_simps)
    then show ?thesis using placed encode_raw_tuple_length Raw by auto
  qed (use assms(1-3) plain item in \<open>auto split: if_splits\<close>)
qed


lemma holds_tuple_kept:
  assumes "holds_tuple page lo i tup" and "lo' \<le> lo" and "item_bytes page' i = item_bytes page i"
    and same: "\<And>a b. lo \<le> a \<Longrightarrow> get_range page' a b = get_range page a b"
  shows "holds_tuple page' lo' i tup"
proof -
  from assms(1) obtain off w where "item_bytes page i = Some (to_le (w :: u32))"
    "unat w = (length tup * 4 + 1) * 2 ^ 15 + off" "lo \<le> off" "off + length tup \<le> PAGE_SIZE"
    "get_range page off (off + length tup) = Some tup"
    unfolding holds_tuple_def by blast
  with assms(2,3) same [of off "off + length tup"] show ?thesis
    unfolding holds_tuple_def by (intro exI [of _ off] exI [of _ w]) simp
qed

lemma slot_held_kept:
  assumes "slot_held desc block lo page i s" and "lo' \<le> lo" and "item_bytes page' i = item_bytes page i"
    and "\<And>a b. lo \<le> a \<Longrightarrow> get_range page' a b = get_range page a b"
  shows "slot_held desc block lo' page' i s"
  using assms(1,3) holds_tuple_kept [OF _ assms(2-4)] by (cases s) auto

lemma agree_outside_trans:
  "agree_outside lo hi p p' \<Longrightarrow> agree_outside lo' hi' p' p'' \<Longrightarrow> lo \<le> lo' \<Longrightarrow> hi' \<le> hi \<Longrightarrow> agree_outside lo hi p p''"
  by (auto simp: agree_outside_def)

lemma build_slots_held:
  assumes "build_slots desc block lo i ss (page, u) = Ok (page', u')"
    and "length page = PAGE_SIZE" and "lo \<le> u" and "u \<le> PAGE_SIZE" and "24 + 4 * (i + length ss) \<le> lo"
  shows "lo \<le> u' \<and> u' \<le> u \<and> length page' = PAGE_SIZE \<and> agree_outside (24 + 4 * i) u page page' \<and>
    (\<forall>k < length ss. slot_held desc block u' page' (i + k) (ss ! k))"
  using assms
proof (induction ss arbitrary: i page u)
  case Nil
  then show ?case by (simp add: agree_outside_def)
next
  case (Cons s ss)
  from Cons.prems(1) obtain w page1 u1 where
    p: "place_slot desc block lo (word_of_nat (i + 1)) s page u = Ok (w, page1, u1)"
      "build_slots desc block lo (i + 1) ss (put page1 (24 + 4 * i) (to_le w), u1) = Ok (page', u')"
    by (auto simp: result_simps page_sizes mult.commute)
  let ?page1 = "put page1 (24 + 4 * i) (to_le w)"
  have H: "slot_held desc block u1 ?page1 i s" "lo \<le> u1" "u1 \<le> u" "length ?page1 = PAGE_SIZE"
    "agree_outside (24 + 4 * i) u page ?page1"
    using place_slot_held [OF p(1) refl Cons.prems(2-4)] Cons.prems(5) by auto
  have I: "lo \<le> u'" "u' \<le> u1" "length page' = PAGE_SIZE" "agree_outside (24 + 4 * (i + 1)) u1 ?page1 page'"
    "\<forall>k < length ss. slot_held desc block u' page' (i + 1 + k) (ss ! k)"
    using Cons.IH [OF p(2) H(4,2)] H(3) Cons.prems(4,5) by auto
  have "slot_held desc block u' page' i s"
    using I(4) by (intro slot_held_kept [OF H(1) I(2)]) (auto simp: agree_outside_def)
  then have "\<forall>k < length (s # ss). slot_held desc block u' page' (i + k) ((s # ss) ! k)"
    using I(5) by (auto simp: less_Suc_eq_0_disj)
  moreover have "agree_outside (24 + 4 * i) u page page'"
    using agree_outside_trans [OF H(5) I(4)] H(3) by simp
  ultimately show ?case using H(3) I(1-3) by auto
qed

text \<open>The finished page: header and checksum do not touch line pointers or tuples.\<close>

lemma write_page_header_props:
  assumes "length page = PAGE_SIZE"
  shows "length (write_page_header page lsn lo u) = PAGE_SIZE"
    and "24 \<le> a \<Longrightarrow> get_range (write_page_header page lsn lo u) a b = get_range page a b"
    and "get_range (write_page_header page lsn lo u) 12 14 = Some (to_le lo)"
    and "get_range (write_page_header page lsn lo u) 14 16 = Some (to_le u)"
proof -
  show l: "length (write_page_header page lsn lo u) = PAGE_SIZE"
    using assms by (simp add: write_page_header_def PAGE_SIZE_def)
  show "24 \<le> a \<Longrightarrow> get_range (write_page_header page lsn lo u) a b = get_range page a b"
    using assms by (simp add: write_page_header_def PAGE_SIZE_def get_range_put_after)
  show "get_range (write_page_header page lsn lo u) 12 14 = Some (to_le lo)"
       "get_range (write_page_header page lsn lo u) 14 16 = Some (to_le u)"
    using assms by (simp_all add: write_page_header_def PAGE_SIZE_def put_def get_range_def)
qed


lemma checksum_ignores_stamp:
  "length page = PAGE_SIZE \<Longrightarrow> pg_checksum_page (put page 8 (to_le (c :: u16))) blkno = pg_checksum_page page blkno"
proof -
  assume l: "length page = PAGE_SIZE"
  then have "(put page 8 (to_le c))[8 := 0, 9 := 0] = page[8 := 0, 9 := 0]"
    by (intro nth_equalityI) (auto simp: PAGE_SIZE_def put_nth nth_list_update)
  with l show ?thesis by (simp add: pg_checksum_page_def PAGE_SIZE_def)
qed

lemma checksum_nonzero: "pg_checksum_page page blkno = Ok c \<Longrightarrow> c \<noteq> 0"
proof -
  assume "pg_checksum_page page blkno = Ok c"
  then obtain x :: u32 where c: "c = ucast (x mod 65535 + 1)"
    by (auto simp: pg_checksum_page_def Let_def split: if_splits)
  have "unat (x mod 65535) < 65535"
    by (simp add: unat_mod)
  then have "unat (x mod 65535 + 1) = unat (x mod 65535) + 1"
    by (simp add: unat_word_ariths)
  then have "unat c = unat (x mod 65535) + 1"
    using \<open>unat (x mod 65535) < 65535\<close> unfolding c by (simp add: unsigned_ucast_eq take_bit_nat_eq_self)
  then show ?thesis by auto
qed

lemma build_page_held:
  assumes "build_page desc block lsn slots = Ok page"
  defines "lo \<equiv> PAGE_HEADER_SIZE + length slots * ITEM_ID_SIZE"
  obtains u where "length page = PAGE_SIZE" and "lo \<le> u" and "u \<le> PAGE_SIZE"
    and "get_range page 12 14 = Some (to_le (word_of_nat lo :: u16))"
    and "get_range page 14 16 = Some (to_le (word_of_nat u :: u16))"
    and "\<And>i. i < length slots \<Longrightarrow> slot_held desc block u page i (slots ! i)"
    and "\<exists>c. get_range page 8 10 = Some (to_le c) \<and> pg_checksum_page page block = Ok c"
proof -
  from assms(1) obtain page1 u c where lo: "lo \<le> PAGE_SIZE"
    and b: "build_slots desc block lo 0 slots (replicate PAGE_SIZE 0, PAGE_SIZE) = Ok (page1, u)"
    and c: "pg_checksum_page (write_page_header page1 lsn (word_of_nat lo) (word_of_nat u)) block = Ok c"
    and page: "page = put (write_page_header page1 lsn (word_of_nat lo) (word_of_nat u)) 8 (to_le c)"
    by (auto simp: build_page_def Let_def result_simps lo_def split: if_splits)
  let ?h = "write_page_header page1 lsn (word_of_nat lo) (word_of_nat u)"
  have H: "lo \<le> u" "u \<le> PAGE_SIZE" "length page1 = PAGE_SIZE"
    "\<And>k. k < length slots \<Longrightarrow> slot_held desc block u page1 k (slots ! k)"
    using build_slots_held [OF b] lo by (auto simp: lo_def page_sizes)
  note W = write_page_header_props [OF H(3), where lsn = lsn and lo = "word_of_nat lo" and u = "word_of_nat u"]
  have len: "length page = PAGE_SIZE" using W(1) by (simp add: page PAGE_SIZE_def)
  have after: "get_range page x y = get_range page1 x y" if "24 \<le> x" for x y
    using W(1) W(2) [OF that] that by (simp add: page PAGE_SIZE_def get_range_put_after)
  have fields: "get_range page 12 14 = Some (to_le (word_of_nat lo :: u16))"
    "get_range page 14 16 = Some (to_le (word_of_nat u :: u16))"
    using W by (simp_all add: page PAGE_SIZE_def get_range_put_after)
  have "get_range page 8 10 = Some (to_le c)"
    using W(1) unfolding page by (intro get_range_put_same) (simp_all add: PAGE_SIZE_def)
  moreover have "pg_checksum_page page block = Ok c"
    using c checksum_ignores_stamp [OF W(1)] by (simp add: page)
  ultimately have stamp: "\<exists>c. get_range page 8 10 = Some (to_le c) \<and> pg_checksum_page page block = Ok c" by blast
  have held: "slot_held desc block u page i (slots ! i)" if "i < length slots" for i
    using H(1) after by (intro slot_held_kept [OF H(4) [OF that]]) (auto simp: lo_def page_sizes)
  show ?thesis using that [OF len H(1,2) fields held stamp] .
qed

section \<open>Reading a tuple back\<close>

lemma offnum_word:
  assumes "i < 65535"
  shows "unat (word_of_nat (i + 1) :: u16) = i + 1" and "(word_of_nat (i + 1) :: u16) \<noteq> 0"
proof -
  show u: "unat (word_of_nat (i + 1) :: u16) = i + 1" using assms by (intro unat_u16) simp
  then show "(word_of_nat (i + 1) :: u16) \<noteq> 0" by (metis Suc_eq_plus1 nat.distinct(1) unsigned_0)
qed

lemma holds_tuple_read:
  assumes "holds_tuple page lo i tup" and "i < 65535"
  obtains off w where "lo \<le> off" and "off + length tup \<le> PAGE_SIZE"
    and "get_range page (24 + i * 4) (24 + i * 4 + 4) = Some (to_le (w :: u32))"
    and "unat (w AND 0x7FFF) = off" and "drop_bit 15 w AND 3 = 1" and "unat (drop_bit 17 w) = length tup"
    and "get_range page off (off + length tup) = Some tup"
proof -
  from assms(1) obtain off w where h: "item_bytes page i = Some (to_le (w :: u32))"
    "unat w = (length tup * 4 + 1) * 2 ^ 15 + off" "lo \<le> off" "off + length tup \<le> PAGE_SIZE"
    "get_range page off (off + length tup) = Some tup"
    unfolding holds_tuple_def by blast
  have "off < 2 ^ 15" using h(4) by (simp add: PAGE_SIZE_def)
  then show ?thesis
    using that [OF h(3,4) _ item_id_fields [OF h(2), simplified] h(5)] h(1) by (simp add: mult.commute add.commute)
qed

lemma tuple_on_page_read:
  assumes "holds_tuple page lo i tup" and "i < 65535" and "23 \<le> length tup"
  shows "tuple_on_page page (word_of_nat (i + 1)) =
    Ok (drop 23 tup, from_le (take 2 (drop 18 tup)), from_le (take 2 (drop 20 tup)), unat (tup ! 22))"
proof -
  from holds_tuple_read [OF assms(1,2)] obtain off w where
    h: "get_range page (24 + i * 4) (24 + i * 4 + 4) = Some (to_le (w :: u32))"
      "unat (w AND 0x7FFF) = off" "drop_bit 15 w AND 3 = 1" "unat (drop_bit 17 w) = length tup"
      "get_range page off (off + length tup) = Some tup" by metis
  note u = offnum_word [OF assms(2)]
  have i: "i + 1 - 1 = i" by simp
  show ?thesis
    unfolding tuple_on_page_def Let_def u(1) i h(1) ok_or.simps rbind.simps from_to_le_u32 lp_off_def lp_flags_def lp_len_def h(2-5)
    using u(2) assms(3) by (simp add: SIZEOF_HEAP_TUPLE_HEADER_def)
qed

lemma line_pointer_read:
  assumes "holds_tuple page lo i tup" and "i < 65535"
  obtains off where "lo \<le> off" and "off + length tup \<le> PAGE_SIZE"
    and "line_pointer page (word_of_nat (i + 1)) =
      Ok \<lparr>lpr_flags = 1, lpr_off = word_of_nat off, lpr_len = word_of_nat (length tup)\<rparr>"
    and "get_range page off (off + length tup) = Some tup"
proof -
  from holds_tuple_read [OF assms] obtain off w where
    h: "lo \<le> off" "off + length tup \<le> PAGE_SIZE" "get_range page (24 + i * 4) (24 + i * 4 + 4) = Some (to_le (w :: u32))"
      "unat (w AND 0x7FFF) = off" "drop_bit 15 w AND 3 = 1" "unat (drop_bit 17 w) = length tup"
      "get_range page off (off + length tup) = Some tup" by metis
  note u = offnum_word [OF assms(2)]
  have c: "(ucast v :: u16) = word_of_nat (unat v)" for v :: u32 by simp
  have e: "(ucast (w AND 0x7FFF) :: u16) = word_of_nat off" "(ucast (drop_bit 17 w) :: u16) = word_of_nat (length tup)"
    by (simp_all only: c h(4,6))
  have "line_pointer page (word_of_nat (i + 1)) =
      Ok \<lparr>lpr_flags = 1, lpr_off = word_of_nat off, lpr_len = word_of_nat (length tup)\<rparr>"
    unfolding line_pointer_def Let_def page_sizes u(1)
    using u(2) h(3,5) e by simp
  with that h show ?thesis by blast
qed

lemma header_fields:
  fixes xmin xmax b :: u32 and off im2 im :: u16 and hoff :: u8 and rest :: bytes
  defines "t \<equiv> heap_header xmin xmax b off im2 im hoff @ rest"
  shows "from_le (take 4 t) = xmin" and "from_le (take 4 (drop 4 t)) = xmax" and "block_id t = b"
    and "from_le (take 2 (drop 16 t)) = off" and "from_le (take 2 (drop 18 t)) = im2"
    and "from_le (take 2 (drop 20 t)) = im" and "t ! 22 = hoff" and "drop 23 t = rest"
proof -
  have m: "b AND 0xFFFF = take_bit 16 b" by (simp add: take_bit_eq_mask mask_eq_exp_minus_1)
  have "push_bit 16 (ucast (ucast (drop_bit 16 b) :: u16)) OR ucast (ucast (b AND 0xFFFF) :: u16) = b"
    unfolding m by (rule bit_word_eqI) (auto simp: bit_simps)
  then show "block_id t = b"
    by (simp add: block_id_def t_def heap_header_def)
qed (simp_all add: t_def heap_header_def nth_append)


text \<open>The present bits of the null bitmap.\<close>

lemma set_one_bit:
  fixes tup :: bytes
  assumes "i < 8 * (length tup - 23)" and "k < 8 * (length tup - 23)"
  shows "bit (tup[23 + i div 8 := tup ! (23 + i div 8) OR push_bit (i mod 8) 1] ! (23 + k div 8)) (k mod 8) \<longleftrightarrow>
    bit (tup ! (23 + k div 8)) (k mod 8) \<or> k = i"
proof (cases "k div 8 = i div 8")
  case True
  then have "k mod 8 = i mod 8 \<longleftrightarrow> k = i" by (metis div_mult_mod_eq)
  moreover have "23 + i div 8 < length tup" using assms(1) by auto
  ultimately show ?thesis using True by (auto simp: bit_simps)
next
  case False
  then show ?thesis by auto
qed

lemma set_bits_bits:
  assumes "set_bits ps row i live_i tup = Ok tup'" and "23 + (i + length ps + 7) div 8 \<le> length tup"
  shows "take 23 tup' = take 23 tup \<and>
    (\<forall>k. k < 8 * (length tup - 23) \<longrightarrow>
      (bit (tup' ! (23 + k div 8)) (k mod 8) \<longleftrightarrow>
        bit (tup ! (23 + k div 8)) (k mod 8) \<or>
        i \<le> k \<and> k < i + length ps \<and> present_bits ps (drop live_i row) ! (k - i)))"
  using assms
proof (induction ps row i live_i tup rule: set_bits.induct)
  case (1 row i live_i tup)
  then show ?case by auto
next
  case (2 l a ps row i live_i tup)
  have "present_bits (Dropped l a # ps) (drop live_i row) ! (k - i) = present_bits ps (drop live_i row) ! (k - Suc i)"
    if "i < k" for k using that by (simp add: nth_Cons')
  moreover have "\<not> present_bits (Dropped l a # ps) (drop live_i row) ! 0" by simp
  ultimately show ?case
    using 2 by (auto simp: not_less_eq_eq dest: le_neq_implies_less) 
next
  case (3 c ps row i live_i tup)
  from 3(2) obtain v where v: "live_i < length row" "row ! live_i = v"
    by (auto simp: result_simps index_def get_def split: if_splits)
  define tup2 where "tup2 = (if v \<noteq> None then tup[23 + i div 8 := tup ! (23 + i div 8) OR push_bit (i mod 8) 1] else tup)"
  have s: "set_bits ps row (i + 1) (live_i + 1) tup2 = Ok tup'"
    using 3(2) v by (simp add: index_Ok Let_def tup2_def SIZEOF_HEAP_TUPLE_HEADER_def split: if_splits)
  have len: "length tup2 = length tup" by (simp add: tup2_def)
  have "take 23 tup' = take 23 tup2 \<and> (\<forall>k. k < 8 * (length tup - 23) \<longrightarrow>
      (bit (tup' ! (23 + k div 8)) (k mod 8) \<longleftrightarrow> bit (tup2 ! (23 + k div 8)) (k mod 8) \<or>
        i + 1 \<le> k \<and> k < i + 1 + length ps \<and> present_bits ps (drop (live_i + 1) row) ! (k - (i + 1))))"
    using 3(1) [of v "23 + i div 8" tup2] s v 3(3) len
    by (simp add: index_Ok tup2_def SIZEOF_HEAP_TUPLE_HEADER_def)
  moreover have "take 23 tup2 = take 23 tup" by (simp add: tup2_def)
  moreover have "i < 8 * (length tup - 23)" using 3(3) by auto
  then have "bit (tup2 ! (23 + k div 8)) (k mod 8) \<longleftrightarrow> bit (tup ! (23 + k div 8)) (k mod 8) \<or> v \<noteq> None \<and> k = i"
    if "k < 8 * (length tup - 23)" for k
    using set_one_bit [OF _ that, of i] by (simp add: tup2_def)
  moreover have "present_bits (Live c # ps) (drop live_i row) =
      (v \<noteq> None) # present_bits ps (drop (live_i + 1) row)"
    using v by (simp add: hd_drop_conv_nth tl_drop drop_Suc)
  ultimately show ?case
    by (auto simp: nth_Cons' le_eq_less_or_eq Suc_le_eq)
qed


lemma present_all:
  "\<not> list_ex is_dropped ps \<Longrightarrow> None \<notin> set row \<Longrightarrow> length row = length (live_cols ps) \<Longrightarrow> k < length ps \<Longrightarrow>
   present_bits ps row ! k"
proof (induction ps row arbitrary: k rule: present_bits.induct)
  case (3 c ps row)
  then obtain a list where row: "row = a # list" by (cases row) (auto simp: is_dropped_def)
  have "a \<noteq> None" using 3(3) row by (cases a) auto
  then show ?case using 3 row by (cases k) (auto simp: is_dropped_def)
qed (auto simp: is_dropped_def)

lemma page_maxalign_less: "page_maxalign n < n + 8"
  by (simp add: page_maxalign_def align_up_less)

lemma put_header: "length hdr \<le> n \<Longrightarrow> put (replicate n 0) 0 hdr = hdr @ replicate (n - length hdr) 0"
  by (simp add: put_def)

lemma bitmap_of_row:
  assumes "set_bits ps row 0 0 (hdr @ replicate n 0) = Ok tup'" and "length hdr = 23" and "(length ps + 7) div 8 \<le> n"
  obtains bits where "tup' = hdr @ bits" and "length bits = n"
    and "\<And>k. k < length ps \<Longrightarrow> is_null True bits k = Ok (\<not> present_bits ps row ! k)"
proof
  have len: "length tup' = 23 + n" using length_set_bits [OF assms(1)] assms(2) by simp
  have B: "take 23 tup' = hdr" "\<And>k. k < 8 * n \<Longrightarrow>
      bit (tup' ! (23 + k div 8)) (k mod 8) \<longleftrightarrow> k < length ps \<and> present_bits ps row ! k"
    using set_bits_bits [OF assms(1)] assms(2,3) by (auto simp: nth_append)
  then show "tup' = hdr @ drop 23 tup'" by (metis append_take_drop_id)
  show "length (drop 23 tup') = n" using len by simp
  fix k assume k: "k < length ps"
  then have "k < 8 * n" using assms(3) by linarith
  then have "k div 8 < n" by auto
  then show "is_null True (drop 23 tup') k = Ok (\<not> present_bits ps row ! k)"
    using B(2) [OF \<open>k < 8 * n\<close>] k len
    by (simp add: is_null_def index_Ok add.commute and_exp_eq_0_iff_not_bit)
qed

lemma encode_tuple_form:
  assumes "encode_tuple desc block offnum spec = Ok tup" and "desc_wf desc" and "length (phys desc) \<le> 1600"
  obtains bits attrs hn hv cblk coff where
    "tup = heap_header (ts_xmin spec) (ts_xmax spec) cblk coff
       (infomask2 (word_of_nat (length (phys desc))) (ts_heap_only spec) (ts_hot_updated spec))
       (infomask (ts_xmin spec) (ts_xmax spec) hn hv) (word_of_nat (23 + length bits)) @ bits @ attrs"
    and "encode_attrs (ts_row spec) desc = Ok (Some attrs)" and "23 + length bits < 256"
    and "\<And>k. k < length (phys desc) \<Longrightarrow> is_null hn bits k = Ok (\<not> present_bits (phys desc) (ts_row spec) ! k)"
proof -
  define hn where "hn = (list_ex is_dropped (phys desc) \<or> None \<in> set (ts_row spec))"
  define bl where "bl = (if hn then div_ceil8 (length (phys desc)) else 0)"
  define hoff where "hoff = page_maxalign (23 + bl)"
  define ctid where "ctid = (case ts_ctid spec of Some c \<Rightarrow> c | None \<Rightarrow> (block, offnum))"
  define hv where "hv = list_ex (\<lambda>(c, v). v \<noteq> None \<and> (col_ty c = Text \<or> col_ty c = Bytea)) (zip (cols desc) (ts_row spec))"
  define hdr where "hdr = heap_header (ts_xmin spec) (ts_xmax spec) (fst ctid) (snd ctid)
       (infomask2 (word_of_nat (length (phys desc))) (ts_heap_only spec) (ts_hot_updated spec))
       (infomask (ts_xmin spec) (ts_xmax spec) hn hv) (word_of_nat hoff)"
  have hoff: "23 + bl \<le> hoff" "hoff < 256"
    using page_maxalign_ge [of "23 + bl"] page_maxalign_less [of "23 + bl"] assms(3)
    by (auto simp: hoff_def bl_def div_ceil8_def split: if_splits)
  have eq: "encode_tuple desc block offnum spec =
      (if length (ts_row spec) \<noteq> length (cols desc) then Err (Bail ''reconstruct: wrong number of values'')
       else rbind (encode_attrs (ts_row spec) desc) (\<lambda>r.
         rbind (ok_or r (Bail ''reconstruct: row not encodable on-page'')) (\<lambda>attrs.
         rbind (if hn then set_bits (phys desc) (ts_row spec) 0 0 (put (replicate hoff 0) 0 hdr)
                else Ok (put (replicate hoff 0) 0 hdr)) (\<lambda>tup'. Ok (tup' @ attrs)))))"
    unfolding encode_tuple_def Let_def hdr_def hoff_def bl_def hn_def hv_def ctid_def SIZEOF_HEAP_TUPLE_HEADER_def ..
  from assms(1) [unfolded eq] obtain tup' attrs where e: "length (ts_row spec) = length (cols desc)"
    "encode_attrs (ts_row spec) desc = Ok (Some attrs)" "tup = tup' @ attrs"
    "(if hn then set_bits (phys desc) (ts_row spec) 0 0 (put (replicate hoff 0) 0 hdr) else Ok (put (replicate hoff 0) 0 hdr)) = Ok tup'"
    by (auto simp: result_simps split: if_splits)
  have p: "put (replicate hoff 0) 0 hdr = hdr @ replicate (hoff - 23) 0" "length hdr = 23"
    using hoff by (simp_all add: put_header hdr_def)
  have "\<exists>bits. tup' = hdr @ bits \<and> length bits = hoff - 23 \<and>
      (\<forall>k < length (phys desc). is_null hn bits k = Ok (\<not> present_bits (phys desc) (ts_row spec) ! k))"
  proof (cases hn)
    case True
    then have s: "set_bits (phys desc) (ts_row spec) 0 0 (hdr @ replicate (hoff - 23) 0) = Ok tup'"
      using e(4) p by simp
    have l: "(length (phys desc) + 7) div 8 \<le> hoff - 23"
      using hoff True by (simp add: bl_def div_ceil8_def)
    show ?thesis
      by (rule bitmap_of_row [OF s p(2) l]) (use True in \<open>auto intro!: exI\<close>)
  next
    case False
    then have "present_bits (phys desc) (ts_row spec) ! k" if "k < length (phys desc)" for k
      using that e(1) assms(2) by (intro present_all) (auto simp: hn_def desc_wf_def)
    with False show ?thesis
      using e(4) p by (intro exI [of _ "replicate (hoff - 23) 0"]) (simp add: is_null_def)
  qed
  then obtain bits where b: "tup' = hdr @ bits" "length bits = hoff - 23"
    "\<And>k. k < length (phys desc) \<Longrightarrow> is_null hn bits k = Ok (\<not> present_bits (phys desc) (ts_row spec) ! k)" by blast
  show ?thesis
    using that [OF _ e(2) _ b(3), where hv = hv and cblk = "fst ctid" and coff = "snd ctid"] e(3) b(1,2) hoff by (simp add: hdr_def)
qed


lemma infomask2_natts: "n \<le> 1600 \<Longrightarrow> unat (infomask2 (word_of_nat n) ho hu AND 0x7FF) = n"
proof -
  assume n: "n \<le> 1600"
  have m: "v AND 0x7FF = take_bit 11 v" for v :: u16
    by (simp add: take_bit_eq_mask mask_eq_exp_minus_1)
  have "infomask2 (word_of_nat n) ho hu AND 0x7FF = word_of_nat n AND 0x7FF"
    by (cases ho; cases hu) (simp_all add: infomask2_def infomask_bits bit.conj_disj_distrib2 and.assoc)
  also have "unat (word_of_nat n AND 0x7FF :: u16) = n"
    unfolding m unsigned_take_bit_eq using n by (simp add: unat_u16 take_bit_nat_eq_self)
  finally show ?thesis .
qed

lemma infomask2_flags:
  "infomask2 natts ho hu AND HEAP_ONLY_TUPLE \<noteq> 0 \<longleftrightarrow> ho" "infomask2 natts ho hu AND HEAP_HOT_UPDATED \<noteq> 0 \<longleftrightarrow> hu"
  by (cases ho; cases hu; simp add: infomask2_def infomask_bits bit.conj_disj_distrib2 and.assoc)+

lemma infomask_flags:
  "infomask xmin xmax hn hv AND HEAP_HASNULL \<noteq> 0 \<longleftrightarrow> hn" "infomask xmin xmax hn hv AND HEAP_HASVARWIDTH \<noteq> 0 \<longleftrightarrow> hv"
  by (cases hn; cases hv; simp add: infomask_def infomask_bits)+

section \<open>When a page is built\<close>

text \<open>The aligned space a slot needs, if it can be encoded at all.\<close>

definition aligned_size :: "bytes result \<Rightarrow> nat option" where
  "aligned_size r = map_option (\<lambda>tup. page_maxalign (length tup)) (result_ok r)"

fun slot_need :: "TableDesc \<Rightarrow> u32 \<Rightarrow> nat \<Rightarrow> Slot \<Rightarrow> nat option" where
  "slot_need desc block i (Tuple spec) = aligned_size (encode_tuple desc block (word_of_nat (i + 1)) spec)"
| "slot_need desc block i (Raw rt) = aligned_size (encode_raw_tuple block (word_of_nat (i + 1)) rt)"
| "slot_need desc block i (Redirect t) = (if t = 0 then None else Some 0)"
| "slot_need desc block i s = Some 0"

fun slots_need :: "TableDesc \<Rightarrow> u32 \<Rightarrow> nat \<Rightarrow> Slot list \<Rightarrow> nat option" where
  "slots_need desc block i [] = Some 0"
| "slots_need desc block i (s # ss) =
     (case slot_need desc block i s of None \<Rightarrow> None
      | Some n \<Rightarrow> map_option (\<lambda>m. n + m) (slots_need desc block (i + 1) ss))"

lemma place_tuple_iff:
  "(\<exists>w p. rbind r (place_tuple page u lo) = Ok (w, p, u')) \<longleftrightarrow>
   (\<exists>n. aligned_size r = Some n \<and> lo + n \<le> u \<and> u' = u - n)"
  by (cases r) (auto simp: aligned_size_def place_tuple_def Let_def)

lemma place_slot_iff:
  "lo \<le> u \<Longrightarrow> (\<exists>w p. place_slot desc block lo (word_of_nat (i + 1)) s page u = Ok (w, p, u')) \<longleftrightarrow>
   (\<exists>n. slot_need desc block i s = Some n \<and> lo + n \<le> u \<and> u' = u - n)"
  by (cases s) (auto simp: place_tuple_iff simp del: of_nat_add)

lemma build_slots_iff:
  "lo \<le> u \<Longrightarrow> (\<exists>st. build_slots desc block lo i ss (page, u) = Ok st) \<longleftrightarrow>
   (\<exists>n. slots_need desc block i ss = Some n \<and> lo + n \<le> u)"
proof (induction ss arbitrary: i page u)
  case (Cons s ss)
  show ?case
  proof (cases "\<exists>n. slot_need desc block i s = Some n \<and> lo + n \<le> u")
    case True
    then obtain n where n: "slot_need desc block i s = Some n" "lo + n \<le> u" by blast
    with place_slot_iff [OF Cons.prems] obtain w p where
      "place_slot desc block lo (word_of_nat (i + 1)) s page u = Ok (w, p, u - n)" by blast
    then show ?thesis
      using n Cons.IH [of "u - n" "i + 1"] by (auto simp del: of_nat_add)
  next
    case False
    then have "place_slot desc block lo (word_of_nat (i + 1)) s page u \<noteq> Ok (w, p, u')" for w p u'
      using place_slot_iff [OF Cons.prems] by blast
    then have "\<nexists>st. build_slots desc block lo i (s # ss) (page, u) = Ok st"
      by (auto simp: result_simps simp del: of_nat_add)
    with False show ?thesis by (auto split: option.splits)
  qed
qed simp

lemma build_page_iff:
  "(\<exists>page. build_page desc block lsn slots = Ok page) \<longleftrightarrow>
   (\<exists>n. slots_need desc block 0 slots = Some n \<and> PAGE_HEADER_SIZE + length slots * ITEM_ID_SIZE + n \<le> PAGE_SIZE)"
proof (cases "PAGE_HEADER_SIZE + length slots * ITEM_ID_SIZE \<le> PAGE_SIZE")
  case True
  let ?lo = "PAGE_HEADER_SIZE + length slots * ITEM_ID_SIZE"
  have "pg_checksum_page (write_page_header page1 lsn l h) block \<noteq> Err e"
    if b: "build_slots desc block ?lo 0 slots (replicate PAGE_SIZE 0, PAGE_SIZE) = Ok (page1, u)" for page1 u l h e
  proof -
    have "length page1 = PAGE_SIZE" using build_slots_held [OF b] True by (simp add: page_sizes)
    then show ?thesis by (simp add: pg_checksum_page_def write_page_header_props(1) Let_def)
  qed
  then have "(\<exists>page. build_page desc block lsn slots = Ok page) \<longleftrightarrow>
      (\<exists>st. build_slots desc block ?lo 0 slots (replicate PAGE_SIZE 0, PAGE_SIZE) = Ok st)"
    using True by (simp add: build_page_def Let_def result_simps) (metis sum.exhaust_sel sum.collapse)
  with build_slots_iff [OF True] show ?thesis by simp
next
  case False
  then show ?thesis by (auto simp: build_page_def Let_def)
qed


section \<open>Properties\<close>

text \<open>
  C22 (error): a page is built exactly when it can be. Building succeeds if and only if every slot
  can be encoded and the page header, the line pointers and the 8-byte aligned tuples fit in one
  page; in every other case an error is returned.
\<close>
theorem build_page_succeeds_iff_fits:
  "(\<exists>page. build_page desc block lsn slots = Ok page) \<longleftrightarrow>
   (\<exists>n. slots_need desc block 0 slots = Some n \<and> PAGE_HEADER_SIZE + length slots * ITEM_ID_SIZE + n \<le> PAGE_SIZE)"
  by (rule build_page_iff)

lemma rebuilt_tuple_decodes:
  assumes "build_page desc block lsn slots = Ok page" and "desc_wf desc" and "length (phys desc) \<le> 1600"
    and "i < length slots" and "slots ! i = Tuple spec" and "canonical_row (cols desc) (ts_row spec)"
  shows "\<exists>attrs. encode_attrs (ts_row spec) desc = Ok (Some attrs) \<and>
    decode_tuple_from_page lz4 page (word_of_nat (i + 1)) desc toast = Ok (ts_row spec, attrs)"
proof -
  from build_page_held [OF assms(1)] obtain u where
    "PAGE_HEADER_SIZE + length slots * ITEM_ID_SIZE \<le> PAGE_SIZE" "slot_held desc block u page i (slots ! i)"
    using assms(4) by (metis order_trans)
  with assms(4,5) obtain tup where i: "i < 65535" and t: "holds_tuple page u i tup"
    "encode_tuple desc block (word_of_nat (i + 1)) spec = Ok tup"
    by (auto simp: page_sizes)
  from encode_tuple_form [OF t(2) assms(2,3)] obtain bits attrs hn hv cblk coff where
    f: "tup = heap_header (ts_xmin spec) (ts_xmax spec) cblk coff
          (infomask2 (word_of_nat (length (phys desc))) (ts_heap_only spec) (ts_hot_updated spec))
          (infomask (ts_xmin spec) (ts_xmax spec) hn hv) (word_of_nat (23 + length bits)) @ bits @ attrs"
      "encode_attrs (ts_row spec) desc = Ok (Some attrs)" "23 + length bits < 256"
      "\<And>k. k < length (phys desc) \<Longrightarrow> is_null hn bits k = Ok (\<not> present_bits (phys desc) (ts_row spec) ! k)"
    by metis
  have "unat (word_of_nat (23 + length bits) :: u8) = 23 + length bits" using f(3) by (intro unat_u8) simp
  then have "tuple_on_page page (word_of_nat (i + 1)) = Ok (bits @ attrs,
      infomask2 (word_of_nat (length (phys desc))) (ts_heap_only spec) (ts_hot_updated spec),
      infomask (ts_xmin spec) (ts_xmax spec) hn hv, 23 + length bits)"
    using tuple_on_page_read [OF t(1) i encode_tuple_length [OF t(2)]] unfolding f(1) header_fields by simp
  moreover have "decode_tuple_payload lz4 (bits @ attrs)
      (infomask2 (word_of_nat (length (phys desc))) (ts_heap_only spec) (ts_hot_updated spec))
      (infomask (ts_xmin spec) (ts_xmax spec) hn hv) (23 + length bits) desc toast None = Ok (ts_row spec, attrs)"
    using decode_encoded_attrs [of "phys desc" "ts_row spec" "[]" attrs hn bits 0 "length (phys desc)" lz4 toast "[]" None 0]
      f(2,4) assms(2,6) infomask2_natts [OF assms(3)] infomask_flags(1)
    by (simp add: encode_attrs_def desc_wf_def decode_tuple_payload_def bits_len_def Let_def SIZEOF_HEAP_TUPLE_HEADER_def)
  ultimately show ?thesis using f(2) by (simp add: decode_tuple_from_page_def)
qed


text \<open>
  C20 (roundtrip): rebuilt pages decode to the rows they were built from. On a page built from any
  mix of slots, looking up the offset number of a slot that was built from a canonical row gives
  that row, null and dropped columns included, with the attribute bytes of its re-encoding.
\<close>
theorem rebuilt_page_decodes:
  assumes "build_page desc block lsn slots = Ok page" and "desc_wf desc" and "length (phys desc) \<le> 1600"
    and "i < length slots" and "slots ! i = Tuple spec" and "canonical_row (cols desc) (ts_row spec)"
  shows "\<exists>attrs. encode_attrs (ts_row spec) desc = Ok (Some attrs) \<and>
    decode_tuple_from_page lz4 page (word_of_nat (i + 1)) desc toast = Ok (ts_row spec, attrs)"
  using assms by (rule rebuilt_tuple_decodes)

definition sample_row :: Row where
  "sample_row = [Some (VI32 5), None, Some (VBool True)]"

lemma sample_need: "slots_need sample_desc block 0 [Dead, Redirect 3, slot_live sample_row] = Some 32"
proof -
  have "encode_attrs sample_row sample_desc = Ok (Some [5, 0, 0, 0, 1])"
    by (simp add: encode_attrs_def sample_row_def sample_desc_def Let_def pad_put_def align_to_def align_up_def
        to_le_def le_bytes_4)
  moreover have "\<exists>t. set_bits (phys sample_desc) sample_row 0 0 tup = Ok t" for tup
    by (simp add: sample_row_def sample_desc_def Let_def index_def get_def)
  then have G: "\<exists>t. rbind (set_bits (phys sample_desc) sample_row 0 0 (put (replicate 24 0) 0 (heap_header x y b c d e f)))
      (\<lambda>t'. Ok (t' @ [5, 0, 0, 0, 1])) = Ok t \<and> length t = 29" for x y b c d e f
    using length_set_bits by (fastforce simp: result_simps)
  moreover have "list_ex is_dropped (phys sample_desc)" "length (phys sample_desc) = 4"
    "length (cols sample_desc) = 3" "length sample_row = 3"
    by (simp_all add: sample_desc_def is_dropped_def Let_def sample_row_def)
  ultimately have "\<exists>t. encode_tuple sample_desc block (word_of_nat 3) (frozen sample_row) = Ok t \<and> length t = 29"
    by (simp add: encode_tuple_def frozen_def Let_def div_ceil8_def SIZEOF_HEAP_TUPLE_HEADER_def page_maxalign_def align_up_def)
  then show ?thesis
    by (auto simp: slot_live_def aligned_size_def page_maxalign_def align_up_def)
qed

lemma sample_page: "\<exists>page. build_page sample_desc 7 0 [Dead, Redirect 3, slot_live sample_row] = Ok page"
  unfolding build_page_iff using sample_need by (simp add: page_sizes)

theorem rebuilt_page_decodes_witness:
  "\<exists>page attrs. build_page sample_desc 7 0 [Dead, Redirect 3, slot_live sample_row] = Ok page \<and>
     decode_tuple_from_page (\<lambda>_ _. None) page 3 sample_desc toast_default = Ok (sample_row, attrs)"
proof -
  obtain page where p: "build_page sample_desc 7 0 [Dead, Redirect 3, slot_live sample_row] = Ok page"
    using sample_page by blast
  have "\<exists>attrs. encode_attrs (ts_row (frozen sample_row)) sample_desc = Ok (Some attrs) \<and>
      decode_tuple_from_page (\<lambda>_ _. None) page (word_of_nat (2 + 1)) sample_desc toast_default = Ok (ts_row (frozen sample_row), attrs)"
    by (rule rebuilt_page_decodes [OF p])
      (simp_all add: sample_desc_def desc_wf_def canonical_row_def sample_row_def slot_live_def frozen_def Let_def)
  with p show ?thesis by (auto simp: frozen_def)
qed


lemma encode_raw_tuple_form:
  assumes "encode_raw_tuple block offnum rt = Ok tup" and "rt_natts rt \<le> 1600"
  obtains bits where
    "tup = heap_header (rt_xmin rt) (rt_xmax rt) (fst (case rt_ctid rt of Some c \<Rightarrow> c | None \<Rightarrow> (block, offnum)))
       (snd (case rt_ctid rt of Some c \<Rightarrow> c | None \<Rightarrow> (block, offnum)))
       (infomask2 (rt_natts rt) (rt_heap_only rt) (rt_hot_updated rt))
       (infomask (rt_xmin rt) (rt_xmax rt) (rt_null_bitmap rt \<noteq> []) (rt_has_varwidth rt))
       (word_of_nat (23 + length bits)) @ bits @ rt_attrs rt"
    and "23 + length bits < 256" and "take (length (rt_null_bitmap rt)) bits = rt_null_bitmap rt"
    and "length (rt_null_bitmap rt) \<le> length bits"
    and "length (rt_null_bitmap rt) = (if rt_null_bitmap rt \<noteq> [] then div_ceil8 (unat (rt_natts rt)) else 0)"
proof -
  let ?nb = "rt_null_bitmap rt" and ?ctid = "case rt_ctid rt of Some c \<Rightarrow> c | None \<Rightarrow> (block, offnum)"
  define hoff where "hoff = page_maxalign (23 + length ?nb)"
  define hdr where "hdr = heap_header (rt_xmin rt) (rt_xmax rt) (fst ?ctid) (snd ?ctid)
    (infomask2 (rt_natts rt) (rt_heap_only rt) (rt_hot_updated rt))
    (infomask (rt_xmin rt) (rt_xmax rt) (?nb \<noteq> []) (rt_has_varwidth rt)) (word_of_nat hoff)"
  have eq: "encode_raw_tuple block offnum rt =
      (if length ?nb \<noteq> (if ?nb \<noteq> [] then div_ceil8 (unat (rt_natts rt)) else 0)
       then Err (Bail ''reconstruct: raw null bitmap length'')
       else Ok (put (put (replicate hoff 0) 0 hdr) 23 ?nb @ rt_attrs rt))"
    unfolding encode_raw_tuple_def Let_def hdr_def hoff_def SIZEOF_HEAP_TUPLE_HEADER_def ..
  have len: "length ?nb = (if ?nb \<noteq> [] then div_ceil8 (unat (rt_natts rt)) else 0)"
    and tup: "tup = put (put (replicate hoff 0) 0 hdr) 23 ?nb @ rt_attrs rt"
    using assms(1) unfolding eq by (auto split: if_splits)
  have "unat (rt_natts rt) \<le> 1600" using assms(2) by (simp add: word_le_nat_alt)
  then have hoff: "23 + length ?nb \<le> hoff" "hoff < 256"
    using page_maxalign_ge [of "23 + length ?nb"] page_maxalign_less [of "23 + length ?nb"] len
    by (auto simp: hoff_def div_ceil8_def split: if_splits)
  have h23: "length hdr = 23" by (simp add: hdr_def)
  then have "put (put (replicate hoff 0) 0 hdr) 23 ?nb = hdr @ ?nb @ replicate (hoff - 23 - length ?nb) 0"
    using hoff by (simp add: put_header) (simp add: put_def)
  with tup that [of "?nb @ replicate (hoff - 23 - length ?nb) 0"] hoff len show ?thesis
    by (simp add: hdr_def)
qed

text \<open>
  Byte-exact tuples survive a rebuild. Extracting a tuple from a page built with it
  gives back its attribute bytes, null bitmap, attribute count, transaction ids and flags unchanged;
  only a missing chain pointer is filled in with the tuple's own address.
\<close>
theorem raw_tuple_roundtrip:
  assumes "build_page desc block lsn slots = Ok page" and "i < length slots" and "slots ! i = Raw rt"
    and "rt_natts rt \<le> 1600"
  shows "raw_from_page page (word_of_nat (i + 1)) =
    Ok (rt\<lparr>rt_ctid := Some (case rt_ctid rt of Some c \<Rightarrow> c | None \<Rightarrow> (block, word_of_nat (i + 1)))\<rparr>)"
proof -
  from build_page_held [OF assms(1)] obtain u where
    "PAGE_HEADER_SIZE + length slots * ITEM_ID_SIZE \<le> PAGE_SIZE" "slot_held desc block u page i (slots ! i)"
    using assms(2) by (metis order_trans)
  with assms(2,3) obtain tup where i: "i < 65535" and t: "holds_tuple page u i tup"
    "encode_raw_tuple block (word_of_nat (i + 1)) rt = Ok tup"
    by (auto simp: page_sizes)
  from line_pointer_read [OF t(1) i] obtain off where l: "off + length tup \<le> PAGE_SIZE"
    "line_pointer page (word_of_nat (i + 1)) = Ok \<lparr>lpr_flags = 1, lpr_off = word_of_nat off, lpr_len = word_of_nat (length tup)\<rparr>"
    "get_range page off (off + length tup) = Some tup" by metis
  have w: "unat (word_of_nat off :: u16) = off" "unat (word_of_nat (length tup) :: u16) = length tup"
    using l(1) by (intro unat_u16; simp add: PAGE_SIZE_def)+
  define ctid where "ctid = (case rt_ctid rt of Some c \<Rightarrow> c | None \<Rightarrow> (block, word_of_nat (i + 1)))"
  from encode_raw_tuple_form [OF t(2) assms(4)] obtain bits where
    f: "tup = heap_header (rt_xmin rt) (rt_xmax rt) (fst ctid) (snd ctid)
       (infomask2 (rt_natts rt) (rt_heap_only rt) (rt_hot_updated rt))
       (infomask (rt_xmin rt) (rt_xmax rt) (rt_null_bitmap rt \<noteq> []) (rt_has_varwidth rt))
       (word_of_nat (23 + length bits)) @ bits @ rt_attrs rt" and
    b: "23 + length bits < 256" "take (length (rt_null_bitmap rt)) bits = rt_null_bitmap rt"
      "length (rt_null_bitmap rt) \<le> length bits"
      "length (rt_null_bitmap rt) = (if rt_null_bitmap rt \<noteq> [] then div_ceil8 (unat (rt_natts rt)) else 0)"
    unfolding ctid_def [symmetric] by metis
  note F = header_fields [of "rt_xmin rt" "rt_xmax rt" "fst ctid" "snd ctid"
      "infomask2 (rt_natts rt) (rt_heap_only rt) (rt_hot_updated rt)"
      "infomask (rt_xmin rt) (rt_xmax rt) (rt_null_bitmap rt \<noteq> []) (rt_has_varwidth rt)"
      "word_of_nat (23 + length bits)" "bits @ rt_attrs rt", folded f]
  have n: "infomask2 (rt_natts rt) (rt_heap_only rt) (rt_hot_updated rt) AND HEAP_NATTS_MASK = rt_natts rt"
    using infomask2_natts [of "unat (rt_natts rt)" "rt_heap_only rt" "rt_hot_updated rt"] assms(4)
    by (simp add: HEAP_NATTS_MASK_def word_le_nat_alt unsigned_word_eqI)
  have hoff: "unat (word_of_nat (23 + length bits) :: u8) = 23 + length bits" using b(1) by (intro unat_u8) simp
  have g: "get_range tup 23 (23 + length (rt_null_bitmap rt)) = Some (rt_null_bitmap rt)"
    "get_range tup (23 + length bits) (length tup) = Some (rt_attrs rt)"
    using b(2,3) by (simp_all add: f get_range_def)
  have "\<not> length tup < 23" using encode_raw_tuple_length [OF t(2)] by simp
  then show ?thesis
    unfolding raw_from_page_def l(2) rbind.simps Let_def LinePointer.simps w l(3) ok_or.simps F n hoff
      infomask2_flags infomask_flags SIZEOF_HEAP_TUPLE_HEADER_def b(4) [symmetric] g ctid_def [symmetric]
    by simp
qed


definition sample_raw :: RawTuple where
  "sample_raw = \<lparr>rt_attrs = [200, 0, 0, 7], rt_null_bitmap = [5], rt_natts = 3, rt_has_varwidth = True,
     rt_xmin = 700, rt_xmax = 0, rt_ctid = None, rt_heap_only = False, rt_hot_updated = True\<rparr>"

theorem raw_tuple_roundtrip_witness:
  "\<exists>page. build_page sample_desc 7 0 [Unused, Raw sample_raw] = Ok page \<and>
     raw_from_page page 2 = Ok (sample_raw\<lparr>rt_ctid := Some (7, 2)\<rparr>)"
proof -
  have "slots_need sample_desc 7 0 [Unused, Raw sample_raw] = Some 32"
    by (simp add: sample_raw_def aligned_size_def encode_raw_tuple_def Let_def div_ceil8_def
        SIZEOF_HEAP_TUPLE_HEADER_def page_maxalign_def align_up_def)
  then obtain page where p: "build_page sample_desc 7 0 [Unused, Raw sample_raw] = Ok page"
    using build_page_iff [of sample_desc 7 0 "[Unused, Raw sample_raw]"] by (auto simp: page_sizes)
  have "raw_from_page page (word_of_nat (1 + 1)) =
      Ok (sample_raw\<lparr>rt_ctid := Some (case rt_ctid sample_raw of Some c \<Rightarrow> c | None \<Rightarrow> (7, word_of_nat (1 + 1)))\<rparr>)"
    by (rule raw_tuple_roundtrip [OF p]) (simp_all add: sample_raw_def)
  with p show ?thesis by (simp add: sample_raw_def)
qed

text \<open>
  C21 (bounds): a rebuilt page is a well-formed heap page. It has 8192 bytes; its header records the
  end of the line pointers and the start of the tuple space, in order and inside the page; every
  line pointer of a live tuple points into the tuple space, with the tuple's encoding inside the
  page; and the stored checksum is not zero and is what the verifier computes.
\<close>
theorem rebuilt_page_wellformed:
  assumes "build_page desc block lsn slots = Ok page"
  shows "\<exists>upper c. length page = PAGE_SIZE \<and>
    get_range page 12 14 = Some (to_le (word_of_nat (24 + 4 * length slots) :: u16)) \<and>
    get_range page 14 16 = Some (to_le (word_of_nat upper :: u16)) \<and>
    24 + 4 * length slots \<le> upper \<and> upper \<le> PAGE_SIZE \<and>
    (\<forall>i < length slots. \<forall>tup.
       (\<exists>spec. slots ! i = Tuple spec \<and> encode_tuple desc block (word_of_nat (i + 1)) spec = Ok tup) \<or>
       (\<exists>rt. slots ! i = Raw rt \<and> encode_raw_tuple block (word_of_nat (i + 1)) rt = Ok tup) \<longrightarrow>
       (\<exists>off. upper \<le> off \<and> off + length tup \<le> PAGE_SIZE \<and> get_range page off (off + length tup) = Some tup \<and>
          line_pointer page (word_of_nat (i + 1)) =
            Ok \<lparr>lpr_flags = 1, lpr_off = word_of_nat off, lpr_len = word_of_nat (length tup)\<rparr>)) \<and>
    get_range page 8 10 = Some (to_le c) \<and> c \<noteq> 0 \<and> pg_checksum_page page block = Ok c"
proof -
  from build_page_held [OF assms] obtain u where
    h: "length page = PAGE_SIZE" "PAGE_HEADER_SIZE + length slots * ITEM_ID_SIZE \<le> u" "u \<le> PAGE_SIZE"
      "get_range page 12 14 = Some (to_le (word_of_nat (PAGE_HEADER_SIZE + length slots * ITEM_ID_SIZE) :: u16))"
      "get_range page 14 16 = Some (to_le (word_of_nat u :: u16))"
      "\<And>i. i < length slots \<Longrightarrow> slot_held desc block u page i (slots ! i)"
      "\<exists>c. get_range page 8 10 = Some (to_le c) \<and> pg_checksum_page page block = Ok c"
    by blast
  have lo: "PAGE_HEADER_SIZE + length slots * ITEM_ID_SIZE = 24 + 4 * length slots" by (simp add: page_sizes)
  have read: "\<exists>off. u \<le> off \<and> off + length tup \<le> PAGE_SIZE \<and> get_range page off (off + length tup) = Some tup \<and>
      line_pointer page (word_of_nat (i + 1)) = Ok \<lparr>lpr_flags = 1, lpr_off = word_of_nat off, lpr_len = word_of_nat (length tup)\<rparr>"
    if "i < length slots" "(\<exists>spec. slots ! i = Tuple spec \<and> encode_tuple desc block (word_of_nat (i + 1)) spec = Ok tup) \<or>
       (\<exists>rt. slots ! i = Raw rt \<and> encode_raw_tuple block (word_of_nat (i + 1)) rt = Ok tup)" for i tup
  proof -
    have "i < 65535" using that(1) h(2,3) unfolding lo by (simp add: PAGE_SIZE_def)
    moreover have "holds_tuple page u i tup" using h(6) [OF that(1)] that(2) by (auto simp del: of_nat_add)
    ultimately show ?thesis by (metis line_pointer_read)
  qed
  show ?thesis
    using h(1-5,7) read checksum_nonzero unfolding lo by (intro exI [of _ u]) blast
qed

theorem rebuilt_page_wellformed_witness:
  "\<exists>page c. build_page sample_desc 7 0 [Dead, Redirect 3, slot_live sample_row] = Ok page \<and>
     length page = PAGE_SIZE \<and> c \<noteq> 0 \<and> pg_checksum_page page 7 = Ok c"
proof -
  obtain page where p: "build_page sample_desc 7 0 [Dead, Redirect 3, slot_live sample_row] = Ok page"
    using sample_page by blast
  with rebuilt_page_wellformed [OF p] show ?thesis by blast
qed

end
