(* ===== verification/Clog.thy ===== *)
theory Clog
  imports Prelude
begin

text \<open>
  \<^verbatim>\<open>src/clog.rs\<close>: commit-log lookups and tuple visibility. The \<open>ClogSource\<close> trait is
  the function argument \<open>clog_page\<close>; \<open>FileClogSource\<close> is modelled over a file system that maps a
  directory and a segment name to the bytes of the file. \<open>tuple_visible_with_multixact\<close> is in
  \<open>Multixact\<close>, which it needs.
\<close>

section \<open>Addressing\<close>

definition CLOG_XACTS_PER_BYTE :: u32 where "CLOG_XACTS_PER_BYTE = 4"
definition CLOG_XACTS_PER_PAGE :: u32 where "CLOG_XACTS_PER_PAGE = 8192 * CLOG_XACTS_PER_BYTE"
definition SLRU_PAGES_PER_SEGMENT :: u32 where "SLRU_PAGES_PER_SEGMENT = 32"
definition PAGE_SZ :: nat where "PAGE_SZ = 8192"

definition INVALID_XID :: u32 where "INVALID_XID = 0"
definition BOOTSTRAP_XID :: u32 where "BOOTSTRAP_XID = 1"
definition FROZEN_XID :: u32 where "FROZEN_XID = 2"

lemmas clog_consts = CLOG_XACTS_PER_BYTE_def CLOG_XACTS_PER_PAGE_def SLRU_PAGES_PER_SEGMENT_def
  PAGE_SZ_def INVALID_XID_def BOOTSTRAP_XID_def FROZEN_XID_def

datatype TxnStatus = InProgress | Committed | Aborted | SubCommitted

definition xid_to_page :: "u32 \<Rightarrow> u32" where
  "xid_to_page xid = xid div CLOG_XACTS_PER_PAGE"

definition byte_bit :: "u32 \<Rightarrow> nat \<times> nat" where
  "byte_bit xid =
     (let idx = xid mod CLOG_XACTS_PER_PAGE in
      (unat (idx div CLOG_XACTS_PER_BYTE), unat ((idx mod CLOG_XACTS_PER_BYTE) * 2)))"

definition status_of_bits :: "u8 \<Rightarrow> TxnStatus" where
  "status_of_bits v =
     (if v = 0 then InProgress else if v = 1 then Committed else if v = 2 then Aborted
      else SubCommitted)"

definition status_in_page :: "bytes \<Rightarrow> u32 \<Rightarrow> TxnStatus result" where
  "status_in_page page xid =
     (case byte_bit xid of (byteno, bshift) \<Rightarrow>
        rbind (ok_or (get page byteno) (Bail ''clog page too short for this xid'')) (\<lambda>byte.
          Ok (status_of_bits (drop_bit bshift byte AND 3))))"

section \<open>Resolution and visibility\<close>

type_synonym clog_source = "u32 \<Rightarrow> bytes result"

definition resolve_xid :: "clog_source \<Rightarrow> u32 \<Rightarrow> TxnStatus result" where
  "resolve_xid clog_page xid =
     (if xid = BOOTSTRAP_XID \<or> xid = FROZEN_XID then Ok Committed
      else if xid = INVALID_XID then Err (Bail ''resolve() called on InvalidTransactionId'')
      else rbind (clog_page (xid_to_page xid)) (\<lambda>page. status_in_page page xid))"

definition HEAP_XMAX_LOCK_ONLY :: u16 where "HEAP_XMAX_LOCK_ONLY = 0x0080"
definition HEAP_XMAX_IS_MULTI :: u16 where "HEAP_XMAX_IS_MULTI = 0x1000"

definition tuple_visible :: "clog_source \<Rightarrow> u32 \<Rightarrow> u32 \<Rightarrow> u16 \<Rightarrow> bool result" where
  "tuple_visible clog_page xmin xmax infomask =
     rbind (resolve_xid clog_page xmin) (\<lambda>st.
       if st \<noteq> Committed then Ok False
       else if xmax = INVALID_XID then Ok True
       else if infomask AND HEAP_XMAX_IS_MULTI \<noteq> 0 then
         (if infomask AND HEAP_XMAX_LOCK_ONLY \<noteq> 0 then Ok True
          else Err (Bail ''xmax is a multixact with an updater member''))
       else if infomask AND HEAP_XMAX_LOCK_ONLY \<noteq> 0 then Ok True
       else rbind (resolve_xid clog_page xmax) (\<lambda>st'. Ok (st' \<noteq> Committed)))"

section \<open>SLRU segment files\<close>

text \<open>\<^verbatim>\<open>format!("{segno:04X}")\<close>: at least four upper-case hexadecimal digits.\<close>

definition hex_digit :: "nat \<Rightarrow> char" where
  "hex_digit d = char_of (if d < 10 then 48 + d else 55 + d)"

fun hex_digits :: "nat \<Rightarrow> string" where
  "hex_digits n = (if n < 16 then [hex_digit n] else hex_digits (n div 16) @ [hex_digit (n mod 16)])"

declare hex_digits.simps [simp del]

definition segment_name :: "u32 \<Rightarrow> string" where
  "segment_name segno =
     (let ds = hex_digits (unat segno) in replicate (4 - length ds) CHR ''0'' @ ds)"

type_synonym filesystem = "string \<Rightarrow> string \<Rightarrow> bytes option"

definition read_slru_segment_page :: "filesystem \<Rightarrow> string \<Rightarrow> u32 \<Rightarrow> bytes result" where
  "read_slru_segment_page fs dir pageno =
     (let segno = pageno div SLRU_PAGES_PER_SEGMENT;
          page_in_seg = unat (pageno mod SLRU_PAGES_PER_SEGMENT);
          off = page_in_seg * PAGE_SZ
      in rbind (ok_or (fs dir (segment_name segno)) (Bail ''reading SLRU segment'')) (\<lambda>bytes.
         ok_or (get_range bytes off (off + PAGE_SZ)) (Bail ''SLRU segment has no page'')))"

definition file_clog_page :: "filesystem \<Rightarrow> string \<Rightarrow> clog_source" where
  "file_clog_page fs dir pageno = read_slru_segment_page fs dir pageno"

section \<open>The slots of a page\<close>

lemma unat_page_consts [simp]:
  "unat CLOG_XACTS_PER_PAGE = 32768" "unat CLOG_XACTS_PER_BYTE = 4"
  by (simp_all add: clog_consts)

lemma byte_bit_nat: "byte_bit xid = (unat xid mod 32768 div 4, unat xid mod 4 * 2)"
proof -
  have "unat (xid mod CLOG_XACTS_PER_PAGE mod CLOG_XACTS_PER_BYTE * 2) = unat xid mod 4 * 2"
  proof -
    have "unat (xid mod CLOG_XACTS_PER_PAGE mod CLOG_XACTS_PER_BYTE) = unat xid mod 4"
      by (simp add: unat_mod_distrib mod_mod_cancel)
    moreover have "unat xid mod 4 * 2 < 2 ^ 32" by (simp add: mult.commute order_less_trans [of _ 8])
    ultimately show ?thesis by (simp add: unat_word_ariths)
  qed
  then show ?thesis
    by (simp add: byte_bit_def Let_def unat_div_distrib unat_mod_distrib)
qed

lemma xid_to_page_nat: "unat (xid_to_page xid) = unat xid div 32768"
  by (simp add: xid_to_page_def unat_div_distrib)

lemma byte_bit_bounds: "byte_bit xid = (b, s) \<Longrightarrow> b < PAGE_SZ \<and> s \<in> {0, 2, 4, 6}"
proof -
  have "unat xid mod 4 < 4" by simp
  then have "unat xid mod 4 \<in> {0, 1, 2, 3}" by auto
  then show "byte_bit xid = (b, s) \<Longrightarrow> b < PAGE_SZ \<and> s \<in> {0, 2, 4, 6}"
    by (auto simp: byte_bit_nat clog_consts)
qed

lemma slot_determines_xid:
  assumes "xid_to_page x = xid_to_page y" and "byte_bit x = byte_bit y"
  shows "x = y"
proof -
  have split: "n = n div 32768 * 32768 + (n mod 32768 div 4 * 4 + n mod 4)" for n :: nat
  proof -
    have "n mod 4 = n mod 32768 mod 4" by (simp add: mod_mod_cancel)
    then show ?thesis by simp
  qed
  from assms have "unat x div 32768 = unat y div 32768"
    using xid_to_page_nat [of x] xid_to_page_nat [of y] by simp
  moreover from assms have "unat x mod 32768 div 4 = unat y mod 32768 div 4" "unat x mod 4 = unat y mod 4"
    by (simp_all add: byte_bit_nat)
  ultimately have "unat x = unat y"
    using split [of "unat x"] split [of "unat y"] by metis
  then show ?thesis by (rule unsigned_word_eqI)
qed

text \<open>Writing one transaction's two bits, the way the commit log is maintained.\<close>

fun bits_of_status :: "TxnStatus \<Rightarrow> u8" where
  "bits_of_status InProgress = 0"
| "bits_of_status Committed = 1"
| "bits_of_status Aborted = 2"
| "bits_of_status SubCommitted = 3"

definition clog_write :: "bytes \<Rightarrow> u32 \<Rightarrow> TxnStatus \<Rightarrow> bytes" where
  "clog_write page xid st =
     (case byte_bit xid of (b, s) \<Rightarrow>
        page[b := (page ! b AND NOT (push_bit s 3)) OR push_bit s (bits_of_status st)])"

lemma status_of_bits_of_status: "status_of_bits (bits_of_status st) = st"
  by (cases st) (simp_all add: status_of_bits_def)

lemma bits_of_status_lt: "bits_of_status st AND 3 = bits_of_status st"
  by (cases st) simp_all

lemma slot_read_same:
  fixes v w :: u8
  assumes "s \<in> {0, 2, 4, 6}" and "w AND 3 = w"
  shows "drop_bit s ((v AND NOT (push_bit s 3)) OR push_bit s w) AND 3 = w"
proof -
  have m: "(3 :: u8) = mask 2" by (simp add: mask_eq_exp_minus_1)
  have w: "\<not> bit w n" if "2 \<le> n" for n
    using assms(2) that by (metis bit_and_iff bit_mask_iff m not_le)
  show ?thesis
    unfolding m
  proof (rule bit_word_eqI)
    fix n
    show "bit (drop_bit s (v AND NOT (push_bit s (mask 2)) OR push_bit s w) AND mask 2) n = bit w n"
      using assms(1) w [of n] by (cases "n < 2") (auto simp: bit_simps)
  qed
qed

lemma slot_read_other:
  fixes v w :: u8
  assumes "s \<in> {0, 2, 4, 6}" and "t \<in> {0, 2, 4, 6}" and "s \<noteq> t" and "w AND 3 = w"
  shows "drop_bit t ((v AND NOT (push_bit s 3)) OR push_bit s w) AND 3 = drop_bit t v AND 3"
proof -
  have m: "(3 :: u8) = mask 2" by (simp add: mask_eq_exp_minus_1)
  have w: "\<not> bit w n" if "2 \<le> n" for n
    using assms(4) that by (metis bit_and_iff bit_mask_iff m not_le)
  show ?thesis
    using assms(1-3) unfolding m
    by (intro bit_word_eqI) (auto simp: bit_simps w less_2_cases_iff numeral_eq_Suc)
qed


lemma status_in_page_Ok:
  assumes "length page = PAGE_SZ"
  shows "status_in_page page xid =
    Ok (status_of_bits (drop_bit (snd (byte_bit xid)) (page ! fst (byte_bit xid)) AND 3))"
  using assms byte_bit_bounds [of xid "fst (byte_bit xid)" "snd (byte_bit xid)"]
  by (simp add: status_in_page_def split_beta get_def)

section \<open>The interface of an SLRU source\<close>

text \<open>
  What the readers of the commit log and of the multixact areas rely on: a page that a source
  returns is a whole page. Every file-backed source provides it, whatever the files hold.
\<close>

locale slru_source =
  fixes slru_page :: "u32 \<Rightarrow> bytes result"
  assumes whole_page: "slru_page p = Ok page \<Longrightarrow> length page = PAGE_SZ"
begin

lemma resolve_error: 
  assumes "resolve_xid slru_page xid = Err e"
  shows "xid = INVALID_XID \<or> slru_page (xid_to_page xid) = Err e"
  using assms whole_page
  by (auto simp: resolve_xid_def result_simps status_in_page_Ok split: if_splits)

lemma resolve_total:
  assumes "xid \<noteq> INVALID_XID" and "slru_page (xid_to_page xid) = Ok page"
  shows "\<exists>st. resolve_xid slru_page xid = Ok st"
  using assms whole_page by (auto simp: resolve_xid_def status_in_page_Ok)

end

lemma read_slru_whole_page:
  "read_slru_segment_page fs dir p = Ok page \<Longrightarrow> length page = PAGE_SZ"
  by (auto simp: read_slru_segment_page_def Let_def result_simps dest: get_range_length)

interpretation file_clog: slru_source "file_clog_page fs dir" for fs dir
  by unfold_locales (auto simp: file_clog_page_def intro: read_slru_whole_page)

section \<open>Properties\<close>

text \<open>
  The two-bit slots of a commit-log page are independent and addressed without
  collision. After the status of one transaction is written into its slot of a page, reading any
  transaction of that page gives the written status for that transaction and the old status for
  every other.
\<close>
theorem clog_slots_independent:
  assumes "length page = PAGE_SZ" and "xid_to_page x = xid_to_page y"
  shows "status_in_page (clog_write page x st) y =
     (if y = x then Ok st else status_in_page page y)"
proof -
  obtain b s where bs: "byte_bit x = (b, s)" by (cases "byte_bit x")
  obtain c t where ct: "byte_bit y = (c, t)" by (cases "byte_bit y")
  have B: "b < PAGE_SZ" "s \<in> {0, 2, 4, 6}" "c < PAGE_SZ" "t \<in> {0, 2, 4, 6}"
    using byte_bit_bounds [OF bs] byte_bit_bounds [OF ct] by auto
  have eq: "y = x \<longleftrightarrow> b = c \<and> s = t"
    using slot_determines_xid [OF assms(2)] bs ct by auto
  let ?v = "page ! b"
  let ?new = "?v AND NOT (push_bit s 3) OR push_bit s (bits_of_status st)"
  have read: "status_in_page (clog_write page x st) y =
      Ok (status_of_bits (drop_bit t (if b = c then ?new else page ! c) AND 3))"
    using assms(1) B by (simp add: status_in_page_Ok clog_write_def bs ct)
  have old: "status_in_page page y = Ok (status_of_bits (drop_bit t (page ! c) AND 3))"
    using assms(1) by (simp add: status_in_page_Ok ct)
  show ?thesis
  proof (cases "b = c \<and> s = t")
    case True
    then show ?thesis
      using slot_read_same [OF B(2) bits_of_status_lt, of ?v]
      by (simp add: eq read status_of_bits_of_status)
  next
    case False
    then show ?thesis
      using slot_read_other [OF B(2,4) _ bits_of_status_lt, of ?v] by (auto simp: eq read old)
  qed
qed

theorem clog_slots_independent_witness:
  "status_in_page (clog_write (clog_write (replicate PAGE_SZ 0) 760 Committed) 762 Aborted) 760 = Ok Committed"
proof -
  have len: "length (clog_write (replicate PAGE_SZ 0) 760 Committed) = PAGE_SZ"
    by (simp add: clog_write_def split_beta)
  have "xid_to_page 762 = xid_to_page 760"
    by (simp add: xid_to_page_def clog_consts)
  from clog_slots_independent [OF len this, of Aborted]
  show ?thesis
    using clog_slots_independent [of "replicate PAGE_SZ 0" 760 760 Committed] by simp
qed

end
