(* ===== verification/Multixact.thy ===== *)
theory Multixact
  imports Clog
begin

text \<open>
  \<^verbatim>\<open>src/multixact.rs\<close> and the multixact half of \<^verbatim>\<open>src/clog.rs\<close>: finding the
  updater member of a multixact in the offsets and members SLRUs. The \<open>MultiXactSource\<close> trait is
  a pair of page functions.
\<close>

section \<open>Layout\<close>

definition OFFSET_SZ :: nat where "OFFSET_SZ = 4"
definition OFFSETS_PER_PAGE :: u32 where "OFFSETS_PER_PAGE = word_of_nat (PAGE_SZ div OFFSET_SZ)"
definition FLAGBYTES_PER_GROUP :: nat where "FLAGBYTES_PER_GROUP = 4"
definition MEMBERS_PER_MEMBERGROUP :: nat where "MEMBERS_PER_MEMBERGROUP = FLAGBYTES_PER_GROUP"
definition MEMBERGROUP_SIZE :: nat where
  "MEMBERGROUP_SIZE = FLAGBYTES_PER_GROUP + MEMBERS_PER_MEMBERGROUP * 4"
definition MEMBERGROUPS_PER_PAGE :: nat where "MEMBERGROUPS_PER_PAGE = PAGE_SZ div MEMBERGROUP_SIZE"
definition MEMBERS_PER_PAGE :: u32 where
  "MEMBERS_PER_PAGE = word_of_nat (MEMBERGROUPS_PER_PAGE * MEMBERS_PER_MEMBERGROUP)"
definition STATUS_FOR_UPDATE :: u8 where "STATUS_FOR_UPDATE = 3"

lemmas multixact_consts = OFFSET_SZ_def OFFSETS_PER_PAGE_def FLAGBYTES_PER_GROUP_def
  MEMBERS_PER_MEMBERGROUP_def MEMBERGROUP_SIZE_def MEMBERGROUPS_PER_PAGE_def MEMBERS_PER_PAGE_def
  STATUS_FOR_UPDATE_def

section \<open>Lookups\<close>

record MultiXactSource =
  offsets_page :: "u32 \<Rightarrow> bytes result"
  members_page :: "u32 \<Rightarrow> bytes result"

definition offset_page_entry :: "u32 \<Rightarrow> u32 \<times> nat" where
  "offset_page_entry multi =
     (multi div OFFSETS_PER_PAGE, unat (multi mod OFFSETS_PER_PAGE) * OFFSET_SZ)"

definition read_offset :: "MultiXactSource \<Rightarrow> u32 \<Rightarrow> u32 result" where
  "read_offset src multi =
     (case offset_page_entry multi of (pageno, byteoff) \<Rightarrow>
        rbind (offsets_page src pageno) (\<lambda>page.
        rbind (ok_or (get_range page byteoff (byteoff + OFFSET_SZ))
                 (Bail ''multixact offsets page too short'')) (\<lambda>b. Ok (from_le b))))"

definition member_location :: "u32 \<Rightarrow> u32 \<times> nat \<times> nat" where
  "member_location offset =
     (let page = offset div MEMBERS_PER_PAGE;
          member_in_page = unat (offset mod MEMBERS_PER_PAGE);
          group_on_page = (member_in_page div MEMBERS_PER_MEMBERGROUP) mod MEMBERGROUPS_PER_PAGE;
          member_in_group = member_in_page mod MEMBERS_PER_MEMBERGROUP
      in (page, group_on_page * MEMBERGROUP_SIZE, member_in_group))"

definition read_member :: "MultiXactSource \<Rightarrow> u32 \<Rightarrow> (u32 \<times> u8) result" where
  "read_member src offset =
     (case member_location offset of (pageno, group_off, member_in_group) \<Rightarrow>
        rbind (members_page src pageno) (\<lambda>page.
        rbind (ok_or (get page (group_off + member_in_group))
                 (Bail ''multixact members page too short (flags)'')) (\<lambda>status.
        let xid_off = group_off + FLAGBYTES_PER_GROUP + member_in_group * 4 in
        rbind (ok_or (get_range page xid_off (xid_off + 4))
                 (Bail ''multixact members page too short (xid)'')) (\<lambda>xid_bytes.
        Ok (from_le xid_bytes, status)))))"

text \<open>The loop over the members \<^verbatim>\<open>start..end\<close>: the first updater wins.\<close>

fun find_updater :: "MultiXactSource \<Rightarrow> u32 list \<Rightarrow> u32 option result" where
  "find_updater src [] = Ok None"
| "find_updater src (off # offs) =
     rbind (read_member src off) (\<lambda>(xid, status).
       if status > STATUS_FOR_UPDATE then Ok (Some xid) else find_updater src offs)"

definition resolve_updater :: "MultiXactSource \<Rightarrow> u32 \<Rightarrow> u32 option result" where
  "resolve_updater src multi =
     rbind (read_offset src multi) (\<lambda>start.
     rbind (read_offset src (multi + 1)) (\<lambda>stop.
       if stop \<le> start
       then Err (Bail ''multixact member count can't be determined from disk alone'')
       else find_updater src (u32_range start stop)))"

definition tuple_visible_with_multixact ::
  "clog_source \<Rightarrow> MultiXactSource \<Rightarrow> u32 \<Rightarrow> u32 \<Rightarrow> u16 \<Rightarrow> bool result" where
  "tuple_visible_with_multixact clog mx xmin xmax infomask =
     (if infomask AND HEAP_XMAX_IS_MULTI \<noteq> 0 \<and> infomask AND HEAP_XMAX_LOCK_ONLY = 0 then
        rbind (resolve_xid clog xmin) (\<lambda>st.
          if st \<noteq> Committed then Ok False
          else rbind (resolve_updater mx xmax) (\<lambda>u.
            case u of
              Some updater_xid \<Rightarrow> rbind (resolve_xid clog updater_xid) (\<lambda>st'. Ok (st' \<noteq> Committed))
            | None \<Rightarrow> Ok True))
      else tuple_visible clog xmin xmax infomask)"

definition file_multixact :: "filesystem \<Rightarrow> string \<Rightarrow> MultiXactSource" where
  "file_multixact fs dir =
     \<lparr>offsets_page = read_slru_segment_page fs (dir @ ''/offsets''),
      members_page = read_slru_segment_page fs (dir @ ''/members'')\<rparr>"

section \<open>What the SLRU pages hold\<close>

definition offsets_image :: "(nat \<Rightarrow> u32) \<Rightarrow> nat \<Rightarrow> bytes" where
  "offsets_image start_of p = concat (map (\<lambda>i. to_le (start_of (p * 2048 + i))) [0..<2048])"

definition member_group :: "(nat \<Rightarrow> u32 \<times> u8) \<Rightarrow> nat \<Rightarrow> bytes" where
  "member_group m base =
     map (\<lambda>k. snd (m (base + k))) [0..<4] @ concat (map (\<lambda>k. to_le (fst (m (base + k)))) [0..<4])"

definition members_image :: "(nat \<Rightarrow> u32 \<times> u8) \<Rightarrow> nat \<Rightarrow> bytes" where
  "members_image m p = concat (map (\<lambda>g. member_group m (p * 1636 + g * 4)) [0..<409]) @ replicate 12 0"

lemma mx_consts [simp]:
  "unat OFFSETS_PER_PAGE = 2048" "unat MEMBERS_PER_PAGE = 1636" "MEMBERGROUPS_PER_PAGE = 409"
  "MEMBERGROUP_SIZE = 20" "MEMBERS_PER_MEMBERGROUP = 4" "FLAGBYTES_PER_GROUP = 4" "OFFSET_SZ = 4"
  by (simp_all add: multixact_consts clog_consts)

lemma offset_page_entry_nat:
  "offset_page_entry multi = (multi div OFFSETS_PER_PAGE, unat multi mod 2048 * 4)"
  by (simp add: offset_page_entry_def unat_mod_distrib)

lemma read_offset_image:
  assumes "\<And>p. offsets_page src p = Ok (offsets_image start_of (unat p))"
  shows "read_offset src multi = Ok (start_of (unat multi))"
proof -
  let ?i = "unat multi mod 2048" and ?p = "unat (multi div OFFSETS_PER_PAGE)"
  have p: "?p = unat multi div 2048" by (simp add: unat_div_distrib)
  have "get_range (offsets_image start_of ?p) (?i * 4 + 0) (?i * 4 + 4) = get_range (to_le (start_of (?p * 2048 + ?i))) 0 4"
    using concat_block [of 2048 "\<lambda>i. to_le (start_of (?p * 2048 + i))" 4 ?i 4 "[]" 0]
    by (simp add: offsets_image_def)
  moreover have "?p * 2048 + ?i = unat multi" by (simp add: p)
  ultimately show ?thesis
    by (simp add: read_offset_def offset_page_entry_nat assms codec_simps)
qed

lemma member_group_length: "length (member_group m b) = 20"
  by (simp add: member_group_def numeral_eq_Suc)

lemma member_group_status: "k < 4 \<Longrightarrow> member_group m b ! k = snd (m (b + k))"
  by (simp add: member_group_def nth_append)

lemma member_group_xid:
  assumes "k < 4"
  shows "get_range (member_group m b) (4 + k * 4) (4 + k * 4 + 4) = Some (to_le (fst (m (b + k))))"
proof -
  let ?f = "\<lambda>k. to_le (fst (m (b + k)))"
  have "get_range (concat (map ?f [0..<4]) @ []) (k * 4 + 0) (k * 4 + 4) = get_range (?f k) 0 4"
    using assms by (intro concat_block) simp_all
  then show ?thesis
    by (simp add: member_group_def get_range_append2 get_range_all add.commute)
qed

lemma member_location_nat:
  "member_location off =
     (off div MEMBERS_PER_PAGE, unat off mod 1636 div 4 * 20, unat off mod 4)"
proof -
  have "unat off mod 1636 div 4 < 409"
    by (simp add: less_mult_imp_div_less)
  moreover have "unat off mod 1636 mod 4 = unat off mod 4"
    by (simp add: mod_mod_cancel)
  ultimately show ?thesis
    by (simp add: member_location_def Let_def unat_mod_distrib)
qed

lemma read_member_image:
  assumes "\<And>p. members_page src p = Ok (members_image m (unat p))"
  shows "read_member src off = Ok (m (unat off))"
proof -
  let ?n = "unat off"
  let ?p = "?n div 1636" and ?g = "?n mod 1636 div 4" and ?k = "?n mod 4"
  let ?f = "\<lambda>g. member_group m (?p * 1636 + g * 4)"
  have g: "?g < 409" by (simp add: less_mult_imp_div_less)
  have n: "?p * 1636 + ?g * 4 + ?k = ?n"
  proof -
    have "?n mod 1636 mod 4 = ?n mod 4" by (simp add: mod_mod_cancel)
    then have "?g * 4 + ?k = ?n mod 1636" by (metis div_mult_mod_eq)
    then show ?thesis by (metis div_mult_mod_eq add.assoc)
  qed
  have block: "get_range (members_image m ?p) (?g * 20 + a) (?g * 20 + b) = get_range (?f ?g) a b"
    if "b \<le> 20" for a b
    unfolding members_image_def using g that by (intro concat_block) (simp_all add: member_group_length)
  have "get (members_image m ?p) (?g * 20 + ?k) = get (?f ?g) ?k"
    using block [of "?k + 1" ?k] by (simp add: get_get_range)
  then have st: "get (members_image m ?p) (?g * 20 + ?k) = Some (snd (m ?n))"
    using n by (simp add: get_def member_group_length member_group_status)
  have "get_range (members_image m ?p) (?g * 20 + (4 + ?k * 4)) (?g * 20 + (4 + ?k * 4 + 4))
      = Some (to_le (fst (m ?n)))"
    using block [of "4 + ?k * 4 + 4" "4 + ?k * 4"] member_group_xid [of ?k] n by simp
  then have xid: "get_range (members_image m ?p) (?g * 20 + 4 + ?k * 4) (?g * 20 + 4 + ?k * 4 + 4)
      = Some (to_le (fst (m ?n)))"
    by (simp add: add.assoc)
  have p: "unat (off div MEMBERS_PER_PAGE) = ?p" by (simp add: unat_div_distrib)
  have loc: "member_location off = (off div MEMBERS_PER_PAGE, ?g * 20, ?k)"
    by (rule member_location_nat)
  have rm: "read_member src off =
      rbind (ok_or (get (members_image m ?p) (?g * 20 + ?k))
        (Bail ''multixact members page too short (flags)'')) (\<lambda>status.
      rbind (ok_or (get_range (members_image m ?p) (?g * 20 + 4 + ?k * 4) (?g * 20 + 4 + ?k * 4 + 4))
        (Bail ''multixact members page too short (xid)'')) (\<lambda>b. Ok (from_le b, status)))"
    by (simp add: read_member_def loc assms p Let_def)
  show ?thesis unfolding rm st xid by simp
qed

lemma find_updater_find:
  assumes "\<And>off. off \<in> set offs \<Longrightarrow> read_member src off = Ok (m (unat off))"
  shows "find_updater src offs =
    Ok (map_option (\<lambda>off. fst (m (unat off))) (find (\<lambda>off. snd (m (unat off)) > 3) offs))"
  using assms by (induction offs) (auto simp: STATUS_FOR_UPDATE_def split_beta)

text \<open>Both file-backed areas meet the interface of an SLRU source.\<close>

interpretation file_offsets: slru_source "offsets_page (file_multixact fs dir)" for fs dir
  by unfold_locales (auto simp: file_multixact_def intro: read_slru_whole_page)

interpretation file_members: slru_source "members_page (file_multixact fs dir)" for fs dir
  by unfold_locales (auto simp: file_multixact_def intro: read_slru_whole_page)

section \<open>Properties\<close>

text \<open>
  Resolving a multixact against the SLRU pages PostgreSQL writes. If the offsets
  pages hold the start offset of every multixact and the members pages hold the members in groups
  of four (flag bytes, then transaction ids), the lookup of a multixact with a non-empty range
  returns the transaction id of its first member whose status is above ForUpdate, and nothing if
  every member is a locker.
\<close>
theorem resolve_updater_finds_first_updater:
  assumes "\<And>p. offsets_page src p = Ok (offsets_image start_of (unat p))"
    and "\<And>p. members_page src p = Ok (members_image m (unat p))"
    and "start_of (unat multi) < start_of (unat (multi + 1))"
  shows "resolve_updater src multi =
     Ok (map_option (\<lambda>off. fst (m (unat off)))
          (find (\<lambda>off. snd (m (unat off)) > 3) (u32_range (start_of (unat multi)) (start_of (unat (multi + 1))))))"
  using assms
  by (simp add: resolve_updater_def read_offset_image find_updater_find read_member_image not_le)

theorem resolve_updater_finds_first_updater_witness:
  "resolve_updater
     \<lparr>offsets_page = (\<lambda>p. Ok (offsets_image (\<lambda>i. if i = 1 then 1 else if i = 2 then 3 else 0) (unat p))),
      members_page = (\<lambda>p. Ok (members_image (\<lambda>i. if i = 1 then (768, 0) else (769, 4)) (unat p)))\<rparr> 1
   = Ok (Some 769)"
proof -
  have range: "u32_range 1 3 = [1, 2]"
    by (simp add: u32_range_def upt_rec)
  show ?thesis
    using resolve_updater_finds_first_updater
      [of "\<lparr>offsets_page = (\<lambda>p. Ok (offsets_image (\<lambda>i. if i = 1 then 1 else if i = 2 then 3 else 0) (unat p))),
        members_page = (\<lambda>p. Ok (members_image (\<lambda>i. if i = 1 then (768, 0) else (769, 4)) (unat p)))\<rparr>"
        "\<lambda>i. if i = 1 then 1 else if i = 2 then 3 else 0"
        "\<lambda>i. if i = 1 then (768, 0) else (769, 4)" 1]
    by (simp add: range)
qed

text \<open>The transaction whose commit ends a row version, if there is one.\<close>

definition deleter_of :: "MultiXactSource \<Rightarrow> u32 \<Rightarrow> u16 \<Rightarrow> u32 \<Rightarrow> bool" where
  "deleter_of mx xmax infomask d \<longleftrightarrow>
     infomask AND HEAP_XMAX_LOCK_ONLY = 0 \<and>
     (if infomask AND HEAP_XMAX_IS_MULTI \<noteq> 0 then resolve_updater mx xmax = Ok (Some d)
      else xmax \<noteq> INVALID_XID \<and> d = xmax)"



end
