(* ===== verification/Fragment.thy ===== *)
theory Fragment
  imports Reconstruct Multixact
begin

text \<open>
  \<^verbatim>\<open>src/fragment.rs\<close>: the rows a columnar fragment carries for a heap page. Visibility is
  resolved against the commit log, HOT chains collapse to their visible version, and a row keeps the
  line pointer an index entry resolves to. The walk along a chain is bounded as in the source; its
  specification is the relation \<open>hot_succ\<close> between the versions of a chain.
\<close>

section \<open>Headers and roots\<close>

record FragmentRow =
  fr_block :: u32
  fr_offnum :: u16
  fr_row :: Row

record RawFragmentRow =
  rfr_block :: u32
  rfr_offnum :: u16
  rfr_row :: Row
  rfr_raw :: RawTuple

record TupleHdr =
  th_xmin :: u32
  th_xmax :: u32
  th_infomask :: u16
  th_infomask2 :: u16
  th_ctid_block :: u32
  th_ctid_off :: u16

definition read_header :: "bytes \<Rightarrow> nat \<Rightarrow> TupleHdr result" where
  "read_header page off =
     rbind (ok_or (get_range page off (off + SIZEOF_HEAP_TUPLE_HEADER)) (Bail ''tuple header beyond page'')) (\<lambda>t.
       Ok \<lparr>th_xmin = from_le (take 4 t), th_xmax = from_le (take 4 (drop 4 t)),
           th_infomask = from_le (take 2 (drop 20 t)), th_infomask2 = from_le (take 2 (drop 18 t)),
           th_ctid_block = block_id t, th_ctid_off = from_le (take 2 (drop 16 t))\<rparr>)"

definition check_page :: "bytes \<Rightarrow> unit result" where
  "check_page page =
     (if length page \<noteq> PAGE_SIZE then Err (Bail ''emit_page: expected an 8192-byte page'') else Ok ())"

text \<open>One line pointer: \<open>None\<close> is the \<^verbatim>\<open>continue\<close> of the loop.\<close>

definition chain_root :: "bytes \<Rightarrow> u16 \<Rightarrow> (u16 \<times> u16) option result" where
  "chain_root page offnum =
     rbind (line_pointer page offnum) (\<lambda>lp.
     if lpr_flags lp = 2 then Ok (Some (offnum, lpr_off lp))
     else if lpr_flags lp = 1 then
       rbind (read_header page (unat (lpr_off lp))) (\<lambda>hdr.
         Ok (if th_infomask2 hdr AND HEAP_ONLY_TUPLE \<noteq> 0 then None else Some (offnum, offnum)))
     else Ok None)"

definition chain_roots :: "bytes \<Rightarrow> (u16 \<times> u16) list result" where
  "chain_roots page =
     rbind (slice page 12 14) (\<lambda>b.
     let n_line_pointers = (unat (from_le b :: u16) - 24) div 4 in
     rbind (rmap (\<lambda>k. chain_root page (word_of_nat k)) [1..<n_line_pointers + 1]) (\<lambda>rs.
       Ok (List.map_filter id rs)))"

section \<open>The visible version of a chain\<close>

definition MAX_CHAIN :: nat where "MAX_CHAIN = 1024"

datatype walk = Found u16 | Dead_End | Follow u16

text \<open>One iteration of the loop at line pointer \<open>cur\<close>.\<close>

definition chain_step :: "bytes \<Rightarrow> u32 \<Rightarrow> clog_source \<Rightarrow> u16 \<Rightarrow> walk result" where
  "chain_step page block clog cur =
     rbind (line_pointer page cur) (\<lambda>lp.
     if lpr_flags lp \<noteq> 1 then Ok Dead_End
     else
       rbind (read_header page (unat (lpr_off lp))) (\<lambda>hdr.
       rbind (tuple_visible clog (th_xmin hdr) (th_xmax hdr) (th_infomask hdr)) (\<lambda>vis.
         if vis then Ok (Found cur)
         else if th_infomask2 hdr AND HEAP_HOT_UPDATED \<noteq> 0 \<and> th_ctid_block hdr = block \<and>
                 th_ctid_off hdr \<noteq> 0 \<and> th_ctid_off hdr \<noteq> cur
              then Ok (Follow (th_ctid_off hdr))
              else Ok Dead_End)))"

fun chain_walk :: "nat \<Rightarrow> bytes \<Rightarrow> u32 \<Rightarrow> clog_source \<Rightarrow> u16 \<Rightarrow> u16 option result" where
  "chain_walk 0 page block clog cur = Err (Bail ''emit_page: HOT chain exceeds MAX_CHAIN (cycle?)'')"
| "chain_walk (Suc n) page block clog cur =
     rbind (chain_step page block clog cur) (\<lambda>w.
       case w of Found v \<Rightarrow> Ok (Some v) | Dead_End \<Rightarrow> Ok None | Follow nxt \<Rightarrow> chain_walk n page block clog nxt)"

definition visible_version :: "bytes \<Rightarrow> u32 \<Rightarrow> u16 \<Rightarrow> clog_source \<Rightarrow> u16 option result" where
  "visible_version page block start clog = chain_walk MAX_CHAIN page block clog start"

section \<open>Emitting a page\<close>

text \<open>
  The loop over the roots, with the per-row work as an argument: \<^verbatim>\<open>emit_page\<close> and
  \<^verbatim>\<open>emit_page_raw\<close> differ only in it.
\<close>

fun emit_rows :: "(u16 \<Rightarrow> u16 \<Rightarrow> 'r result) \<Rightarrow> bytes \<Rightarrow> u32 \<Rightarrow> clog_source \<Rightarrow> (u16 \<times> u16) list \<Rightarrow> 'r list result" where
  "emit_rows mk page block clog [] = Ok []"
| "emit_rows mk page block clog ((index_offnum, chain_start) # roots) =
     rbind (visible_version page block chain_start clog) (\<lambda>v.
       case v of
         None \<Rightarrow> emit_rows mk page block clog roots
       | Some vis \<Rightarrow>
           rbind (mk index_offnum vis) (\<lambda>r.
           rbind (emit_rows mk page block clog roots) (\<lambda>rs. Ok (r # rs))))"

definition emit_page ::
  "decompressor \<Rightarrow> bytes \<Rightarrow> u32 \<Rightarrow> TableDesc \<Rightarrow> ToastCache \<Rightarrow> clog_source \<Rightarrow> FragmentRow list result" where
  "emit_page lz4 page block desc toast clog =
     rbind (check_page page) (\<lambda>_.
     rbind (chain_roots page)
       (emit_rows (\<lambda>index_offnum vis.
          rbind (decode_tuple_from_page lz4 page vis desc toast) (\<lambda>(row, _).
            Ok \<lparr>fr_block = block, fr_offnum = index_offnum, fr_row = row\<rparr>)) page block clog))"

definition emit_page_raw ::
  "decompressor \<Rightarrow> bytes \<Rightarrow> u32 \<Rightarrow> TableDesc \<Rightarrow> ToastCache \<Rightarrow> clog_source \<Rightarrow> RawFragmentRow list result" where
  "emit_page_raw lz4 page block desc toast clog =
     rbind (check_page page) (\<lambda>_.
     rbind (chain_roots page)
       (emit_rows (\<lambda>index_offnum vis.
          rbind (decode_tuple_from_page lz4 page vis desc toast) (\<lambda>(row, _).
          rbind (raw_from_page page vis) (\<lambda>raw.
            Ok \<lparr>rfr_block = block, rfr_offnum = index_offnum, rfr_row = row, rfr_raw = raw\<rparr>))) page block clog))"

section \<open>Chains\<close>

inductive hot_succ :: "bytes \<Rightarrow> u32 \<Rightarrow> clog_source \<Rightarrow> u16 \<Rightarrow> u16 \<Rightarrow> bool" for page block clog where
  hot_succ: "\<lbrakk>line_pointer page cur = Ok lp; lpr_flags lp = 1; read_header page (unat (lpr_off lp)) = Ok hdr;
     tuple_visible clog (th_xmin hdr) (th_xmax hdr) (th_infomask hdr) = Ok False;
     th_infomask2 hdr AND HEAP_HOT_UPDATED \<noteq> 0; th_ctid_block hdr = block; th_ctid_off hdr \<noteq> 0;
     th_ctid_off hdr \<noteq> cur\<rbrakk> \<Longrightarrow> hot_succ page block clog cur (th_ctid_off hdr)"

definition version_visible :: "bytes \<Rightarrow> clog_source \<Rightarrow> u16 \<Rightarrow> bool" where
  "version_visible page clog cur \<longleftrightarrow>
     (\<exists>lp hdr. line_pointer page cur = Ok lp \<and> lpr_flags lp = 1 \<and> read_header page (unat (lpr_off lp)) = Ok hdr \<and>
        tuple_visible clog (th_xmin hdr) (th_xmax hdr) (th_infomask hdr) = Ok True)"

lemma chain_step_Found: "chain_step page block clog cur = Ok (Found v) \<longleftrightarrow> version_visible page clog cur \<and> v = cur"
proof
  show "chain_step page block clog cur = Ok (Found v) \<Longrightarrow> version_visible page clog cur \<and> v = cur"
    by (auto simp: chain_step_def version_visible_def result_simps split: if_splits)
  show "version_visible page clog cur \<and> v = cur \<Longrightarrow> chain_step page block clog cur = Ok (Found v)"
    by (auto simp: chain_step_def version_visible_def)
qed

lemma chain_step_Follow: "chain_step page block clog cur = Ok (Follow nxt) \<longleftrightarrow> hot_succ page block clog cur nxt"
proof
  show "chain_step page block clog cur = Ok (Follow nxt) \<Longrightarrow> hot_succ page block clog cur nxt"
    by (auto simp: chain_step_def hot_succ.simps result_simps split: if_splits)
  show "hot_succ page block clog cur nxt \<Longrightarrow> chain_step page block clog cur = Ok (Follow nxt)"
    by (auto simp: chain_step_def hot_succ.simps)
qed

lemma visible_no_succ: "version_visible page clog cur \<Longrightarrow> \<not> hot_succ page block clog cur nxt"
  by (auto simp: version_visible_def hot_succ.simps)

lemma chain_walk_Some:
  "chain_walk n page block clog start = Ok (Some v) \<longleftrightarrow>
   (\<exists>k < n. (hot_succ page block clog ^^ k) start v \<and> version_visible page clog v)"
proof (induction n arbitrary: start)
  case (Suc n)
  have "(\<exists>k < Suc n. (hot_succ page block clog ^^ k) start v \<and> version_visible page clog v) \<longleftrightarrow>
      chain_step page block clog start = Ok (Found v) \<or>
      (\<exists>nxt. chain_step page block clog start = Ok (Follow nxt) \<and> chain_walk n page block clog nxt = Ok (Some v))"
    unfolding Ex_less_Suc2 relpowp_Suc_left relcompp_apply chain_step_Found chain_step_Follow Suc.IH by auto
  then show ?case
    by (cases "chain_step page block clog start") (auto split: walk.splits)
qed simp

text \<open>
  C25 (functional): the chain walk finds the visible version. Resolving a chain returns a line
  pointer exactly when it is reached from the start by at most 1023 HOT links, each leaving a
  version that is invisible, and the version it names is visible.
\<close>
theorem visible_version_characterised:
  "visible_version page block start clog = Ok (Some v) \<longleftrightarrow>
   (\<exists>k < MAX_CHAIN. (hot_succ page block clog ^^ k) start v \<and> version_visible page clog v)"
  by (simp add: visible_version_def chain_walk_Some)

section \<open>Emitting rebuilt pages\<close>

lemma emit_rows_map:
  assumes "\<And>i v r. mk' i v = Ok r \<Longrightarrow> mk i v = Ok (f r)"
  shows "emit_rows mk' page block clog roots = Ok rs \<Longrightarrow> emit_rows mk page block clog roots = Ok (map f rs)"
proof (induction roots arbitrary: rs)
  case (Cons p roots)
  obtain a b where p: "p = (a, b)" by (cases p)
  from Cons.prems p obtain v where v: "visible_version page block b clog = Ok v"
    by (auto simp: result_simps)
  show ?case
  proof (cases v)
    case None
    then show ?thesis using Cons v p by simp
  next
    case (Some y)
    with Cons.prems v p obtain r rs' where "mk' a y = Ok r" "emit_rows mk' page block clog roots = Ok rs'" "rs = r # rs'"
      by (auto simp: result_simps)
    with Cons.IH assms Some v p show ?thesis by simp
  qed
qed simp

lemma emit_rows_all:
  assumes "\<And>a s. (a, s) \<in> set roots \<Longrightarrow> visible_version page block s clog = Ok (Some s) \<and> mk a s = Ok (r a)"
  shows "emit_rows mk page block clog roots = Ok (map (\<lambda>(a, s). r a) roots)"
  using assms
proof (induction roots)
  case (Cons p roots)
  obtain a b where p: "p = (a, b)" by (cases p)
  have "visible_version page block b clog = Ok (Some b)" "mk a b = Ok (r a)"
    using Cons.prems [of a b] p by auto
  moreover have "emit_rows mk page block clog roots = Ok (map (\<lambda>(a, s). r a) roots)"
    using Cons.prems by (intro Cons.IH) auto
  ultimately show ?case using p by simp
qed simp

lemma get_range_prefix: "get_range page off (off + n) = Some t \<Longrightarrow> k \<le> n \<Longrightarrow> get_range page off (off + k) = Some (take k t)"
  by (auto simp: get_range_def min_def split: if_splits)

lemma item_line_pointer:
  assumes "item_bytes page i = Some (to_le (w :: u32))" and "i < 65535"
  shows "line_pointer page (word_of_nat (i + 1)) =
    Ok \<lparr>lpr_flags = ucast (drop_bit 15 w AND 3), lpr_off = ucast (w AND 0x7FFF), lpr_len = ucast (drop_bit 17 w)\<rparr>"
proof -
  have "get_range page (24 + i * 4) (24 + i * 4 + 4) = Some (to_le w)"
    using assms(1) by (simp add: mult.commute add.commute)
  then show ?thesis
    unfolding line_pointer_def Let_def page_sizes offnum_word(1) [OF assms(2)]
    using offnum_word(2) [OF assms(2)] by simp
qed

text \<open>The header of a placed frozen tuple, and what the emitter does with it.\<close>

lemma frozen_version:
  assumes "holds_tuple page u i tup" and "encode_tuple desc block (word_of_nat (i + 1)) (frozen row) = Ok tup"
    and "desc_wf desc" and "length (phys desc) \<le> 1600" and "i < 65535"
  shows "chain_root page (word_of_nat (i + 1)) = Ok (Some (word_of_nat (i + 1), word_of_nat (i + 1)))"
    and "visible_version page block (word_of_nat (i + 1)) clog = Ok (Some (word_of_nat (i + 1)))"
proof -
  let ?o = "word_of_nat (i + 1) :: u16"
  from line_pointer_read [OF assms(1,5)] obtain off where l: "off + length tup \<le> PAGE_SIZE"
    "line_pointer page ?o = Ok \<lparr>lpr_flags = 1, lpr_off = word_of_nat off, lpr_len = word_of_nat (length tup)\<rparr>"
    "get_range page off (off + length tup) = Some tup" by metis
  have w: "unat (word_of_nat off :: u16) = off" using l(1) by (intro unat_u16) (simp add: PAGE_SIZE_def)
  have g: "get_range page off (off + 23) = Some (take 23 tup)"
    using get_range_prefix [OF l(3)] encode_tuple_length [OF assms(2)] by blast
  from encode_tuple_form [OF assms(2-4)] obtain bits attrs hn hv cblk coff where
    f0: "tup = heap_header (ts_xmin (frozen row)) (ts_xmax (frozen row)) cblk coff
      (infomask2 (word_of_nat (length (phys desc))) (ts_heap_only (frozen row)) (ts_hot_updated (frozen row)))
      (infomask (ts_xmin (frozen row)) (ts_xmax (frozen row)) hn hv) (word_of_nat (23 + length bits)) @ bits @ attrs"
    by metis
  have f: "tup = heap_header 2 0 cblk coff (infomask2 (word_of_nat (length (phys desc))) False False)
          (infomask 2 0 hn hv) (word_of_nat (23 + length bits)) @ bits @ attrs"
    unfolding f0 by (simp add: frozen_def Reconstruct.FROZEN_XID_def)
  define im where "im = infomask 2 0 hn hv"
  define im2 where "im2 = infomask2 (word_of_nat (length (phys desc))) False False"
  have t: "take 23 tup = heap_header 2 0 cblk coff im2 im (word_of_nat (23 + length bits)) @ []"
    by (simp add: f im_def im2_def)
  have h: "read_header page off = Ok \<lparr>th_xmin = 2, th_xmax = 0, th_infomask = im, th_infomask2 = im2,
      th_ctid_block = cblk, th_ctid_off = coff\<rparr>"
    unfolding read_header_def SIZEOF_HEAP_TUPLE_HEADER_def g ok_or.simps rbind.simps t header_fields ..
  have ho: "im2 AND HEAP_ONLY_TUPLE = 0" using infomask2_flags(1) [of _ False] by (simp add: im2_def)
  show "chain_root page ?o = Ok (Some (?o, ?o))"
    unfolding chain_root_def l(2) rbind.simps LinePointer.simps w h TupleHdr.simps using ho by simp
  have v: "tuple_visible clog 2 0 im = Ok True"
    by (simp add: tuple_visible_def resolve_xid_def clog_consts)
  have "chain_step page block clog ?o = Ok (Found ?o)"
    unfolding chain_step_def l(2) rbind.simps LinePointer.simps w h TupleHdr.simps v by simp
  then show "visible_version page block ?o clog = Ok (Some ?o)"
    by (simp add: visible_version_def MAX_CHAIN_def numeral_eq_Suc)
qed


text \<open>Pages of frozen rows with gaps: live rows, unused and dead line pointers.\<close>

fun plain_slot :: "TableDesc \<Rightarrow> Slot \<Rightarrow> bool" where
  "plain_slot desc (Tuple spec) \<longleftrightarrow> spec = frozen (ts_row spec) \<and> canonical_row (cols desc) (ts_row spec)"
| "plain_slot desc s \<longleftrightarrow> s = Unused \<or> s = Dead"

fun slot_row :: "Slot \<Rightarrow> Row option" where
  "slot_row (Tuple spec) = Some (ts_row spec)"
| "slot_row s = None"

definition fragment_of :: "u32 \<Rightarrow> Slot list \<Rightarrow> FragmentRow list" where
  "fragment_of block slots =
     List.map_filter (\<lambda>i. map_option (\<lambda>row. \<lparr>fr_block = block, fr_offnum = word_of_nat (i + 1), fr_row = row\<rparr>)
       (slot_row (slots ! i))) [0..<length slots]"

lemma plain_chain_root:
  assumes "build_page desc block lsn slots = Ok page" and "desc_wf desc" and "length (phys desc) \<le> 1600"
    and "i < length slots" and "plain_slot desc (slots ! i)"
  shows "chain_root page (word_of_nat (i + 1)) =
      Ok (map_option (\<lambda>_. (word_of_nat (i + 1), word_of_nat (i + 1))) (slot_row (slots ! i)))"
    and "slot_row (slots ! i) = Some row \<Longrightarrow>
      visible_version page block (word_of_nat (i + 1)) clog = Ok (Some (word_of_nat (i + 1)))"
proof -
  from build_page_held [OF assms(1)] obtain u where
    "PAGE_HEADER_SIZE + length slots * ITEM_ID_SIZE \<le> PAGE_SIZE" and h: "slot_held desc block u page i (slots ! i)"
    using assms(4) by (metis order_trans)
  then have i: "i < 65535" using assms(4) by (simp add: page_sizes)
  have T: "chain_root page (word_of_nat (i + 1)) = Ok (Some (word_of_nat (i + 1), word_of_nat (i + 1))) \<and>
      visible_version page block (word_of_nat (i + 1)) clog = Ok (Some (word_of_nat (i + 1)))"
    if "slots ! i = Tuple spec" for spec
    using that assms(5) h frozen_version [OF _ _ assms(2,3) i, where row = "ts_row spec" and page = page and block = block and u = u]
    by (auto simp del: of_nat_add)
  then show "slot_row (slots ! i) = Some row \<Longrightarrow>
      visible_version page block (word_of_nat (i + 1)) clog = Ok (Some (word_of_nat (i + 1)))"
    by (cases "slots ! i") (auto simp del: of_nat_add)
  show "chain_root page (word_of_nat (i + 1)) =
      Ok (map_option (\<lambda>_. (word_of_nat (i + 1), word_of_nat (i + 1))) (slot_row (slots ! i)))"
  proof (cases "slots ! i")
    case (Tuple spec)
    then show ?thesis using T by simp
  next
    case Unused
    with h have "item_bytes page i = Some (to_le (0 :: u32))" by simp
    then show ?thesis unfolding chain_root_def using item_line_pointer [OF _ i, of page 0] Unused by simp
  next
    case Dead
    with h have "item_bytes page i = Some (to_le (push_bit 15 3 :: u32))" by simp
    then show ?thesis unfolding chain_root_def using item_line_pointer [OF _ i, of page "push_bit 15 3"] Dead by simp
  qed (use assms(5) in auto)
qed

lemma rebuilt_chain_roots:
  assumes "build_page desc block lsn slots = Ok page" and "desc_wf desc" and "length (phys desc) \<le> 1600"
    and "\<forall>s \<in> set slots. plain_slot desc s"
  shows "chain_roots page = Ok (List.map_filter (\<lambda>i. map_option (\<lambda>_. (word_of_nat (i + 1), word_of_nat (i + 1)))
    (slot_row (slots ! i))) [0..<length slots])"
proof -
  from build_page_held [OF assms(1)] obtain u where
    h: "PAGE_HEADER_SIZE + length slots * ITEM_ID_SIZE \<le> PAGE_SIZE"
      "get_range page 12 14 = Some (to_le (word_of_nat (PAGE_HEADER_SIZE + length slots * ITEM_ID_SIZE) :: u16))"
    by (metis order_trans)
  have n: "(unat (word_of_nat (PAGE_HEADER_SIZE + length slots * ITEM_ID_SIZE) :: u16) - 24) div 4 = length slots"
    using h(1) by (subst unat_u16) (simp_all add: page_sizes)
  let ?g = "\<lambda>k. map_option (\<lambda>_. (word_of_nat k :: u16, word_of_nat k :: u16)) (slot_row (slots ! (k - 1)))"
  have "chain_root page (word_of_nat k) = Ok (?g k)" if "k \<in> set [1..<length slots + 1]" for k
    using plain_chain_root(1) [OF assms(1-3), of "k - 1"] assms(4) that by auto
  then have "rmap (\<lambda>k. chain_root page (word_of_nat k)) [1..<length slots + 1] = Ok (map ?g [1..<length slots + 1])"
    by (rule rmap_all_Ok)
  moreover have "map ?g [1..<length slots + 1] = map (\<lambda>i. ?g (i + 1)) [0..<length slots]"
    by (simp add: map_Suc_upt [symmetric] comp_def del: upt_Suc map_Suc_upt)
  ultimately show ?thesis
    unfolding chain_roots_def slice_def h(2) ok_or.simps rbind.simps from_to_le_u16 Let_def n
    by (simp add: List.map_filter_def comp_def filter_map del: upt_Suc)
qed

text \<open>
  C24 (roundtrip): the emitter inverts the page builder. For a page rebuilt from frozen canonical
  rows with any unused and dead line pointers between them, emitting it against any commit log gives
  every row exactly once, in line-pointer order, at the block and offset number an index entry for
  it resolves to.
\<close>
theorem emit_inverts_build:
  assumes "build_page desc block lsn slots = Ok page" and "desc_wf desc" and "length (phys desc) \<le> 1600"
    and "\<forall>s \<in> set slots. plain_slot desc s"
  shows "emit_page lz4 page block desc toast clog = Ok (fragment_of block slots)"
proof -
  define roots where "roots = List.map_filter (\<lambda>i. map_option (\<lambda>_. (word_of_nat (i + 1) :: u16, word_of_nat (i + 1) :: u16))
    (slot_row (slots ! i))) [0..<length slots]"
  define row_at where "row_at = (\<lambda>a :: u16. the (slot_row (slots ! (unat a - 1))))"
  let ?mk = "\<lambda>index_offnum vis. rbind (decode_tuple_from_page lz4 page vis desc toast) (\<lambda>(row, _).
            Ok \<lparr>fr_block = block, fr_offnum = index_offnum, fr_row = row\<rparr>)"
  from build_page_held [OF assms(1)] obtain u where h: "length page = PAGE_SIZE"
    "PAGE_HEADER_SIZE + length slots * ITEM_ID_SIZE \<le> PAGE_SIZE" by (metis order_trans)
  have off: "unat (word_of_nat (i + 1) :: u16) = i + 1" if "i < length slots" for i
    using that h(2) by (intro offnum_word(1)) (simp add: page_sizes)
  have step: "visible_version page block s clog = Ok (Some s) \<and> ?mk a s = Ok \<lparr>fr_block = block, fr_offnum = a, fr_row = row_at a\<rparr>"
    if "(a, s) \<in> set roots" for a s
  proof -
    from that obtain i row where i: "i < length slots" "slot_row (slots ! i) = Some row" "a = word_of_nat (i + 1)" "s = a"
      by (auto simp: roots_def map_filter_def)
    then obtain spec where spec: "slots ! i = Tuple spec" "ts_row spec = row" by (cases "slots ! i") auto
    have p: "plain_slot desc (slots ! i)" using assms(4) i(1) by simp
    have "\<exists>attrs. decode_tuple_from_page lz4 page (word_of_nat (i + 1)) desc toast = Ok (row, attrs)"
      using rebuilt_tuple_decodes [OF assms(1-3) i(1) spec(1)] spec p by fastforce
    moreover have "row_at a = row" using i off by (simp add: row_at_def del: of_nat_add)
    ultimately show ?thesis using plain_chain_root(2) [OF assms(1-3) i(1) p i(2)] i(3,4) by (auto simp del: of_nat_add)
  qed
  have "emit_rows ?mk page block clog roots = Ok (map (\<lambda>(a, s). \<lparr>fr_block = block, fr_offnum = a, fr_row = row_at a\<rparr>) roots)"
    by (rule emit_rows_all [OF step])
  moreover have "map (\<lambda>(a, s). \<lparr>fr_block = block, fr_offnum = a, fr_row = row_at a\<rparr>) roots = fragment_of block slots"
    using off by (auto simp: roots_def fragment_of_def map_filter_def row_at_def simp del: of_nat_add)
  ultimately show ?thesis
    unfolding emit_page_def check_page_def rebuilt_chain_roots [OF assms] roots_def using h(1) by simp
qed

theorem emit_inverts_build_witness:
  "\<exists>page. build_page sample_desc 7 0 [Dead, Unused, slot_live sample_row] = Ok page \<and>
     emit_page (\<lambda>_ _. None) page 7 sample_desc toast_default (\<lambda>_. Ok []) =
       Ok [\<lparr>fr_block = 7, fr_offnum = 3, fr_row = sample_row\<rparr>]"
proof -
  have "slots_need sample_desc 7 0 [Dead, Unused, slot_live sample_row] = Some 32"
    using sample_need [of 7] by simp
  then obtain page where p: "build_page sample_desc 7 0 [Dead, Unused, slot_live sample_row] = Ok page"
    using build_page_iff [of sample_desc 7 0 "[Dead, Unused, slot_live sample_row]"] by (auto simp: page_sizes)
  have "emit_page (\<lambda>_ _. None) page 7 sample_desc toast_default (\<lambda>_. Ok []) =
      Ok (fragment_of 7 [Dead, Unused, slot_live sample_row])"
    by (rule emit_inverts_build [OF p])
      (simp_all add: slot_live_def frozen_def sample_desc_def sample_row_def desc_wf_def canonical_row_def Let_def)
  with p show ?thesis by (simp add: fragment_of_def map_filter_def slot_live_def frozen_def)
qed

text \<open>
  the two emitters agree. When the byte-exact emitter succeeds, the plain emitter
  succeeds on the same page and returns the same rows at the same addresses.
\<close>
theorem emitters_agree:
  assumes "emit_page_raw lz4 page block desc toast clog = Ok rs"
  shows "emit_page lz4 page block desc toast clog =
    Ok (map (\<lambda>r. \<lparr>fr_block = rfr_block r, fr_offnum = rfr_offnum r, fr_row = rfr_row r\<rparr>) rs)"
proof -
  from assms obtain roots where "check_page page = Ok ()" "chain_roots page = Ok roots"
    "emit_rows (\<lambda>index_offnum vis.
          rbind (decode_tuple_from_page lz4 page vis desc toast) (\<lambda>(row, _).
          rbind (raw_from_page page vis) (\<lambda>raw.
            Ok \<lparr>rfr_block = block, rfr_offnum = index_offnum, rfr_row = row, rfr_raw = raw\<rparr>))) page block clog roots = Ok rs"
    by (auto simp: emit_page_raw_def result_simps)
  then show ?thesis
    unfolding emit_page_def by (auto intro!: emit_rows_map [rotated] simp: result_simps)
qed

theorem emitters_agree_witness:
  "emit_page_raw (\<lambda>_ _. None) (replicate PAGE_SIZE 0) 7 sample_desc toast_default (\<lambda>_. Ok []) = Ok [] \<and>
   emit_page (\<lambda>_ _. None) (replicate PAGE_SIZE 0) 7 sample_desc toast_default (\<lambda>_. Ok []) = Ok []"
proof -
  have "chain_roots (replicate PAGE_SIZE 0) = Ok []"
    by (simp add: chain_roots_def slice_def get_range_def PAGE_SIZE_def from_le_def numeral_2_eq_2 map_filter_def)
  then have "emit_page_raw (\<lambda>_ _. None) (replicate PAGE_SIZE 0) 7 sample_desc toast_default (\<lambda>_. Ok []) = Ok []"
    by (simp add: emit_page_raw_def check_page_def)
  with emitters_agree [OF this] show ?thesis by simp
qed

end
