(* ===== verification/Catalog.thy ===== *)
theory Catalog
  imports Heap Clog
begin

text \<open>
  \<^verbatim>\<open>src/catalog.rs\<close>: table descriptors derived from the heap pages of \<open>pg_class\<close>,
  \<open>pg_attribute\<close> and \<open>pg_index\<close>. A page source is the function that returns a relation's pages; the
  commit log decides which row versions count. The main property is that the descriptor derived from
  pages is the one the SQL path of \<^verbatim>\<open>src/schema.rs\<close> builds from the same catalog rows.
\<close>

definition PG_CLASS_OID :: u32 where "PG_CLASS_OID = 1259"
definition PG_ATTRIBUTE_OID :: u32 where "PG_ATTRIBUTE_OID = 1249"
definition PG_INDEX_OID :: u32 where "PG_INDEX_OID = 2610"
definition PUBLIC_NAMESPACE_OID :: u32 where "PUBLIC_NAMESPACE_OID = 2200"
definition CAT_PAGE_SZ :: nat where "CAT_PAGE_SZ = 8192"

section \<open>Page sources and the relation map\<close>

type_synonym page_source = "u32 \<Rightarrow> bytes list result"

text \<open>The default \<^verbatim>\<open>rel_pages\<close> of the trait, from a block count and single pages.\<close>

definition rel_pages_default :: "(u32 \<Rightarrow> u32 result) \<Rightarrow> (u32 \<Rightarrow> u32 \<Rightarrow> bytes result) \<Rightarrow> page_source" where
  "rel_pages_default rel_nblocks get_page filenode =
     rbind (rel_nblocks filenode) (\<lambda>n. rmap (get_page filenode) (u32_range 0 n))"

fun relmap_entries :: "bytes \<Rightarrow> nat list \<Rightarrow> (u32 \<times> u32) list \<Rightarrow> (u32 \<times> u32) list result" where
  "relmap_entries b [] m = Ok m"
| "relmap_entries b (i # is) m =
     (let off = 8 + i * 8 in
      rbind (ok_or (get_range b off (off + 4)) (Bail ''relmap truncated'')) (\<lambda>oid.
      rbind (slice b (off + 4) (off + 8)) (\<lambda>node.
        relmap_entries b is (AList.update (from_le oid) (from_le node) m))))"

definition parse_relmap :: "bytes \<Rightarrow> (u32 \<times> u32) list result" where
  "parse_relmap b =
     (if length b < 8 then Err (Bail ''relmap blob too short'')
      else if (from_le (take 4 b) :: u32) \<noteq> 0x592717 then Err (Bail ''relmap magic'')
      else relmap_entries b [0..<unat (from_le (take 4 (drop 4 b)) :: u32)] [])"

record MappedRels =
  pg_class :: u32
  pg_attribute :: u32
  pg_index :: "u32 option"

definition from_relmap :: "(u32 \<times> u32) list \<Rightarrow> MappedRels result" where
  "from_relmap relmap =
     rbind (ok_or (map_of relmap PG_CLASS_OID) (Bail ''pg_class not in relmapper'')) (\<lambda>c.
     rbind (ok_or (map_of relmap PG_ATTRIBUTE_OID) (Bail ''pg_attribute not in relmapper'')) (\<lambda>a.
       Ok \<lparr>pg_class = c, pg_attribute = a, pg_index = map_of relmap PG_INDEX_OID\<rparr>))"

section \<open>Catalog tuples\<close>

text \<open>One line pointer at byte \<open>o'\<close>: xmin, xmax, infomask and the attribute bytes, or nothing.\<close>

definition page_tuple :: "bytes \<Rightarrow> nat \<Rightarrow> (u32 \<times> u32 \<times> u16 \<times> bytes) option" where
  "page_tuple page o' =
     (let lp = from_le (take 4 (drop o' page)) :: u32;
          off = unat (lp AND 0x7FFF); flags = drop_bit 15 lp AND 3; len = unat (drop_bit 17 lp)
      in if flags \<noteq> 1 \<or> off + len > CAT_PAGE_SZ \<or> len < 23 then None
         else
           let tup = take len (drop off page); t_hoff = unat (tup ! 22)
           in if t_hoff \<le> len
              then Some (from_le (take 4 tup), from_le (take 4 (drop 4 tup)), from_le (take 2 (drop 20 tup)), drop t_hoff tup)
              else None)"

text \<open>\<^verbatim>\<open>(24..pd_lower.min(PAGE_SZ)).step_by(4)\<close>\<close>

definition line_pointer_offsets :: "nat \<Rightarrow> nat list" where
  "line_pointer_offsets pd_lower = map (\<lambda>k. 24 + 4 * k) [0..<(min pd_lower CAT_PAGE_SZ - 24 + 3) div 4]"

definition page_tuples :: "bytes \<Rightarrow> (u32 \<times> u32 \<times> u16 \<times> bytes) list" where
  "page_tuples page =
     (if length page \<noteq> CAT_PAGE_SZ then []
      else List.map_filter (page_tuple page)
             (line_pointer_offsets (unat (from_le (take 2 (drop 12 page)) :: u16))))"

definition name64 :: "bytes \<Rightarrow> string" where
  "name64 b = from_utf8_lossy (if 0 \<in> set b then takeWhile (\<lambda>c. c \<noteq> 0) b else take 64 b)"

record ClassRow =
  cls_oid :: u32
  cls_name :: string
  cls_namespace :: u32
  cls_filenode :: u32
  cls_toastrelid :: u32
  cls_relkind :: u8
  cls_natts :: i16

definition get_le :: "bytes \<Rightarrow> nat \<Rightarrow> nat \<Rightarrow> 'a::len word option" where
  "get_le a i j = map_option from_le (get_range a i j)"

definition parse_pg_class :: "bytes \<Rightarrow> ClassRow option" where
  "parse_pg_class a =
     Option.bind (get_le a 0 4) (\<lambda>oid.
     Option.bind (get_range a 4 68) (\<lambda>nm.
     Option.bind (get_le a 68 72) (\<lambda>namespace.
     Option.bind (get_le a 88 92) (\<lambda>filenode.
     Option.bind (get_le a 108 112) (\<lambda>toastrelid.
     Option.bind (get a 115) (\<lambda>relkind.
     Option.bind (get_le a 116 118) (\<lambda>natts.
       Some \<lparr>cls_oid = oid, cls_name = name64 nm, cls_namespace = namespace, cls_filenode = filenode,
             cls_toastrelid = toastrelid, cls_relkind = relkind, cls_natts = natts\<rparr>)))))))"

record AttRow =
  att_relid :: u32
  att_name :: string
  att_typid :: u32
  att_len :: i16
  att_num :: i16
  att_align :: u8
  att_hasmissing :: bool
  att_isdropped :: bool

definition parse_pg_attribute :: "bytes \<Rightarrow> AttRow option" where
  "parse_pg_attribute a =
     Option.bind (get_le a 0 4) (\<lambda>relid.
     Option.bind (get_range a 4 68) (\<lambda>nm.
     Option.bind (get_le a 68 72) (\<lambda>typid.
     Option.bind (get_le a 72 74) (\<lambda>len.
     Option.bind (get_le a 74 76) (\<lambda>num.
     Option.bind (get a 87) (\<lambda>align.
     Option.bind (get a 92) (\<lambda>hasmissing.
     Option.bind (get a 95) (\<lambda>isdropped.
       Some \<lparr>att_relid = relid, att_name = name64 nm, att_typid = typid, att_len = len, att_num = num,
             att_align = align, att_hasmissing = (hasmissing \<noteq> 0), att_isdropped = (isdropped \<noteq> 0)\<rparr>))))))))"

record IndexRow =
  ind_relid :: u32
  ind_isprimary :: bool
  key_attnums :: "i16 list"

fun get_keys :: "bytes \<Rightarrow> nat list \<Rightarrow> i16 list option" where
  "get_keys a [] = Some []"
| "get_keys a (i # is) =
     Option.bind (get_le a (48 + i * 2) (48 + i * 2 + 2)) (\<lambda>k. Option.bind (get_keys a is) (\<lambda>ks. Some (k # ks)))"

definition parse_pg_index :: "bytes \<Rightarrow> IndexRow option" where
  "parse_pg_index a =
     Option.bind (get_le a 4 8) (\<lambda>relid.
     Option.bind (get_le a 10 12 :: i16 option) (\<lambda>nkeyatts.
     Option.bind (get a 14) (\<lambda>isprimary.
     Option.bind (get_le a 40 44 :: i32 option) (\<lambda>dim1.
       let nkeys = nat (min (max (sint nkeyatts) 0) (max (sint dim1) 0)) in
     Option.bind (get_keys a [0..<nkeys]) (\<lambda>keys.
       Some \<lparr>ind_relid = relid, ind_isprimary = (isprimary \<noteq> 0), key_attnums = keys\<rparr>)))))"

section \<open>Loading\<close>

record Catalog =
  cat_db :: u32
  class_rows :: "ClassRow list"
  att_rows :: "AttRow list"
  index_rows :: "IndexRow list"

text \<open>A failed visibility check is logged and counts as not visible.\<close>

definition visible_attrs :: "clog_source \<Rightarrow> u32 \<times> u32 \<times> u16 \<times> bytes \<Rightarrow> bytes option" where
  "visible_attrs clog t =
     (case t of (xmin, xmax, im, attrs) \<Rightarrow> if tuple_visible clog xmin xmax im = Ok True then Some attrs else None)"

definition catalog_scan :: "page_source \<Rightarrow> clog_source \<Rightarrow> u32 \<Rightarrow> bytes list result" where
  "catalog_scan rel_pages clog filenode =
     rbind (rel_pages filenode) (\<lambda>pages.
       Ok (concat (map (\<lambda>page. List.map_filter (visible_attrs clog) (page_tuples page)) pages)))"

definition catalog_load :: "u32 \<Rightarrow> page_source \<Rightarrow> clog_source \<Rightarrow> MappedRels \<Rightarrow> Catalog result" where
  "catalog_load db rel_pages clog mapped =
     rbind (catalog_scan rel_pages clog (pg_class mapped)) (\<lambda>cs.
     rbind (catalog_scan rel_pages clog (pg_attribute mapped)) (\<lambda>as.
     let classes = List.map_filter parse_pg_class cs;
         atts = List.map_filter parse_pg_attribute as;
         index_node = (case pg_index mapped of Some n \<Rightarrow> Some n
           | None \<Rightarrow> Option.bind (find (\<lambda>c. cls_oid c = PG_INDEX_OID) classes)
                       (\<lambda>c. if cls_filenode c \<noteq> 0 then Some (cls_filenode c) else None))
     in rbind (case index_node of
                 Some node \<Rightarrow> rbind (catalog_scan rel_pages clog node) (\<lambda>is. Ok (List.map_filter parse_pg_index is))
               | None \<Rightarrow> Ok []) (\<lambda>indexes.
        Ok \<lparr>cat_db = db, class_rows = classes, att_rows = atts, index_rows = indexes\<rparr>)))"

definition table_names :: "Catalog \<Rightarrow> string list" where
  "table_names cat =
     map cls_name (filter (\<lambda>c. cls_relkind c = 0x72 \<and> cls_namespace c = PUBLIC_NAMESPACE_OID) (class_rows cat))"

section \<open>Deriving a descriptor\<close>

text \<open>\<^verbatim>\<open>dedup_by_key\<close>: the first of each run of equal keys.\<close>

fun dedup_by_key :: "('a \<Rightarrow> 'k) \<Rightarrow> 'a list \<Rightarrow> 'a list" where
  "dedup_by_key f (x # y # xs) = (if f x = f y then dedup_by_key f (x # xs) else x # dedup_by_key f (y # xs))"
| "dedup_by_key f xs = xs"

definition table_atts :: "Catalog \<Rightarrow> u32 \<Rightarrow> AttRow list" where
  "table_atts cat oid =
     dedup_by_key att_num (sort_key (\<lambda>a. sint (att_num a))
       (filter (\<lambda>a. att_relid a = oid \<and> sint (att_num a) \<ge> 1) (att_rows cat)))"

definition align_of_byte :: "u8 \<Rightarrow> nat result" where
  "align_of_byte a =
     (if a = 0x63 then Ok 1 else if a = 0x73 then Ok 2 else if a = 0x69 then Ok 4 else if a = 0x64 then Ok 8
      else Err (Bail ''attalign?''))"

fun desc_atts :: "AttRow list \<Rightarrow> Col list \<Rightarrow> PhysCol list \<Rightarrow> bool \<Rightarrow> (Col list \<times> PhysCol list \<times> bool) result" where
  "desc_atts [] cs ps fd = Ok (cs, ps, fd)"
| "desc_atts (a # as) cs ps fd =
     (if att_isdropped a
      then rbind (align_of_byte (att_align a)) (\<lambda>al. desc_atts as cs (ps @ [Dropped (att_len a) al]) fd)
      else rbind (from_oid (att_typid a)) (\<lambda>ty.
        let col = \<lparr>col_name = att_name a, col_ty = ty\<rparr>
        in desc_atts as (cs @ [col]) (ps @ [Live col]) (fd \<or> att_hasmissing a)))"

definition key_names :: "AttRow list \<Rightarrow> i16 list \<Rightarrow> string list result" where
  "key_names atts =
     rmap (\<lambda>n. rbind (ok_or (find (\<lambda>a. att_num a = n \<and> \<not> att_isdropped a) atts) (Bail ''pk attnum not a live column''))
       (\<lambda>a. Ok (att_name a)))"

definition toast_filenode :: "Catalog \<Rightarrow> ClassRow \<Rightarrow> u32 option" where
  "toast_filenode cat cls =
     (if cls_toastrelid cls \<noteq> 0
      then map_option cls_filenode (find (\<lambda>c. cls_oid c = cls_toastrelid cls) (class_rows cat)) else None)"

definition catalog_desc :: "Catalog \<Rightarrow> string \<Rightarrow> TableDesc result" where
  "catalog_desc cat table =
     rbind (ok_or (find (\<lambda>c. cls_name c = table \<and> cls_relkind c = 0x72) (class_rows cat))
             (Bail ''table not found in pg_class pages'')) (\<lambda>cls.
     let atts = table_atts cat (cls_oid cls) in
     if int (length atts) \<noteq> sint (cls_natts cls) then Err (Bail ''pg_attribute and relnatts disagree'')
     else
       rbind (desc_atts atts [] [] False) (\<lambda>(cs, ps, fd).
       rbind (case find (\<lambda>i. ind_relid i = cls_oid cls \<and> ind_isprimary i) (index_rows cat) of
                None \<Rightarrow> Ok []
              | Some idx \<Rightarrow> key_names atts (key_attnums idx)) (\<lambda>pks.
         Ok \<lparr>td_name = table, td_oid = cls_oid cls, db_oid = cat_db cat, rel_node = cls_filenode cls,
             toast_rel_node = toast_filenode cat cls, cols = cs, phys = ps, has_fast_defaults = fd, pk = pks\<rparr>)))"

section \<open>Preloading toast pages\<close>

fun preload_offsets :: "decompressor \<Rightarrow> bytes \<Rightarrow> u16 list \<Rightarrow> ToastCache \<times> nat \<Rightarrow> ToastCache \<times> nat" where
  "preload_offsets lz4 page [] st = st"
| "preload_offsets lz4 page (o' # os) (cache, chunks) =
     (case decode_toast_chunk_from_page lz4 page o' of
        Inl e \<Rightarrow> preload_offsets lz4 page os (cache, chunks)
      | Inr (valueid, seq, data) \<Rightarrow> preload_offsets lz4 page os (add_chunk 0 valueid seq data cache, chunks + 1))"

definition preload_page :: "decompressor \<Rightarrow> bytes \<Rightarrow> ToastCache \<times> nat \<Rightarrow> ToastCache \<times> nat" where
  "preload_page lz4 page st =
     (if length page \<noteq> CAT_PAGE_SZ then st
      else preload_offsets lz4 page
             (map word_of_nat [1..<(unat (from_le (take 2 (drop 12 page)) :: u16) - 24) div 4 + 1]) st)"

definition preload_toast :: "decompressor \<Rightarrow> page_source \<Rightarrow> u32 \<Rightarrow> ToastCache \<Rightarrow> (ToastCache \<times> nat) result" where
  "preload_toast lz4 rel_pages toast_node cache =
     rbind (rel_pages toast_node) (\<lambda>pages. Ok (foldl (\<lambda>st page. preload_page lz4 page st) (cache, 0) pages))"


section \<open>Agreement with the SQL path\<close>

text \<open>The row of the SQL query for an attribute: \<open>attlen::int4\<close>, \<open>attalign::text\<close>.\<close>

definition sql_attr :: "AttRow \<Rightarrow> AttrRow" where
  "sql_attr a = \<lparr>ar_name = att_name a, ar_typid = att_typid a, ar_dropped = att_isdropped a,
     ar_len = scast (att_len a), ar_align = [char_of (unat (att_align a))], ar_missing = att_hasmissing a\<rparr>"

definition sql_class :: "Catalog \<Rightarrow> ClassRow \<Rightarrow> ClassSqlRow" where
  "sql_class cat cls = \<lparr>cr_filenode = cls_filenode cls, cr_db = cat_db cat, cr_toast = toast_filenode cat cls,
     cr_oid = cls_oid cls\<rparr>"

lemma align_agree: "align_of_byte a = Ok n \<Longrightarrow> align_of_code [char_of (unat a)] = n"
proof -
  have "char_of (99 :: nat) = CHR ''c''" "char_of (115 :: nat) = CHR ''s''" "char_of (105 :: nat) = CHR ''i''"
    "char_of (100 :: nat) = CHR ''d''" by code_simp+
  moreover assume "align_of_byte a = Ok n"
  ultimately show ?thesis by (auto simp: align_of_byte_def align_of_code_def split: if_splits)
qed

lemma narrow_len: "ucast (scast w :: i32) = w" for w :: i16
  by (rule bit_word_eqI) (auto simp: bit_simps)

lemma desc_atts_agree:
  "desc_atts as cs ps fd = Ok r \<Longrightarrow> discover_attrs (map sql_attr as) cs ps fd = Ok r"
  by (induction as cs ps fd rule: desc_atts.induct)
    (auto simp: sql_attr_def result_simps Let_def align_agree narrow_len split: if_splits)

lemma catalog_descE:
  assumes "catalog_desc cat table = Ok d"
  obtains cls cs ps fd pks where
    "find (\<lambda>c. cls_name c = table \<and> cls_relkind c = 0x72) (class_rows cat) = Some cls"
    "int (length (table_atts cat (cls_oid cls))) = sint (cls_natts cls)"
    "desc_atts (table_atts cat (cls_oid cls)) [] [] False = Ok (cs, ps, fd)"
    "(case find (\<lambda>i. ind_relid i = cls_oid cls \<and> ind_isprimary i) (index_rows cat) of
        None \<Rightarrow> Ok [] | Some idx \<Rightarrow> key_names (table_atts cat (cls_oid cls)) (key_attnums idx)) = Ok pks"
    "d = \<lparr>td_name = table, td_oid = cls_oid cls, db_oid = cat_db cat, rel_node = cls_filenode cls,
       toast_rel_node = toast_filenode cat cls, cols = cs, phys = ps, has_fast_defaults = fd, pk = pks\<rparr>"
  using assms unfolding catalog_desc_def Let_def by (auto simp: result_simps split: if_splits)


definition sample_catalog :: Catalog where
  "sample_catalog = \<lparr>cat_db = 5,
     class_rows = [\<lparr>cls_oid = 9, cls_name = ''x'', cls_namespace = 2200, cls_filenode = 90, cls_toastrelid = 0,
        cls_relkind = 0x69, cls_natts = 1\<rparr>,
       \<lparr>cls_oid = 10, cls_name = ''t'', cls_namespace = 2200, cls_filenode = 100, cls_toastrelid = 9,
        cls_relkind = 0x72, cls_natts = 2\<rparr>],
     att_rows = [\<lparr>att_relid = 10, att_name = ''gone'', att_typid = 0, att_len = 4, att_num = 2, att_align = 0x69,
        att_hasmissing = False, att_isdropped = True\<rparr>,
       \<lparr>att_relid = 10, att_name = ''id'', att_typid = 23, att_len = 4, att_num = 1, att_align = 0x69,
        att_hasmissing = True, att_isdropped = False\<rparr>],
     index_rows = [\<lparr>ind_relid = 10, ind_isprimary = True, key_attnums = [1]\<rparr>]\<rparr>"

lemma sample_catalog_desc:
  "catalog_desc sample_catalog ''t'' = Ok \<lparr>td_name = ''t'', td_oid = 10, db_oid = 5, rel_node = 100,
     toast_rel_node = Some 90, cols = [\<lparr>col_name = ''id'', col_ty = Int4\<rparr>],
     phys = [Live \<lparr>col_name = ''id'', col_ty = Int4\<rparr>, Dropped 4 4], has_fast_defaults = True, pk = [''id'']\<rparr>"
  by (simp add: catalog_desc_def sample_catalog_def Let_def table_atts_def sort_key_def insort_key_def key_names_def
      toast_filenode_def align_of_byte_def from_oid_def)


section \<open>Well-formed descriptors from pages\<close>

lemma desc_atts_names:
  "desc_atts as cs ps fd = Ok (cs', ps', fd') \<Longrightarrow>
   map col_name cs' = map col_name cs @ map att_name (filter (\<lambda>a. \<not> att_isdropped a) as)"
  by (induction as cs ps fd rule: desc_atts.induct) (auto simp: result_simps Let_def split: if_splits)

lemma key_names_live:
  assumes "key_names atts keys = Ok ns"
  shows "set ns \<subseteq> att_name ` {a \<in> set atts. \<not> att_isdropped a}"
  using assms
proof (induction keys arbitrary: ns)
  case (Cons k keys)
  then obtain a ns' where "find (\<lambda>a. att_num a = k \<and> \<not> att_isdropped a) atts = Some a" "key_names atts keys = Ok ns'"
    "ns = att_name a # ns'" by (auto simp: key_names_def result_simps)
  with Cons.IH show ?case by (auto simp: find_Some_iff)
qed (simp add: key_names_def)

text \<open>
  C30 (type): descriptors from pages are well formed. Every descriptor derived from catalog pages has
  its logical columns equal to the live physical ones in order, as many physical columns as the
  class row counts, and a primary key made of live columns.
\<close>
theorem catalog_desc_wellformed:
  assumes "catalog_desc cat table = Ok d"
  shows "desc_wf d \<and> td_name d = table \<and> set (pk d) \<subseteq> set (map col_name (cols d)) \<and>
    (\<exists>cls \<in> set (class_rows cat). td_oid d = cls_oid cls \<and> int (length (phys d)) = sint (cls_natts cls))"
  using assms
proof (rule catalog_descE)
  fix cls cs ps fd pks
  assume f: "find (\<lambda>c. cls_name c = table \<and> cls_relkind c = 0x72) (class_rows cat) = Some cls"
    and n: "int (length (table_atts cat (cls_oid cls))) = sint (cls_natts cls)"
    and a: "desc_atts (table_atts cat (cls_oid cls)) [] [] False = Ok (cs, ps, fd)"
    and k: "(case find (\<lambda>i. ind_relid i = cls_oid cls \<and> ind_isprimary i) (index_rows cat) of
        None \<Rightarrow> Ok [] | Some idx \<Rightarrow> key_names (table_atts cat (cls_oid cls)) (key_attnums idx)) = Ok pks"
    and d: "d = \<lparr>td_name = table, td_oid = cls_oid cls, db_oid = cat_db cat, rel_node = cls_filenode cls,
       toast_rel_node = toast_filenode cat cls, cols = cs, phys = ps, has_fast_defaults = fd, pk = pks\<rparr>"
  have "cs = live_cols ps \<and> length ps = length (table_atts cat (cls_oid cls))"
    using discover_attrs_inv [OF desc_atts_agree [OF a]] by simp
  moreover have "set pks \<subseteq> set (map col_name cs)"
    using k desc_atts_names [OF a] key_names_live by (fastforce split: option.splits)
  moreover have "cls \<in> set (class_rows cat)" using f by (auto simp: find_Some_iff)
  ultimately show ?thesis using d n by (auto simp: desc_wf_def)
qed

theorem catalog_desc_wellformed_witness:
  "\<exists>d. catalog_desc sample_catalog ''t'' = Ok d \<and> desc_wf d \<and> td_name d = ''t'' \<and> set (pk d) \<subseteq> set (map col_name (cols d))"
  using catalog_desc_wellformed [OF sample_catalog_desc] sample_catalog_desc by blast

section \<open>The relation map\<close>

definition relmap_blob :: "(u32 \<times> u32) list \<Rightarrow> bytes" where
  "relmap_blob m = to_le (0x592717 :: u32) @ to_le (word_of_nat (length m) :: u32) @
     concat (map (\<lambda>(oid, node). to_le oid @ to_le node) m)"

lemma relmap_entry_at:
  assumes "i < length m"
  shows "get_range (relmap_blob m @ pad) (8 + i * 8) (8 + i * 8 + 4) = Some (to_le (fst (m ! i)))"
    and "get_range (relmap_blob m @ pad) (8 + i * 8 + 4) (8 + i * 8 + 8) = Some (to_le (snd (m ! i)))"
proof -
  let ?f = "\<lambda>i. to_le (fst (m ! i)) @ to_le (snd (m ! i))"
  have m: "map (\<lambda>(oid, node). to_le oid @ to_le node) m = map ?f [0..<length m]"
    by (rule nth_equalityI) (simp_all add: split_def)
  have r: "get_range (relmap_blob m @ pad) (8 + a) (8 + b) = get_range (concat (map ?f [0..<length m]) @ pad) a b"
    if "a \<le> b" for a b
    unfolding relmap_blob_def m using that by (simp add: get_range_def)
  have c: "get_range (concat (map ?f [0..<length m]) @ pad) (i * 8 + a) (i * 8 + b) = get_range (?f i) a b"
    if "b \<le> 8" for a b
    using assms that by (intro concat_block) simp_all
  show "get_range (relmap_blob m @ pad) (8 + i * 8) (8 + i * 8 + 4) = Some (to_le (fst (m ! i)))"
    using r [of "i * 8" "i * 8 + 4"] c [of 4 0] by (simp add: get_range_def add.assoc)
  show "get_range (relmap_blob m @ pad) (8 + i * 8 + 4) (8 + i * 8 + 8) = Some (to_le (snd (m ! i)))"
    using r [of "i * 8 + 4" "i * 8 + 8"] c [of 8 4] by (simp add: get_range_def add.assoc)
qed

lemma relmap_entries_at:
  assumes "set is \<subseteq> {0..<length m}"
  shows "\<exists>r. relmap_entries (relmap_blob m @ pad) is acc = Ok r \<and>
    map_of r = map_of acc ++ map_of (rev (map ((!) m) is))"
  using assms
proof (induction "is" arbitrary: acc)
  case (Cons i "is")
  have "relmap_entries (relmap_blob m @ pad) (i # is) acc =
      relmap_entries (relmap_blob m @ pad) is (AList.update (fst (m ! i)) (snd (m ! i)) acc)"
    using relmap_entry_at [of i m pad] Cons.prems by (simp add: slice_def Let_def)
  moreover obtain r where
    "relmap_entries (relmap_blob m @ pad) is (AList.update (fst (m ! i)) (snd (m ! i)) acc) = Ok r"
    "map_of r = map_of (AList.update (fst (m ! i)) (snd (m ! i)) acc) ++ map_of (rev (map ((!) m) is))"
    using Cons.IH [of "AList.update (fst (m ! i)) (snd (m ! i)) acc"] Cons.prems by auto
  moreover have "map_of (AList.update (fst (m ! i)) (snd (m ! i)) acc) = map_of acc ++ map_of [m ! i]"
    by (cases "m ! i") (simp add: update_conv')
  ultimately show ?case by (simp only: list.map rev.simps map_of_append map_add_assoc) blast
qed simp

text \<open>
  the relation map is read back. Parsing a map file with any number of entries, and
  any padding after them, gives for every relation the filenode of its last entry, and nothing for
  relations without one.
\<close>
theorem relmap_roundtrip:
  assumes "length m < 2 ^ 32"
  shows "\<exists>r. parse_relmap (relmap_blob m @ pad) = Ok r \<and> map_of r = map_of (rev m)"
proof -
  have n: "unat (word_of_nat (length m) :: u32) = length m" using assms by (intro unat_u32)
  have "parse_relmap (relmap_blob m @ pad) = relmap_entries (relmap_blob m @ pad) [0..<length m] []"
  proof -
    have "take 4 (relmap_blob m @ pad) = to_le (0x592717 :: u32)"
      "take 4 (drop 4 (relmap_blob m @ pad)) = to_le (word_of_nat (length m) :: u32)" "\<not> length (relmap_blob m @ pad) < 8"
      by (simp_all add: relmap_blob_def)
    then show ?thesis using n unfolding parse_relmap_def by simp
  qed
  with relmap_entries_at [of "[0..<length m]" m pad "[]"] show ?thesis
    by (simp add: map_nth)
qed

theorem relmap_roundtrip_witness:
  "\<exists>r. parse_relmap (relmap_blob [(1259, 16384), (1249, 16385)] @ replicate 8 0) = Ok r \<and>
     map_of r 1259 = Some 16384"
  using relmap_roundtrip [of "[(1259, 16384), (1249, 16385)]" "replicate 8 0"] by fastforce

end
