(* ===== verification/Pgwire.thy ===== *)
theory Pgwire
  imports Jsonb
begin

text \<open>
  \<^verbatim>\<open>src/pgwire.rs\<close>: the replication and pageserver client. A connection is what the socket will
  deliver, cut into chunks, what has been read but not used, and what was written; the outcome of each
  write is an input. Message lengths are 32-bit words as on the wire. The accessors of the
  \<^verbatim>\<open>bytes\<close> package panic when a buffer is too short.
\<close>

section \<open>LSN text\<close>

definition hex_char :: "nat \<Rightarrow> char" where
  "hex_char d = (if d < 10 then char_of (48 + d) else char_of (55 + d))"

function show_hex :: "nat \<Rightarrow> string" where
  "show_hex n = (if n < 16 then [hex_char n] else show_hex (n div 16) @ [hex_char (n mod 16)])"
  by pat_completeness auto
termination by (relation "measure id") auto

declare show_hex.simps [simp del]

definition fmt_lsn :: "u64 \<Rightarrow> string" where
  "fmt_lsn l = show_hex (unat (drop_bit 32 l)) @ ''/'' @ show_hex (unat (l AND 0xFFFFFFFF))"

text \<open>\<^verbatim>\<open>char::to_digit(radix)\<close>\<close>

definition to_digit :: "nat \<Rightarrow> char \<Rightarrow> nat option" where
  "to_digit radix c =
     (let n = of_char c :: nat;
          d = (if 48 \<le> n \<and> n \<le> 57 then n - 48 else if 65 \<le> n \<and> n \<le> 90 then n - 55
               else if 97 \<le> n \<and> n \<le> 122 then n - 87 else radix)
      in if d < radix then Some d else None)"

text \<open>\<^verbatim>\<open>from_str_radix\<close> of an unsigned type: an optional plus sign, at least one digit, in range.\<close>

definition from_str_radix :: "nat \<Rightarrow> string \<Rightarrow> 'a::len word result" where
  "from_str_radix radix s =
     (let ds = (case s of c # cs \<Rightarrow> if c = CHR ''+'' then cs else s | [] \<Rightarrow> s);
          v = foldl (\<lambda>v c. v * radix + (case to_digit radix c of Some d \<Rightarrow> d | None \<Rightarrow> 0)) 0 ds
      in if ds \<noteq> [] \<and> list_all (\<lambda>c. to_digit radix c \<noteq> None) ds \<and> v < 2 ^ LENGTH('a)
         then Ok (word_of_nat v) else Err (Bail ''invalid integer''))"

definition split_at :: "'a \<Rightarrow> 'a list \<Rightarrow> ('a list \<times> 'a list) option" where
  "split_at x xs =
     (if x \<in> set xs then Some (takeWhile (\<lambda>y. y \<noteq> x) xs, drop 1 (dropWhile (\<lambda>y. y \<noteq> x) xs)) else None)"

definition parse_lsn :: "string \<Rightarrow> u64 result" where
  "parse_lsn s =
     rbind (ok_or (split_at (CHR ''/'') s) (Bail ''bad LSN format'')) (\<lambda>(hi, lo).
     rbind (from_str_radix 16 hi) (\<lambda>h :: u64.
     rbind (from_str_radix 16 lo) (\<lambda>l. Ok (push_bit 32 h OR l))))"

section \<open>The connection\<close>

record ReplConn =
  inbox :: "bytes result list"
  rbuf :: bytes
  outbox :: bytes
  writes :: "error option list"
  reqid :: u64

definition new_conn :: "bytes result list \<Rightarrow> error option list \<Rightarrow> ReplConn" where
  "new_conn inb ws = \<lparr>inbox = inb, rbuf = [], outbox = [], writes = ws, reqid = 0\<rparr>"

text \<open>\<^verbatim>\<open>stream.write_all\<close>: the next outcome; once they are used up every write succeeds.\<close>

definition write_all :: "bytes \<Rightarrow> ReplConn \<Rightarrow> ReplConn result" where
  "write_all m c = (case writes c of
       [] \<Rightarrow> Ok (c\<lparr>outbox := outbox c @ m\<rparr>)
     | None # ws \<Rightarrow> Ok (c\<lparr>outbox := outbox c @ m, writes := ws\<rparr>)
     | Some e # ws \<Rightarrow> Err e)"

text \<open>The message at the head of the buffer, if it is complete.\<close>

definition take_frame :: "bytes \<Rightarrow> ((u8 \<times> bytes) \<times> bytes) option result" where
  "take_frame b =
     (if length b < 5 then Ok None
      else let len = unat (from_be (take 4 (drop 1 b)) :: u32) in
        if len < 4 then Err (Bail ''corrupt message length'')
        else if length b < 1 + len then Ok None
        else Ok (Some ((b ! 0, take (len - 4) (drop 5 b)), drop (len + 1) b)))"

text \<open>The read loop, over what the socket delivers: an empty chunk, or no more of them, is end of file.\<close>

fun read_frame :: "bytes \<Rightarrow> bytes result list \<Rightarrow> ((u8 \<times> bytes) \<times> bytes \<times> bytes result list) result" where
  "read_frame b [] = rbind (take_frame b) (\<lambda>f. case f of
       Some (m, rest) \<Rightarrow> Ok (m, rest, []) | None \<Rightarrow> Err (Bail ''connection closed by server''))"
| "read_frame b (r # inb) = rbind (take_frame b) (\<lambda>f. case f of
       Some (m, rest) \<Rightarrow> Ok (m, rest, r # inb)
     | None \<Rightarrow> (case r of Inl e \<Rightarrow> Err e
         | Inr ch \<Rightarrow> if ch = [] then Err (Bail ''connection closed by server'') else read_frame (b @ ch) inb))"

definition read_msg :: "ReplConn \<Rightarrow> ((u8 \<times> bytes) \<times> ReplConn) result" where
  "read_msg c = rbind (read_frame (rbuf c) (inbox c)) (\<lambda>(m, b, inb). Ok (m, c\<lparr>rbuf := b, inbox := inb\<rparr>))"

section \<open>Every conversation ends\<close>

definition delivered :: "bytes result list \<Rightarrow> nat" where
  "delivered inb = sum_list (map (\<lambda>r. case r of Inr ch \<Rightarrow> length ch | Inl e \<Rightarrow> 0) inb)"

definition undelivered :: "ReplConn \<Rightarrow> nat" where
  "undelivered c = length (rbuf c) + delivered (inbox c)"

lemma take_frame_shrinks: "take_frame b = Ok (Some (m, rest)) \<Longrightarrow> length rest + 5 \<le> length b"
  by (auto simp: take_frame_def Let_def split: if_splits)

lemma read_frame_shrinks: "read_frame b inb = Ok (m, b', inb') \<Longrightarrow> length b' + delivered inb' + 5 \<le> length b + delivered inb"
proof (induction b inb rule: read_frame.induct)
  case (1 b)
  then show ?case using take_frame_shrinks by (fastforce simp: rbind_eq_Ok split: option.splits)
next
  case (2 b r inb)
  obtain f where f: "take_frame b = Ok f" using 2(2) by (auto simp: rbind_eq_Ok)
  show ?case
  proof (cases f)
    case None
    then show ?thesis using 2(2) f 2(1) [OF f None] by (auto simp: delivered_def split: sum.splits if_splits)
  next
    case (Some mr)
    then show ?thesis using 2(2) f take_frame_shrinks [of b m b'] by (cases mr) auto
  qed
qed

lemma read_msg_shrinks: "read_msg c = Ok (m, c') \<Longrightarrow> undelivered c' + 5 \<le> undelivered c"
  by (auto simp: read_msg_def rbind_eq_Ok undelivered_def dest!: read_frame_shrinks)

lemma write_all_undelivered: "write_all m c = Ok c' \<Longrightarrow> undelivered c' = undelivered c"
  by (auto simp: write_all_def undelivered_def split: list.splits option.splits)

text \<open>
  \<^verbatim>\<open>loop { let (tag, payload) = self.read_msg().await?; match tag { .. } }\<close>: an arm goes on, answers and
  goes on, breaks with a value, or fails.
\<close>

datatype ('s, 'r) ctl = Continue 's | Reply 's bytes | Break 'r

function msg_loop :: "(u8 \<Rightarrow> bytes \<Rightarrow> 's \<Rightarrow> ('s, 'r) ctl result) \<Rightarrow> 's \<Rightarrow> ReplConn \<Rightarrow> ('r \<times> ReplConn) result" where
  "msg_loop arms s c =
     (case read_msg c of Inl e \<Rightarrow> Err e
      | Inr ((tag, payload), c') \<Rightarrow>
          (case arms tag payload s of Inl e \<Rightarrow> Err e
           | Inr (Break r) \<Rightarrow> Ok (r, c')
           | Inr (Continue s') \<Rightarrow> msg_loop arms s' c'
           | Inr (Reply s' m) \<Rightarrow> (case write_all m c' of Inl e \<Rightarrow> Err e | Inr c'' \<Rightarrow> msg_loop arms s' c'')))"
  by pat_completeness auto
termination
  by (relation "measure (\<lambda>(arms, s, c). undelivered c)") (auto dest!: read_msg_shrinks write_all_undelivered)

declare msg_loop.simps [simp del]

section \<open>Reading payloads\<close>

definition buf_get :: "nat \<Rightarrow> bytes \<Rightarrow> (bytes \<times> bytes) result" where
  "buf_get n b = (if length b < n then Err (Panic ''advance out of bounds'') else Ok (take n b, drop n b))"

definition get_u8 :: "bytes \<Rightarrow> (u8 \<times> bytes) result" where
  "get_u8 b = rbind (buf_get 1 b) (\<lambda>(x, r). Ok (hd x, r))"

definition get_be :: "nat \<Rightarrow> bytes \<Rightarrow> ('a::len word \<times> bytes) result" where
  "get_be n b = rbind (buf_get n b) (\<lambda>(x, r). Ok (from_be x, r))"

fun data_fields :: "nat \<Rightarrow> bytes \<Rightarrow> string option list result" where
  "data_fields 0 b = Ok []"
| "data_fields (Suc n) b =
     rbind (get_be 4 b) (\<lambda>(len :: i32, r).
       if sint len < 0 then rbind (data_fields n r) (\<lambda>fs. Ok (None # fs))
       else rbind (buf_get (unat len) r) (\<lambda>(x, r').
            rbind (data_fields n r') (\<lambda>fs. Ok (Some (from_utf8_lossy x) # fs))))"

definition parse_data_row :: "bytes \<Rightarrow> string option list result" where
  "parse_data_row p = rbind (get_be 2 p) (\<lambda>(n :: u16, r). data_fields (unat n) r)"

text \<open>\<^verbatim>\<open>parse_error_fields\<close>: \<open>p\<close> is the payload from \<^verbatim>\<open>i\<close> on.\<close>

definition error_field :: "u8 \<Rightarrow> string \<Rightarrow> string option \<times> string \<Rightarrow> string option \<times> string" where
  "error_field field val acc = (case acc of (code, msg) \<Rightarrow>
     if field = 77 \<or> field = 83 then (code, msg @ (if msg \<noteq> [] then '': '' else []) @ val)
     else if field = 67 then (Some val, msg)
     else (code, msg))"

function error_fields :: "bytes \<Rightarrow> string option \<times> string \<Rightarrow> string option \<times> string" where
  "error_fields p acc =
     (if p = [] \<or> hd p = 0 then acc
      else error_fields (drop 1 (dropWhile (\<lambda>b. b \<noteq> 0) (drop 1 p)))
             (error_field (hd p) (from_utf8_lossy (takeWhile (\<lambda>b. b \<noteq> 0) (drop 1 p))) acc))"
  by pat_completeness auto
termination
proof (relation "measure (\<lambda>(p, acc). length p)")
  fix p :: bytes and acc :: "string option \<times> string"
  assume p: "\<not> (p = [] \<or> hd p = 0)"
  have "length (dropWhile (\<lambda>b. b \<noteq> 0) (drop 1 p)) \<le> length (drop 1 p)" by (rule length_dropWhile_le)
  then show "((drop 1 (dropWhile (\<lambda>b. b \<noteq> 0) (drop 1 p)),
      error_field (hd p) (from_utf8_lossy (takeWhile (\<lambda>b. b \<noteq> 0) (drop 1 p))) acc), p, acc) \<in> measure (\<lambda>(p, acc). length p)"
    using p by (cases p) auto
qed simp

declare error_fields.simps [simp del]

definition parse_error_fields :: "bytes \<Rightarrow> string option \<times> string" where
  "parse_error_fields p =
     (case error_fields p (None, []) of (code, msg) \<Rightarrow> (code, if msg = [] then ''unknown error'' else msg))"

definition parse_error :: "bytes \<Rightarrow> string" where
  "parse_error p = snd (parse_error_fields p)"

section \<open>Startup\<close>

definition cstring :: "string \<Rightarrow> bytes" where
  "cstring s = as_bytes s @ [0]"

text \<open>A tagged message: the length word counts itself and the body.\<close>

definition frame :: "u8 \<Rightarrow> bytes \<Rightarrow> bytes" where
  "frame tag body = tag # to_be (4 + word_of_nat (length body) :: u32) @ body"

definition send_startup :: "string \<Rightarrow> bool \<Rightarrow> (string \<times> string) list \<Rightarrow> ReplConn \<Rightarrow> ReplConn result" where
  "send_startup user replication extra c =
     (let params = [(''user'', user)] @ (if replication then [(''replication'', ''true'')] else []) @ extra;
          body = to_be (196608 :: u32) @ concat (map (\<lambda>(k, v). cstring k @ cstring v) params) @ [0]
      in write_all (to_be (word_of_nat (length body) + 4 :: u32) @ body) c)"

definition ready_arms :: "string option \<Rightarrow> u8 \<Rightarrow> bytes \<Rightarrow> unit \<Rightarrow> (unit, unit) ctl result" where
  "ready_arms password tag payload s =
     (if tag = 82 then
        rbind (get_be 4 payload) (\<lambda>(code :: u32, r).
          if code = 0 then Ok (Continue ())
          else if code = 3 then (case password of
              Some pw \<Rightarrow> Ok (Reply () (frame 112 (cstring pw)))
            | None \<Rightarrow> Err (Bail ''server wants a password and none is configured''))
          else Err (Bail ''server requires another auth method''))
      else if tag = 83 \<or> tag = 75 \<or> tag = 78 then Ok (Continue ())
      else if tag = 90 then Ok (Break ())
      else if tag = 69 then Err (Bail (''server error: '' @ parse_error payload))
      else Err (Bail ''unexpected message during startup''))"

definition await_ready :: "string option \<Rightarrow> ReplConn \<Rightarrow> (unit \<times> ReplConn) result" where
  "await_ready password c = msg_loop (ready_arms password) () c"

definition send_query :: "string \<Rightarrow> ReplConn \<Rightarrow> ReplConn result" where
  "send_query q c = write_all (frame 81 (cstring q)) c"

definition copy_both_arms :: "u8 \<Rightarrow> bytes \<Rightarrow> unit \<Rightarrow> (unit, unit) ctl result" where
  "copy_both_arms tag payload s =
     (if tag = 87 then Ok (Break ())
      else if tag = 78 then Ok (Continue ())
      else if tag = 69 then Err (Bail (''START_REPLICATION failed: '' @ parse_error payload))
      else Err (Bail ''unexpected message starting replication''))"

definition await_copy_both :: "ReplConn \<Rightarrow> (unit \<times> ReplConn) result" where
  "await_copy_both c = msg_loop copy_both_arms () c"

text \<open>\<open>tcp\<close> is the outcome of \<^verbatim>\<open>TcpStream::connect\<close>: what the socket will deliver and how writes will go.\<close>

definition repl_connect ::
  "(bytes result list \<times> error option list) result \<Rightarrow> string \<Rightarrow> (string \<times> string) list \<Rightarrow> string option \<Rightarrow> ReplConn result" where
  "repl_connect tcp user extra password =
     rbind tcp (\<lambda>(inb, ws).
     rbind (send_startup user True extra (new_conn inb ws)) (\<lambda>c.
     rbind (await_ready password c) (\<lambda>(_, c'). Ok c')))"

definition connect_pageserver ::
  "(bytes result list \<times> error option list) result \<Rightarrow> string \<Rightarrow> string \<Rightarrow> string \<Rightarrow> string option \<Rightarrow> ReplConn result" where
  "connect_pageserver tcp user tenant timeline password =
     rbind tcp (\<lambda>(inb, ws).
     rbind (send_startup user False [] (new_conn inb ws)) (\<lambda>c.
     rbind (await_ready password c) (\<lambda>(_, c1).
     rbind (send_query (''pagestream_v3 '' @ tenant @ '' '' @ timeline) c1) (\<lambda>c2.
     rbind (await_copy_both c2) (\<lambda>(_, c3). Ok c3)))))"

section \<open>Commands\<close>

text \<open>The row a command answers with; \<open>notices\<close> tells whether the command's loop accepts them.\<close>

definition row_arms :: "bool \<Rightarrow> string \<Rightarrow> u8 \<Rightarrow> bytes \<Rightarrow> string option list option \<Rightarrow> (string option list option, string option list option) ctl result" where
  "row_arms notices what tag payload row =
     (if tag = 84 \<or> tag = 67 \<or> (notices \<and> tag = 78) then Ok (Continue row)
      else if tag = 68 then rbind (parse_data_row payload) (\<lambda>r. Ok (Continue (Some r)))
      else if tag = 90 then Ok (Break row)
      else if tag = 69 then Err (Bail (what @ '' failed: '' @ parse_error payload))
      else Err (Bail (''unexpected message in '' @ what)))"

definition identify_system :: "ReplConn \<Rightarrow> ((u32 \<times> u64) \<times> ReplConn) result" where
  "identify_system c =
     rbind (send_query ''IDENTIFY_SYSTEM'' c) (\<lambda>c1.
     rbind (msg_loop (row_arms False ''IDENTIFY_SYSTEM'') None c1) (\<lambda>(row, c2).
     rbind (ok_or row (Bail ''IDENTIFY_SYSTEM returned no row'')) (\<lambda>r.
     rbind (ok_or (Option.bind (get r 1) id) (Bail ''missing timeline'')) (\<lambda>t.
     rbind (from_str_radix 10 t) (\<lambda>tli.
     rbind (ok_or (Option.bind (get r 2) id) (Bail ''missing xlogpos'')) (\<lambda>x.
     rbind (parse_lsn x) (\<lambda>l. Ok ((tli, l), c2))))))))"

definition slot_arms :: "u8 \<Rightarrow> bytes \<Rightarrow> bool \<times> string option \<Rightarrow> (bool \<times> string option, bool \<times> string option) ctl result" where
  "slot_arms tag payload s = (case s of (created, err) \<Rightarrow>
     (if tag = 84 \<or> tag = 68 \<or> tag = 67 \<or> tag = 78 then Ok (Continue s)
      else if tag = 69 then
        (case parse_error_fields payload of (code, msg) \<Rightarrow>
           if code = Some ''42710'' then Ok (Continue (False, err)) else Ok (Continue (created, Some msg)))
      else if tag = 90 then Ok (Break s)
      else Err (Bail ''unexpected message in CREATE_REPLICATION_SLOT'')))"

definition create_slot :: "string \<Rightarrow> ReplConn \<Rightarrow> (bool \<times> ReplConn) result" where
  "create_slot name c =
     rbind (send_query (''CREATE_REPLICATION_SLOT '' @ name @ '' PHYSICAL RESERVE_WAL'') c) (\<lambda>c1.
     rbind (msg_loop slot_arms (True, None) c1) (\<lambda>((created, err), c2).
       case err of Some e \<Rightarrow> Err (Bail (''CREATE_REPLICATION_SLOT failed: '' @ e)) | None \<Rightarrow> Ok (created, c2)))"

definition slot_restart_lsn :: "string \<Rightarrow> ReplConn \<Rightarrow> (u64 option \<times> ReplConn) result" where
  "slot_restart_lsn name c =
     rbind (send_query (''READ_REPLICATION_SLOT '' @ name) c) (\<lambda>c1.
     rbind (msg_loop (row_arms True ''READ_REPLICATION_SLOT'') None c1) (\<lambda>(row, c2).
       case Option.bind row (\<lambda>r. Option.bind (get r 1) id) of
         Some x \<Rightarrow> rbind (parse_lsn x) (\<lambda>l. Ok (Some l, c2))
       | None \<Rightarrow> Ok (None, c2)))"

text \<open>\<open>tli\<close> is the timeline's decimal text.\<close>

definition start_replication :: "string \<Rightarrow> u64 \<Rightarrow> string \<Rightarrow> ReplConn \<Rightarrow> (unit \<times> ReplConn) result" where
  "start_replication sl start_lsn tli c =
     rbind (send_query (''START_REPLICATION SLOT '' @ sl @ '' PHYSICAL '' @ fmt_lsn start_lsn @ '' TIMELINE '' @ tli) c) await_copy_both"

definition start_replication_safekeeper :: "u64 \<Rightarrow> ReplConn \<Rightarrow> (unit \<times> ReplConn) result" where
  "start_replication_safekeeper start_lsn c =
     rbind (send_query (''START_REPLICATION PHYSICAL '' @ fmt_lsn start_lsn) c) await_copy_both"

section \<open>Streaming\<close>

record XLogData =
  start_lsn :: u64
  wal_end :: u64
  xlog :: bytes

datatype ReplMsg = ReplXLogData XLogData | Keepalive u64 bool

definition copy_data :: "bytes \<Rightarrow> ReplMsg result" where
  "copy_data payload =
     rbind (get_u8 payload) (\<lambda>(kind, r).
       if kind = 119 then
         rbind (get_be 8 r) (\<lambda>(s, r1). rbind (get_be 8 r1) (\<lambda>(w, r2). rbind (get_be 8 r2) (\<lambda>(send_time :: i64, r3).
           Ok (ReplXLogData \<lparr>start_lsn = s, wal_end = w, xlog = r3\<rparr>))))
       else if kind = 107 then
         rbind (get_be 8 r) (\<lambda>(w, r1). rbind (get_be 8 r1) (\<lambda>(send_time :: i64, r2). rbind (get_u8 r2) (\<lambda>(rq, r3).
           Ok (Keepalive w (rq \<noteq> 0)))))
       else Err (Bail ''unexpected CopyData kind''))"

definition stream_arms :: "u8 \<Rightarrow> bytes \<Rightarrow> unit \<Rightarrow> (unit, ReplMsg) ctl result" where
  "stream_arms tag payload s =
     (if tag = 100 then rbind (copy_data payload) (\<lambda>m. Ok (Break m))
      else if tag = 78 then Ok (Continue ())
      else if tag = 69 then Err (Bail (''stream error: '' @ parse_error payload))
      else if tag = 99 \<or> tag = 90 then Err (Bail ''server ended the replication stream'')
      else Err (Bail ''unexpected message in stream''))"

definition next_msg :: "ReplConn \<Rightarrow> (ReplMsg \<times> ReplConn) result" where
  "next_msg c = msg_loop stream_arms () c"

definition PG_EPOCH_OFFSET_US :: i64 where "PG_EPOCH_OFFSET_US = 946684800000000"

text \<open>\<open>clock\<close>: the microseconds since 1970, or nothing when the clock is before that.\<close>

definition now_pg_micros :: "nat option \<Rightarrow> i64" where
  "now_pg_micros clock = (case clock of Some us \<Rightarrow> word_of_nat us - PG_EPOCH_OFFSET_US | None \<Rightarrow> 0)"

definition send_status :: "nat option \<Rightarrow> u64 \<Rightarrow> u64 \<Rightarrow> ReplConn \<Rightarrow> ReplConn result" where
  "send_status clock received flushed c =
     write_all ([100] @ to_be (4 + 1 + 8 * 3 + 8 + 1 :: u32) @ [114] @ to_be received @ to_be flushed @ to_be flushed @
       to_be (now_pg_micros clock) @ [0]) c"

section \<open>The pageserver\<close>

record PsRelTag =
  spcnode :: u32
  dbnode :: u32
  relnode :: u32
  forknum :: u8

definition put_reltag :: "PsRelTag \<Rightarrow> bytes" where
  "put_reltag t = to_be (spcnode t) @ to_be (dbnode t) @ to_be (relnode t) @ [forknum t]"

definition pagestream_hdr :: "u8 \<Rightarrow> u64 \<Rightarrow> ReplConn \<Rightarrow> bytes \<times> ReplConn" where
  "pagestream_hdr tag l c =
     (let c' = c\<lparr>reqid := reqid c + 1\<rparr> in ([tag] @ to_be (reqid c') @ to_be l @ to_be l, c'))"

definition page_arms :: "string \<Rightarrow> u8 \<Rightarrow> bytes \<Rightarrow> unit \<Rightarrow> (unit, bytes) ctl result" where
  "page_arms what tag payload s =
     (if tag = 100 then Ok (Break payload)
      else if tag = 78 then Ok (Continue ())
      else if tag = 69 then Err (Bail (what @ '' failed: '' @ parse_error payload))
      else if tag = 99 \<or> tag = 90 then Err (Bail ''server ended the pagestream'')
      else Err (Bail ''unexpected message in pagestream''))"

definition check_response :: "u64 \<Rightarrow> u8 \<Rightarrow> string \<Rightarrow> bytes \<Rightarrow> bytes result" where
  "check_response rid want_tag what resp =
     (if length resp < 25 then Err (Bail (what @ '': truncated pagestream response''))
      else
        rbind (get_u8 resp) (\<lambda>(tag, r1).
        rbind (get_be 8 r1) (\<lambda>(got, r2).
          if tag = 103 then
            rbind (buf_get 16 r2) (\<lambda>(_, r3).
              Err (Bail (what @ '': pageserver error: '' @ from_utf8_lossy (takeWhile (\<lambda>b. b \<noteq> 0) r3))))
          else if tag \<noteq> want_tag then Err (Bail (what @ '': unexpected pagestream response tag''))
          else if got \<noteq> rid then Err (Bail (what @ '': response for another request''))
          else Ok r2)))"

definition pagestream_roundtrip :: "bytes \<Rightarrow> u8 \<Rightarrow> string \<Rightarrow> ReplConn \<Rightarrow> (bytes \<times> ReplConn) result" where
  "pagestream_roundtrip req want_tag what c =
     rbind (write_all (frame 100 req) c) (\<lambda>c1.
     rbind (msg_loop (page_arms what) () c1) (\<lambda>(resp, c2).
     rbind (check_response (reqid c2) want_tag what resp) (\<lambda>r. Ok (r, c2))))"

definition get_page :: "PsRelTag \<Rightarrow> u32 \<Rightarrow> u64 \<Rightarrow> ReplConn \<Rightarrow> (bytes \<times> ReplConn) result" where
  "get_page tag blk l c =
     (case pagestream_hdr 2 l c of (hdr, c1) \<Rightarrow>
      rbind (pagestream_roundtrip (hdr @ put_reltag tag @ to_be blk) 102 ''GetPage'' c1) (\<lambda>(resp, c2).
      rbind (buf_get 33 resp) (\<lambda>(_, page).
        if length page \<noteq> 8192 then Err (Bail ''GetPage returned a wrong page size'') else Ok (page, c2))))"

definition rel_nblocks :: "PsRelTag \<Rightarrow> u64 \<Rightarrow> ReplConn \<Rightarrow> (u32 \<times> ReplConn) result" where
  "rel_nblocks tag l c =
     (case pagestream_hdr 1 l c of (hdr, c1) \<Rightarrow>
      rbind (pagestream_roundtrip (hdr @ put_reltag tag) 101 ''Nblocks'' c1) (\<lambda>(resp, c2).
      rbind (buf_get 29 resp) (\<lambda>(_, r).
      rbind (get_be 4 r) (\<lambda>(n, _). Ok (n, c2)))))"

definition rel_exists :: "PsRelTag \<Rightarrow> u64 \<Rightarrow> ReplConn \<Rightarrow> (bool \<times> ReplConn) result" where
  "rel_exists tag l c =
     (case pagestream_hdr 0 l c of (hdr, c1) \<Rightarrow>
      rbind (pagestream_roundtrip (hdr @ put_reltag tag) 100 ''Exists'' c1) (\<lambda>(resp, c2).
      rbind (buf_get 29 resp) (\<lambda>(_, r).
      rbind (get_u8 r) (\<lambda>(b, _). Ok (b \<noteq> 0, c2)))))"

section \<open>LSNs\<close>

lemma to_digit_hex: "d < 16 \<Longrightarrow> to_digit 16 (hex_char d) = Some d"
proof -
  assume "d < 16"
  then have "d \<in> set [0..<16]" by simp
  moreover have "list_all (\<lambda>d. to_digit 16 (hex_char d) = Some d) [0..<16]"
    by (simp add: to_digit_def hex_char_def upt_rec)
  ultimately show ?thesis unfolding list_all_iff by blast
qed

lemma show_hex_digits:
  "show_hex n \<noteq> [] \<and> list_all (\<lambda>c. to_digit 16 c \<noteq> None) (show_hex n) \<and>
   foldl (\<lambda>v c. v * 16 + (case to_digit 16 c of Some d \<Rightarrow> d | None \<Rightarrow> 0)) 0 (show_hex n) = n"
proof (induction n rule: show_hex.induct)
  case (1 n)
  show ?case
  proof (cases "n < 16")
    case True
    then show ?thesis by (simp add: show_hex.simps [of n] to_digit_hex)
  next
    case False
    then show ?thesis using 1 [OF False] by (simp add: show_hex.simps [of n] to_digit_hex)
  qed
qed

lemma digit_chars: "to_digit 16 c \<noteq> None \<Longrightarrow> c \<noteq> CHR ''+'' \<and> c \<noteq> CHR ''/''"
  by (auto simp: to_digit_def)

lemma from_show_hex: "n < 2 ^ LENGTH('a) \<Longrightarrow> from_str_radix 16 (show_hex n) = Ok (word_of_nat n :: 'a::len word)"
  using show_hex_digits [of n] digit_chars
  by (cases "show_hex n") (auto simp: from_str_radix_def Let_def simp del: foldl_Cons)

lemma split_at_hex: "split_at (CHR ''/'') (show_hex n @ CHR ''/'' # t) = Some (show_hex n, t)"
proof -
  have no: "\<forall>c \<in> set (show_hex n). c \<noteq> CHR ''/''"
    using show_hex_digits [of n] digit_chars by (auto simp: list_all_iff)
  then show ?thesis by (simp add: split_at_def)
qed

lemma lsn_text_roundtrip: "parse_lsn (fmt_lsn l) = Ok l"
proof -
  have lo: "from_str_radix 16 (show_hex (unat (l AND 0xFFFFFFFF))) = Ok (l AND 0xFFFFFFFF)"
    using from_show_hex [of "unat (l AND 0xFFFFFFFF)", where 'a = 64] unsigned_less [of "l AND 0xFFFFFFFF", where 'a = nat] by simp
  have hi: "from_str_radix 16 (show_hex (unat (drop_bit 32 l))) = Ok (drop_bit 32 l)"
    using from_show_hex [of "unat (drop_bit 32 l)", where 'a = 64] unsigned_less [of "drop_bit 32 l", where 'a = nat] by simp
  have "push_bit 32 (drop_bit 32 l) OR (l AND 0xFFFFFFFF) = l"
  proof (rule bit_word_eqI)
    fix n
    have m: "(0xFFFFFFFF :: u64) = mask 32" by (simp add: mask_eq_exp_minus_1)
    show "n < LENGTH(64) \<Longrightarrow> bit (push_bit 32 (drop_bit 32 l) OR (l AND 0xFFFFFFFF)) n = bit l n"
      unfolding m by (auto simp: bit_simps)
  qed
  then show ?thesis by (simp add: parse_lsn_def fmt_lsn_def split_at_hex hi lo)
qed

section \<open>Messages\<close>

definition unread :: "ReplConn \<Rightarrow> bytes" where
  "unread c = rbuf c @ concat (map (\<lambda>r. case r of Inr ch \<Rightarrow> ch | Inl e \<Rightarrow> []) (inbox c))"

definition small :: "bytes \<Rightarrow> bool" where
  "small p \<longleftrightarrow> length p + 4 < 2 ^ 32"

lemma frame_length: "small p \<Longrightarrow> unat (4 + word_of_nat (length p) :: u32) = length p + 4"
proof -
  assume s: "small p"
  have "(4 + word_of_nat (length p) :: u32) = word_of_nat (length p + 4)" by simp
  then show ?thesis using s by (simp only: unat_of_nat take_bit_nat_eq_self small_def) simp
qed

lemma take_frame_complete: "small p \<Longrightarrow> take_frame (frame t p @ rest) = Ok (Some ((t, p), rest))"
proof -
  assume s: "small p"
  have "length p + 5 = length (frame t p)" by (simp add: frame_def)
  then have "drop (length p + 4 + 1) (frame t p @ rest) = rest" by simp
  then show ?thesis unfolding take_frame_def Let_def using frame_length [OF s] by (simp add: frame_def add.commute)
qed

lemma take_frame_partial:
  assumes "small p" "b @ x = frame t p" "x \<noteq> []"
  shows "take_frame b = Ok None"
proof (cases "length b < 5")
  case False
  have len: "length b < length (frame t p)" using assms(2,3) by (metis length_append length_greater_0_conv less_add_same_cancel1)
  have "take 4 (drop 1 b) = take 4 (drop 1 (b @ x))" using False by simp
  also have "\<dots> = to_be (4 + word_of_nat (length p) :: u32)" unfolding assms(2) by (simp add: frame_def)
  finally show ?thesis using False len frame_length [OF assms(1)] by (simp add: take_frame_def Let_def frame_def)
qed (simp add: take_frame_def)

lemma be_inverse: "length x = 4 \<Longrightarrow> to_be (from_be x :: u32) = x"
proof -
  assume x: "length x = 4"
  have "le_nat (rev x) < 256 ^ 4" using le_nat_bound [of "rev x"] x by simp
  then have "unat (word_of_nat (le_nat (rev x)) :: u32) = le_nat (rev x)" by (simp add: unat_of_nat take_bit_nat_eq_self)
  then show ?thesis
    using le_bytes_le_nat [of "rev x"] x by (simp add: to_be_def from_be_def from_le_def to_le_def)
qed

lemma take_frame_inverse:
  assumes "take_frame b = Ok (Some ((t, p), rest))"
  shows "b = frame t p @ rest \<and> small p"
proof -
  define len where "len = unat (from_be (take 4 (drop 1 b)) :: u32)"
  have b: "\<not> length b < 5" "\<not> len < 4" "\<not> length b < 1 + len" "t = b ! 0" "p = take (len - 4) (drop 5 b)" "rest = drop (len + 1) b"
    using assms by (auto simp: take_frame_def Let_def len_def split: if_splits)
  have lp: "length p = len - 4" using b by simp
  have "len < 2 ^ 32" unfolding len_def using unsigned_less [of "from_be (take 4 (drop 1 b)) :: u32", where 'a = nat] by simp
  then have sm: "small p" using b(2) lp by (simp add: small_def)
  have "(4 + word_of_nat (length p) :: u32) = word_of_nat len" using lp b(2) by (metis add.commute le_add_diff_inverse2 linorder_not_less of_nat_add of_nat_numeral)
  also have "\<dots> = from_be (take 4 (drop 1 b))" by (simp add: len_def)
  finally have "to_be (4 + word_of_nat (length p) :: u32) = take 4 (drop 1 b)" using be_inverse [of "take 4 (drop 1 b)"] b(1) by simp
  then have "frame t p @ rest = b ! 0 # take 4 (drop 1 b) @ take (len - 4) (drop 5 b) @ drop (len - 4) (drop 5 b)"
    using b by (simp add: frame_def)
  also have "\<dots> = b ! 0 # take 4 (drop 1 b) @ drop 5 b" by (simp only: append_take_drop_id [of "len - 4"])
  also have "\<dots> = b ! 0 # drop 1 b" using append_take_drop_id [of 4 "drop 1 b"] by simp
  also have "\<dots> = b" using b(1) by (cases b) simp_all
  finally show ?thesis using sm by simp
qed

lemma read_frame_inverse:
  "read_frame b inb = Ok ((t, p), b', inb') \<Longrightarrow>
   b @ concat (map (\<lambda>r. case r of Inr ch \<Rightarrow> ch | Inl e \<Rightarrow> []) inb) =
     frame t p @ b' @ concat (map (\<lambda>r. case r of Inr ch \<Rightarrow> ch | Inl e \<Rightarrow> []) inb') \<and> small p"
proof (induction b inb rule: read_frame.induct)
  case (1 b)
  then show ?case by (auto simp: rbind_eq_Ok split: option.splits dest!: take_frame_inverse)
next
  case (2 b r inb)
  obtain f where f: "take_frame b = Ok f" using 2(2) by (auto simp: rbind_eq_Ok)
  show ?case
  proof (cases f)
    case None
    then show ?thesis using 2(2) f 2(1) [OF f None] by (auto split: sum.splits if_splits)
  next
    case (Some mr)
    then show ?thesis using 2(2) f take_frame_inverse [of b t p b'] by (cases mr) auto
  qed
qed

lemma read_msg_inverse:
  assumes "read_msg c = Ok ((t, p), c')"
  shows "unread c = frame t p @ unread c'" "small p" "outbox c' = outbox c" "reqid c' = reqid c"
  using assms by (auto simp: read_msg_def rbind_eq_Ok unread_def dest!: read_frame_inverse)

text \<open>A healthy socket: no read fails, and none ends early.\<close>

definition healthy :: "ReplConn \<Rightarrow> bool" where
  "healthy c \<longleftrightarrow> (\<forall>r \<in> set (inbox c). \<exists>ch. r = Inr ch \<and> ch \<noteq> [])"

lemma read_frame_next:
  assumes "b @ concat (map (\<lambda>r. case r of Inr ch \<Rightarrow> ch | Inl e \<Rightarrow> []) inb) = frame t p @ rest" "small p"
    and "\<forall>r \<in> set inb. \<exists>ch. r = Inr ch \<and> ch \<noteq> []"
  shows "\<exists>b' inb'. read_frame b inb = Ok ((t, p), b', inb') \<and> set inb' \<subseteq> set inb"
  using assms
proof (induction inb arbitrary: b)
  case Nil
  then show ?case by (simp add: take_frame_complete)
next
  case (Cons r inb)
  obtain ch where r: "r = Inr ch" "ch \<noteq> []" using Cons.prems(3) by auto
  show ?case
  proof (cases "length (frame t p) \<le> length b")
    case True
    then obtain x where "b = frame t p @ x" using Cons.prems(1) by (metis append_eq_append_conv_if append_take_drop_id)
    then show ?thesis using Cons.prems(2) by (simp add: take_frame_complete)
  next
    case False
    then obtain x where x: "b @ x = frame t p" "x \<noteq> []"
      using Cons.prems(1) by (metis append_eq_append_conv_if append_take_drop_id append_Nil2 linear order_refl)
    then have "take_frame b = Ok None" using take_frame_partial Cons.prems(2) by blast
    moreover have "\<exists>b' inb'. read_frame (b @ ch) inb = Ok ((t, p), b', inb') \<and> set inb' \<subseteq> set inb"
      using Cons.IH [of "b @ ch"] Cons.prems r by simp
    ultimately show ?thesis using r by auto
  qed
qed

lemma read_msg_next:
  assumes "healthy c" "unread c = frame t p @ rest" "small p"
  shows "\<exists>c'. read_msg c = Ok ((t, p), c') \<and> healthy c' \<and> unread c' = rest"
proof -
  obtain b' inb' where f: "read_frame (rbuf c) (inbox c) = Ok ((t, p), b', inb')" "set inb' \<subseteq> set (inbox c)"
    using read_frame_next [of "rbuf c" "inbox c" t p rest] assms by (auto simp: healthy_def unread_def)
  let ?c' = "c\<lparr>rbuf := b', inbox := inb'\<rparr>"
  have r: "read_msg c = Ok ((t, p), ?c')" using f(1) by (simp add: read_msg_def)
  have "healthy ?c'" using assms(1) f(2) by (auto simp: healthy_def)
  then show ?thesis using r read_msg_inverse(1) [OF r] assms(2) by auto
qed

lemma read_msg_closed:
  assumes "healthy c" "unread c = []"
  shows "read_msg c = Err (Bail ''connection closed by server'')"
proof -
  have "inbox c = []" "rbuf c = []" using assms by (cases "inbox c"; fastforce simp: healthy_def unread_def)+
  then show ?thesis by (simp add: read_msg_def take_frame_def)
qed

fun read_msgs :: "nat \<Rightarrow> ReplConn \<Rightarrow> ((u8 \<times> bytes) list \<times> ReplConn) result" where
  "read_msgs 0 c = Ok ([], c)"
| "read_msgs (Suc n) c = rbind (read_msg c) (\<lambda>(m, c'). rbind (read_msgs n c') (\<lambda>(ms, c''). Ok (m # ms, c'')))"

text \<open>
  C36 (roundtrip): message framing does not depend on how the socket cuts the stream. Whatever chunks the bytes of
  a list of messages arrive in, and whatever of them is already buffered, reading as many messages returns
  exactly those messages, and the next read reports that the server closed the connection.
\<close>

theorem wire_messages_roundtrip:
  assumes "healthy c" "list_all (\<lambda>(t, p). small p) ms" "unread c = concat (map (\<lambda>(t, p). frame t p) ms)"
  shows "\<exists>c'. read_msgs (length ms) c = Ok (ms, c') \<and> read_msg c' = Err (Bail ''connection closed by server'')"
  using assms
proof (induction ms arbitrary: c)
  case Nil
  then show ?case by (simp add: read_msg_closed)
next
  case (Cons m ms)
  obtain t p where m: "m = (t, p)" by (cases m)
  obtain c1 where c1: "read_msg c = Ok (m, c1)" "healthy c1" "unread c1 = concat (map (\<lambda>(t, p). frame t p) ms)"
    using read_msg_next [of c t p] Cons.prems m by auto
  from Cons.IH [OF c1(2) _ c1(3)] Cons.prems(2) c1(1) show ?case by auto
qed

theorem wire_messages_roundtrip_witness:
  "\<exists>c'. read_msgs (length [(100 :: u8, [7 :: u8]), (90, [])])
      \<lparr>inbox = [Inr [0, 0, 0, 5], Inr [7, 90, 0], Inr [0, 0, 4]], rbuf = [100], outbox = [], writes = [], reqid = 0\<rparr> =
      Ok ([(100, [7]), (90, [])], c') \<and> read_msg c' = Err (Bail ''connection closed by server'')"
proof (rule wire_messages_roundtrip)
  let ?c = "\<lparr>inbox = [Inr [0, 0, 0, 5], Inr [7, 90, 0], Inr [0, 0, 4]], rbuf = [100], outbox = [], writes = [], reqid = 0\<rparr>"
  show "healthy ?c" by (simp add: healthy_def)
  show "unread ?c = concat (map (\<lambda>(t, p). frame t p) [(100, [7]), (90, [])])"
    by (simp add: unread_def frame_def to_be_def to_le_def le_bytes_4)
qed (simp add: small_def)

section \<open>Page requests\<close>

lemma page_loop_answer:
  "msg_loop (page_arms what) s c = Ok (resp, c') \<Longrightarrow>
   (\<exists>notices. unread c = concat (map (frame 78) notices) @ frame 100 resp @ unread c') \<and> outbox c' = outbox c \<and> reqid c' = reqid c"
proof (induction "page_arms what" s c rule: msg_loop.induct)
  case (1 s c)
  obtain t p c1 where r: "read_msg c = Ok ((t, p), c1)" using 1(3) by (subst (asm) msg_loop.simps) (auto split: sum.splits)
  note inv = read_msg_inverse [OF r]
  show ?case
  proof (cases "t = 78")
    case True
    then have "msg_loop (page_arms what) () c1 = Ok (resp, c')"
      using 1(3) r by (subst (asm) msg_loop.simps) (simp add: page_arms_def)
    moreover have "page_arms what t p s = Ok (Continue ())" using True by (simp add: page_arms_def)
    ultimately obtain notices where
      n: "unread c1 = concat (map (frame 78) notices) @ frame 100 resp @ unread c'" "outbox c' = outbox c1" "reqid c' = reqid c1"
      using 1(1) [OF r refl refl _ refl] by blast
    show ?thesis using n inv True by (intro conjI exI [of _ "p # notices"]) simp_all
  next
    case False
    then have "t = 100 \<and> resp = p \<and> c' = c1"
      using 1(3) r by (subst (asm) msg_loop.simps) (auto simp: page_arms_def split: if_splits)
    then show ?thesis using inv by (intro conjI exI [of _ "[]"]) simp_all
  qed
qed

lemma be_inverse_8: "length x = 8 \<Longrightarrow> to_be (from_be x :: u64) = x"
proof -
  assume x: "length x = 8"
  have "le_nat (rev x) < 256 ^ 8" using le_nat_bound [of "rev x"] x by simp
  then have "unat (word_of_nat (le_nat (rev x)) :: u64) = le_nat (rev x)" by (simp add: unat_of_nat take_bit_nat_eq_self)
  then show ?thesis
    using le_bytes_le_nat [of "rev x"] x by (simp add: to_be_def from_be_def from_le_def to_le_def)
qed

lemma buf_get_Ok: "buf_get n b = Ok (x, r) \<longleftrightarrow> b = x @ r \<and> length x = n"
  by (auto simp: buf_get_def append_take_drop_id)

lemma check_response_Ok:
  assumes "check_response rid want what resp = Ok r" "want \<noteq> 103"
  shows "resp = [want] @ to_be rid @ r"
proof -
  obtain tag r1 and got :: u64 and r2 where g: "get_u8 resp = Ok (tag, r1)" "get_be 8 r1 = Ok (got, r2)"
    using assms(1) by (auto simp: check_response_def rbind_eq_Ok split: if_splits)
  have "resp = [tag] @ r1" using g(1) by (auto simp: get_u8_def rbind_eq_Ok buf_get_Ok length_Suc_conv)
  moreover have "r1 = to_be got @ r2" using g(2) by (auto simp: get_be_def rbind_eq_Ok buf_get_Ok be_inverse_8)
  moreover have "tag = want \<and> got = rid \<and> r = r2"
    using assms g by (auto simp: check_response_def rbind_eq_Ok split: if_splits)
  ultimately show ?thesis by simp
qed

text \<open>
  C37 (safety): a page that is returned answers this request. If \<open>get_page\<close> succeeds, the request written is the
  one frame with a new request id, the LSN twice, the relation and the block, and what was read of the stream
  is notices followed by one data frame whose tag says page and whose request id is that of this request; the
  33 echoed bytes after it are skipped unread, the page is the rest and has 8192 bytes, and nothing beyond
  that frame is consumed.
\<close>

theorem get_page_answers_request:
  assumes "get_page tag blk l c = Ok (page, c')"
  shows "length page = 8192 \<and> reqid c' = reqid c + 1 \<and>
     outbox c' = outbox c @ frame 100 ([2] @ to_be (reqid c + 1) @ to_be l @ to_be l @ put_reltag tag @ to_be blk) \<and>
     (\<exists>notices echo. length echo = 33 \<and>
        unread c = concat (map (frame 78) notices) @ frame 100 ([102] @ to_be (reqid c + 1) @ echo @ page) @ unread c')"
proof -
  let ?req = "[2] @ to_be (reqid c + 1) @ to_be l @ to_be l @ put_reltag tag @ to_be blk" and ?c0 = "c\<lparr>reqid := reqid c + 1\<rparr>"
  obtain resp c2 echo where p: "pagestream_roundtrip ?req 102 ''GetPage'' ?c0 = Ok (resp, c2)" "buf_get 33 resp = Ok (echo, page)"
    "length page = 8192" "c' = c2"
    using assms by (auto simp: get_page_def pagestream_hdr_def Let_def rbind_eq_Ok split: if_splits)
  obtain c1 body where w: "write_all (frame 100 ?req) ?c0 = Ok c1" "msg_loop (page_arms ''GetPage'') () c1 = Ok (body, c2)"
    "check_response (reqid c2) 102 ''GetPage'' body = Ok resp"
    using p(1) by (auto simp: pagestream_roundtrip_def rbind_eq_Ok)
  have c1: "outbox c1 = outbox c @ frame 100 ?req" "reqid c1 = reqid c + 1" "unread c1 = unread c"
    using w(1) by (auto simp: write_all_def unread_def split: list.splits option.splits)
  obtain notices where n: "unread c1 = concat (map (frame 78) notices) @ frame 100 body @ unread c2" "outbox c2 = outbox c1" "reqid c2 = reqid c1"
    using page_loop_answer [OF w(2)] by blast
  have "body = [102] @ to_be (reqid c + 1) @ resp" using check_response_Ok [OF w(3)] n(3) c1(2) by simp
  moreover have "resp = echo @ page" "length echo = 33" using p(2) by (simp_all add: buf_get_Ok)
  ultimately show ?thesis using n c1 p(3,4) by (intro conjI exI [of _ notices] exI [of _ echo]) simp_all
qed

definition blank_response :: bytes where
  "blank_response = [102] @ to_be (1 :: u64) @ replicate 33 0 @ replicate 8192 7"

definition blank_conn :: ReplConn where
  "blank_conn = new_conn [Inr (frame 78 [1]), Inr (frame 100 blank_response)] []"

lemma blank_frames:
  "take_frame (frame 78 [1]) = Ok (Some ((78, [1]), []))" "take_frame (frame 100 blank_response) = Ok (Some ((100, blank_response), []))"
  using take_frame_complete [of "[1]" 78 "[]"] take_frame_complete [of blank_response 100 "[]"] by (simp_all add: small_def blank_response_def)

lemma blank_page: "\<exists>c'. get_page \<lparr>spcnode = 1663, dbnode = 5, relnode = 16384, forknum = 0\<rparr> 3 9 blank_conn = Ok (replicate 8192 7, c')"
proof -
  have f: "frame t p \<noteq> []" for t p by (simp add: frame_def)
  have none: "take_frame [] = Ok None" by (simp add: take_frame_def)
  have resp: "check_response 1 102 ''GetPage'' blank_response = Ok (replicate 33 0 @ replicate 8192 7)"
    by (simp add: check_response_def blank_response_def get_u8_def get_be_def buf_get_def)
  let ?req = "[2] @ to_be (1 :: u64) @ to_be (9 :: u64) @ to_be (9 :: u64) @
     put_reltag \<lparr>spcnode = 1663, dbnode = 5, relnode = 16384, forknum = 0\<rparr> @ to_be (3 :: u32)"
  have "\<exists>c'. msg_loop (page_arms ''GetPage'') () \<lparr>inbox = [Inr (frame 78 [1]), Inr (frame 100 blank_response)], rbuf = [],
      outbox = frame 100 ?req, writes = [], reqid = 1\<rparr> = Ok (blank_response, c') \<and> reqid c' = 1"
    by (simp add: msg_loop.simps read_msg_def none f blank_frames page_arms_def)
  then show ?thesis
    by (auto simp: get_page_def pagestream_hdr_def blank_conn_def new_conn_def pagestream_roundtrip_def write_all_def resp buf_get_def)
qed

theorem get_page_answers_request_witness:
  "\<exists>c'. get_page \<lparr>spcnode = 1663, dbnode = 5, relnode = 16384, forknum = 0\<rparr> 3 9 blank_conn = Ok (replicate 8192 7, c') \<and>
     length (replicate 8192 (7 :: u8)) = 8192 \<and> reqid c' = 1"
proof -
  obtain c' where c': "get_page \<lparr>spcnode = 1663, dbnode = 5, relnode = 16384, forknum = 0\<rparr> 3 9 blank_conn = Ok (replicate 8192 7, c')"
    using blank_page by blast
  then show ?thesis using get_page_answers_request [OF c'] by (intro exI [of _ c']) (simp add: blank_conn_def new_conn_def)
qed

end
