(* ===== verification/Snapshot.thy ===== *)
theory Snapshot
  imports Pgwire Heap
begin

text \<open>
  \<^verbatim>\<open>src/snapshot.rs\<close>: the initial snapshot. The answers of the SQL connection are arguments; the
  binary COPY stream, however the connection cuts it, is parsed into rows with their addresses. The tuple
  loop is a partial function, so that not ending would be the value \<open>None\<close>.
\<close>

section \<open>Fields\<close>

definition be_array :: "nat \<Rightarrow> bytes \<Rightarrow> bytes result" where
  "be_array n f = (if length f = n then Ok f else Err (Bail ''bad field length''))"

fun decode_field :: "bytes \<Rightarrow> PgType \<Rightarrow> Value result" where
  "decode_field f Bool = rbind (ok_or (get f 0) (Bail ''empty bool'')) (\<lambda>b. Ok (VBool (b \<noteq> 0)))"
| "decode_field f Int2 = rbind (be_array 2 f) (\<lambda>b. Ok (VI16 (from_be b)))"
| "decode_field f Int4 = rbind (be_array 4 f) (\<lambda>b. Ok (VI32 (from_be b)))"
| "decode_field f Int8 = rbind (be_array 8 f) (\<lambda>b. Ok (VI64 (from_be b)))"
| "decode_field f Float4 = rbind (be_array 4 f) (\<lambda>b. Ok (VF32 (from_be b)))"
| "decode_field f Float8 = rbind (be_array 8 f) (\<lambda>b. Ok (VF64 (from_be b)))"
| "decode_field f Text = Ok (VText (from_utf8_lossy f))"
| "decode_field f Bytea = Ok (VBytes f)"
| "decode_field f Uuid = Ok (VText (format_uuid f))"
| "decode_field f Numeric = rbind (numeric_from_binary f) (\<lambda>s. Ok (VText s))"
| "decode_field f Jsonb = Ok (VText (from_utf8_lossy (drop 1 f)))"
| "decode_field f Date = rbind (be_array 4 f) (\<lambda>b. rbind (checked_add (from_be b) PG_EPOCH_DAYS) (\<lambda>d. Ok (VI32 d)))"
| "decode_field f Timestamp = rbind (be_array 8 f) (\<lambda>b. rbind (checked_add (from_be b) PG_EPOCH_MICROS) (\<lambda>d. Ok (VI64 d)))"
| "decode_field f TimestampTz = rbind (be_array 8 f) (\<lambda>b. rbind (checked_add (from_be b) PG_EPOCH_MICROS) (\<lambda>d. Ok (VI64 d)))"

section \<open>The COPY stream\<close>

fun copy_fields :: "bytes \<Rightarrow> Col list \<Rightarrow> nat \<Rightarrow> (Row \<times> nat) result" where
  "copy_fields dat [] pos = Ok ([], pos)"
| "copy_fields dat (col # cs) pos =
     rbind (ok_or (get_range dat pos (pos + 4)) (Bail ''COPY stream truncated at field length'')) (\<lambda>l.
     let len = from_be l :: i32 in
     if sint len < 0 then rbind (copy_fields dat cs (pos + 4)) (\<lambda>(row, p). Ok (None # row, p))
     else
       rbind (ok_or (get_range dat (pos + 4) (pos + 4 + unat len)) (Bail ''COPY stream truncated in field'')) (\<lambda>f.
       rbind (column_context (decode_field f (col_ty col))) (\<lambda>v.
       rbind (copy_fields dat cs (pos + 4 + unat len)) (\<lambda>(row, p). Ok (Some v # row, p)))))"

text \<open>One turn of the loop: the tuple and the position behind it, or the trailer.\<close>

definition copy_tuple :: "bytes \<Rightarrow> TableDesc \<Rightarrow> nat \<Rightarrow> (((u32 \<times> u16) \<times> Row) \<times> nat) option result" where
  "copy_tuple dat desc pos =
     rbind (ok_or (get_range dat pos (pos + 2)) (Bail ''COPY stream truncated at tuple header'')) (\<lambda>h.
     let nc = from_be h :: i16 in
     if nc = - 1 then Ok None
     else if unat (scast nc :: u64) \<noteq> length (cols desc) + 1 then Err (Bail ''COPY tuple has another number of columns'')
     else
       rbind (ok_or (get_range dat (pos + 2) (pos + 6)) (Bail ''truncated ctid length'')) (\<lambda>l.
       if (from_be l :: i32) \<noteq> 6 then Err (Bail ''ctid field has another length'')
       else
         rbind (slice dat (pos + 6) (pos + 12)) (\<lambda>f.
         rbind (copy_fields dat (cols desc) (pos + 12)) (\<lambda>(row, p).
           Ok (Some (((from_be (take 4 f), from_be (drop 4 f)), row), p))))))"

partial_function (option) copy_loop ::
  "bytes \<Rightarrow> TableDesc \<Rightarrow> nat \<Rightarrow> ((u32 \<times> u16) \<times> Row) list \<Rightarrow> ((u32 \<times> u16) \<times> Row) list result option" where
  "copy_loop dat desc pos rows =
     (case copy_tuple dat desc pos of
        Inl e \<Rightarrow> Some (Err e)
      | Inr t \<Rightarrow> (case t of None \<Rightarrow> Some (Ok rows) | Some rp \<Rightarrow> copy_loop dat desc (snd rp) (rows @ [fst rp])))"

definition COPY_SIG :: bytes where
  "COPY_SIG = [80, 71, 67, 79, 80, 89, 10, 255, 13, 10, 0]"

definition parse_copy_binary :: "bytes \<Rightarrow> TableDesc \<Rightarrow> ((u32 \<times> u16) \<times> Row) list result option" where
  "parse_copy_binary dat desc =
     (if length dat < 19 \<or> take 11 dat \<noteq> COPY_SIG then Some (Err (Bail ''bad COPY binary signature''))
      else copy_loop dat desc (19 + unat (from_be (take 4 (drop 15 dat)) :: u32)) [])"

section \<open>Taking a snapshot\<close>

text \<open>
  What the connection answers, in the order it is asked: connecting and opening the transaction, the lock,
  the insert position, the COPY chunks, the extension, the page items, the commit.
\<close>

record SnapSql =
  sn_connect :: "unit result"
  sn_lock :: "unit result"
  sn_lsn :: "string result"
  sn_copy :: "bytes list result"
  sn_extension :: "unit result"
  sn_items :: "(i64 \<times> i64 \<times> bytes) list result"
  sn_commit :: "unit result"

definition read_raw_attrs :: "SnapSql \<Rightarrow> ((u32 \<times> u16) \<times> bytes) list" where
  "read_raw_attrs sql = (case (sn_extension sql, sn_items sql) of
       (Inr _, Inr items) \<Rightarrow> fold (\<lambda>(blk, lp, d). AList.update (ucast blk, ucast lp) d) items []
     | _ \<Rightarrow> [])"

definition read_raw_attrs_conn :: "SnapSql \<Rightarrow> ((u32 \<times> u16) \<times> bytes) list result" where
  "read_raw_attrs_conn sql = rbind (sn_connect sql) (\<lambda>_. Ok (read_raw_attrs sql))"

definition take_snapshot ::
  "SnapSql \<Rightarrow> TableDesc \<Rightarrow> (u64 \<times> ((u32 \<times> u16) \<times> Row) list \<times> ((u32 \<times> u16) \<times> bytes) list) result option" where
  "take_snapshot sql desc =
     (case rbind (sn_connect sql) (\<lambda>_. rbind (sn_lock sql) (\<lambda>_. rbind (sn_lsn sql) (\<lambda>x. rbind (parse_lsn x) (\<lambda>cutover.
           rbind (sn_copy sql) (\<lambda>chunks. rbind (sn_commit sql) (\<lambda>_. Ok (cutover, concat chunks))))))) of
        Inl e \<Rightarrow> Some (Err e)
      | Inr (cutover, dat) \<Rightarrow>
          map_option (\<lambda>r. rbind r (\<lambda>rows. Ok (cutover, rows, read_raw_attrs sql))) (parse_copy_binary dat desc))"

section \<open>The parser ends\<close>

lemma copy_fields_advances: "copy_fields dat cs pos = Ok (row, p) \<Longrightarrow> pos \<le> p"
proof (induction cs arbitrary: pos row)
  case (Cons col cs)
  obtain row' k where "copy_fields dat cs (pos + 4 + k) = Ok (row', p)"
    using Cons.prems by (auto simp: rbind_eq_Ok Let_def split: if_splits) (metis add.right_neutral)
  from Cons.IH [OF this] show ?case by simp
qed simp

lemma copy_tuple_advances:
  assumes "copy_tuple dat desc pos = Ok (Some rp)"
  shows "pos < snd rp" "pos < length dat"
proof -
  obtain h where h: "get_range dat pos (pos + 2) = Some h" using assms by (auto simp: copy_tuple_def result_simps)
  obtain row where "copy_fields dat (cols desc) (pos + 12) = Ok (row, snd rp)"
    using assms by (auto simp: copy_tuple_def rbind_eq_Ok Let_def split: if_splits)
  then show "pos < snd rp" using copy_fields_advances by fastforce
  show "pos < length dat" using h by (simp add: get_range_eq_Some)
qed

lemma copy_loop_ends: "\<exists>r. copy_loop dat desc pos rows = Some r"
proof (induction "length dat - pos" arbitrary: pos rows rule: less_induct)
  case less
  show ?case
  proof (cases "\<exists>rp. copy_tuple dat desc pos = Ok (Some rp)")
    case True
    then obtain rp where rp: "copy_tuple dat desc pos = Ok (Some rp)" by blast
    have "length dat - snd rp < length dat - pos" using copy_tuple_advances [OF rp] by simp
    from less [OF this] show ?thesis using rp by (subst copy_loop.simps) simp
  next
    case False
    then show ?thesis by (subst copy_loop.simps) (auto split: sum.split option.split)
  qed
qed

text \<open>
  C35 (termination): a snapshot always ends. Whatever the connection answers and whatever bytes the COPY stream
  holds, truncated, corrupt or hostile, the tuple loop returns rows or an error.
\<close>

theorem snapshot_ends: "\<exists>r. take_snapshot sql desc = Some r"
proof -
  have "\<exists>r. parse_copy_binary dat desc = Some r" for dat using copy_loop_ends by (simp add: parse_copy_binary_def)
  then show ?thesis by (auto simp: take_snapshot_def split: sum.split)
qed

section \<open>What PostgreSQL sends\<close>

text \<open>A value as the server holds it, its binary wire form, and the value the lake should get.\<close>

datatype Datum = DBool bool | DInt2 i16 | DInt4 i32 | DInt8 i64 | DFloat4 u32 | DFloat8 u64 | DBytes bytes
  | DNumeric bool i16 nat "u16 list" | DDate i32 | DTimestamp i64

fun datum_fits :: "PgType \<Rightarrow> Datum \<Rightarrow> bool" where
  "datum_fits ty (DBool b) = (ty = Bool)"
| "datum_fits ty (DInt2 x) = (ty = Int2)"
| "datum_fits ty (DInt4 x) = (ty = Int4)"
| "datum_fits ty (DInt8 x) = (ty = Int8)"
| "datum_fits ty (DFloat4 x) = (ty = Float4)"
| "datum_fits ty (DFloat8 x) = (ty = Float8)"
| "datum_fits ty (DBytes b) = ((ty = Text \<or> ty = Jsonb) \<and> valid_utf8 b \<or> ty = Bytea \<or> ty = Uuid \<and> length b = 16)"
| "datum_fits ty (DNumeric neg w dscale ds) = (ty = Numeric \<and> dscale < 16384 \<and> length ds < 32768)"
| "datum_fits ty (DDate d) = (ty = Date \<and> checked_add d PG_EPOCH_DAYS = Ok (d + PG_EPOCH_DAYS))"
| "datum_fits ty (DTimestamp t) =
     ((ty = Timestamp \<or> ty = TimestampTz) \<and> checked_add t PG_EPOCH_MICROS = Ok (t + PG_EPOCH_MICROS))"

fun datum_send :: "PgType \<Rightarrow> Datum \<Rightarrow> bytes" where
  "datum_send ty (DBool b) = [if b then 1 else 0]"
| "datum_send ty (DInt2 x) = to_be x"
| "datum_send ty (DInt4 x) = to_be x"
| "datum_send ty (DInt8 x) = to_be x"
| "datum_send ty (DFloat4 x) = to_be x"
| "datum_send ty (DFloat8 x) = to_be x"
| "datum_send ty (DBytes b) = (if ty = Jsonb then [1] else []) @ b"
| "datum_send ty (DNumeric neg w dscale ds) = numeric_send neg w dscale ds"
| "datum_send ty (DDate d) = to_be d"
| "datum_send ty (DTimestamp t) = to_be t"

fun datum_value :: "PgType \<Rightarrow> Datum \<Rightarrow> Value" where
  "datum_value ty (DBool b) = VBool b"
| "datum_value ty (DInt2 x) = VI16 x"
| "datum_value ty (DInt4 x) = VI32 x"
| "datum_value ty (DInt8 x) = VI64 x"
| "datum_value ty (DFloat4 x) = VF32 x"
| "datum_value ty (DFloat8 x) = VF64 x"
| "datum_value ty (DBytes b) =
     (if ty = Bytea then VBytes b else if ty = Uuid then VText (format_uuid b) else VText (as_string b))"
| "datum_value ty (DNumeric neg w dscale ds) = VText (numeric_digits_to_string neg (sint w) (int dscale) ds)"
| "datum_value ty (DDate d) = VI32 (d + PG_EPOCH_DAYS)"
| "datum_value ty (DTimestamp t) = VI64 (t + PG_EPOCH_MICROS)"

lemma numeric_binary_value:
  "dscale < 16384 \<Longrightarrow> length ds < 32768 \<Longrightarrow>
   numeric_from_binary (numeric_send neg w dscale ds) = Ok (numeric_digits_to_string neg (sint w) (int dscale) ds)"
  by (simp add: numeric_from_binary_def numeric_send_def Let_def sint_nat16 be_digits_concat [of ds "[]", simplified] sign_word_def)

lemma decode_field_sent: "datum_fits ty d \<Longrightarrow> decode_field (datum_send ty d) ty = Ok (datum_value ty d)"
  by (cases d) (auto simp: be_array_def get_def lossy_valid numeric_binary_value)

definition sent_field :: "PgType \<Rightarrow> Datum option \<Rightarrow> bytes" where
  "sent_field ty d = (case d of None \<Rightarrow> to_be (- 1 :: i32)
     | Some x \<Rightarrow> to_be (word_of_nat (length (datum_send ty x)) :: i32) @ datum_send ty x)"

definition sent_row :: "Col list \<Rightarrow> Datum option list \<Rightarrow> bytes" where
  "sent_row cs ds = concat (map (\<lambda>(c, d). sent_field (col_ty c) d) (zip cs ds))"

definition sent_tuple :: "Col list \<Rightarrow> (u32 \<times> u16) \<times> Datum option list \<Rightarrow> bytes" where
  "sent_tuple cs t =
     to_be (word_of_nat (length cs + 1) :: i16) @ to_be (6 :: i32) @ to_be (fst (fst t)) @ to_be (snd (fst t)) @ sent_row cs (snd t)"

definition sent_copy :: "Col list \<Rightarrow> bytes \<Rightarrow> u32 \<Rightarrow> ((u32 \<times> u16) \<times> Datum option list) list \<Rightarrow> bytes" where
  "sent_copy cs ext flags ts =
     COPY_SIG @ to_be flags @ to_be (word_of_nat (length ext) :: u32) @ ext @ concat (map (sent_tuple cs) ts) @ to_be (- 1 :: i16)"

definition row_fits :: "Col list \<Rightarrow> Datum option list \<Rightarrow> bool" where
  "row_fits cs ds \<longleftrightarrow> list_all2 (\<lambda>c d. case d of None \<Rightarrow> True
     | Some x \<Rightarrow> datum_fits (col_ty c) x \<and> length (datum_send (col_ty c) x) < 2 ^ 31) cs ds"

definition row_value :: "Col list \<Rightarrow> Datum option list \<Rightarrow> Row" where
  "row_value cs ds = map (\<lambda>(c, d). map_option (datum_value (col_ty c)) d) (zip cs ds)"

lemma sint_small: "n < 2 ^ 31 \<Longrightarrow> sint (word_of_nat n :: i32) = int n \<and> unat (word_of_nat n :: i32) = n"
  by (simp add: signed_of_nat signed_take_bit_int_eq_self unat_of_nat take_bit_nat_eq_self)

lemma get_range_mid: "pos = length pre \<Longrightarrow> n = length x \<Longrightarrow> get_range (pre @ x @ post) pos (pos + n) = Some x"
  by (simp add: get_range_def)

lemma copy_fields_sent:
  "row_fits cs ds \<Longrightarrow> copy_fields (pre @ sent_row cs ds @ post) cs (length pre) = Ok (row_value cs ds, length pre + length (sent_row cs ds))"
proof (induction cs arbitrary: ds pre)
  case Nil
  then show ?case by (simp add: row_fits_def row_value_def sent_row_def)
next
  case (Cons c cs)
  obtain d ds' where ds: "ds = d # ds'" "row_fits cs ds'" using Cons.prems by (auto simp: row_fits_def list_all2_Cons1)
  let ?f = "sent_field (col_ty c) d" and ?k = "length pre"
  define D where "D = pre @ sent_row (c # cs) ds @ post"
  have dat: "D = pre @ ?f @ sent_row cs ds' @ post" by (simp add: D_def ds sent_row_def)
  have IH: "copy_fields D cs (?k + length ?f) = Ok (row_value cs ds', ?k + length ?f + length (sent_row cs ds'))"
    using Cons.IH [OF ds(2), of "pre @ ?f"] by (simp add: dat)
  have out: "row_value (c # cs) ds = map_option (datum_value (col_ty c)) d # row_value cs ds'"
    "length (sent_row (c # cs) ds) = length ?f + length (sent_row cs ds')"
    by (simp_all add: ds row_value_def sent_row_def)
  have "copy_fields D (c # cs) ?k = Ok (row_value (c # cs) ds, ?k + length (sent_row (c # cs) ds))"
  proof (cases d)
    case None
    have f: "?f = to_be (- 1 :: i32)" by (simp add: None sent_field_def)
    have "get_range D ?k (?k + 4) = Some ?f" unfolding dat by (rule get_range_mid) (simp_all add: f)
    then show ?thesis using IH by (simp add: out Let_def f) (simp add: None)
  next
    case (Some x)
    let ?b = "datum_send (col_ty c) x" let ?l = "word_of_nat (length ?b) :: i32"
    have fit: "datum_fits (col_ty c) x" "length ?b < 2 ^ 31" using Cons.prems by (simp_all add: ds Some row_fits_def)
    have f: "?f = to_be ?l @ ?b" by (simp add: Some sent_field_def)
    have r1: "get_range D ?k (?k + 4) = Some (to_be ?l)"
      unfolding dat f using get_range_mid [of ?k pre 4 "to_be ?l" "?b @ sent_row cs ds' @ post"] by simp
    have r2: "get_range D (?k + 4) (?k + 4 + length ?b) = Some ?b"
      unfolding dat f using get_range_mid [of "?k + 4" "pre @ to_be ?l" "length ?b" ?b "sent_row cs ds' @ post"] by simp
    have len: "?k + length ?f = ?k + 4 + length ?b" by (simp add: f)
    show ?thesis
      using sint_small [OF fit(2)] decode_field_sent [OF fit(1)] r1 r2
      by (simp add: Let_def IH [unfolded len] out f) (simp add: Some)
  qed
  then show ?case by (simp add: D_def)
qed

lemma i16_cols: "n < 32767 \<Longrightarrow> (word_of_nat (n + 1) :: i16) \<noteq> - 1 \<and> unat (scast (word_of_nat (n + 1) :: i16) :: u64) = n + 1"
proof -
  assume n: "n < 32767"
  have s: "sint (word_of_nat (n + 1) :: i16) = int (n + 1)" using n by (rule_tac sint_nat16) simp
  moreover have "sint (- 1 :: i16) = - 1" by simp
  ultimately have "(word_of_nat (n + 1) :: i16) \<noteq> - 1" by (metis int_nat_eq nat_minus_as_int of_nat_neq_0 add.inverse_inverse nat_int of_nat_0_le_iff neg_0_le_iff_le not_one_le_zero)
  moreover have "(scast (word_of_nat (n + 1) :: i16) :: u64) = word_of_nat (n + 1)"
    using s by (metis of_int_of_nat_eq scast_eq)
  then have "unat (scast (word_of_nat (n + 1) :: i16) :: u64) = n + 1" using n by (simp only: unat_of_nat take_bit_nat_eq_self) simp
  ultimately show ?thesis by blast
qed

lemma copy_tuple_sent:
  assumes "row_fits (cols desc) (snd t)" "length (cols desc) < 32767"
  shows "copy_tuple (pre @ sent_tuple (cols desc) t @ post) desc (length pre) =
    Ok (Some ((fst t, row_value (cols desc) (snd t)), length pre + length (sent_tuple (cols desc) t)))"
proof -
  let ?n = "to_be (word_of_nat (length (cols desc) + 1) :: i16)" and ?row = "sent_row (cols desc) (snd t)"
  let ?c = "to_be (fst (fst t)) @ to_be (snd (fst t))" and ?k = "length pre"
  define D where "D = pre @ sent_tuple (cols desc) t @ post"
  have dat: "D = pre @ ?n @ to_be (6 :: i32) @ ?c @ ?row @ post" by (simp add: D_def sent_tuple_def)
  have r1: "get_range D ?k (?k + 2) = Some ?n"
    unfolding dat by (rule get_range_mid) simp_all
  have r2: "get_range D (?k + 2) (?k + 6) = Some (to_be (6 :: i32))"
    unfolding dat using get_range_mid [of "?k + 2" "pre @ ?n" 4 "to_be (6 :: i32)" "?c @ ?row @ post"] by (simp add: add.commute)
  have "get_range ((pre @ ?n @ to_be (6 :: i32)) @ ?c @ (?row @ post)) (?k + 6) (?k + 6 + 6) = Some ?c"
    by (rule get_range_mid) simp_all
  moreover have "(pre @ ?n @ to_be (6 :: i32)) @ ?c @ (?row @ post) = D" "?k + 6 + 6 = ?k + 12" by (simp_all add: dat)
  ultimately have r3: "slice D (?k + 6) (?k + 12) = Ok ?c" by (simp only: slice_def ok_or.simps)
  have fs: "copy_fields D (cols desc) (?k + 12) = Ok (row_value (cols desc) (snd t), ?k + 12 + length ?row)"
    using copy_fields_sent [OF assms(1), of "pre @ ?n @ to_be (6 :: i32) @ ?c" post] by (simp add: dat)
  have len: "length (sent_tuple (cols desc) t) = 12 + length ?row" by (simp add: sent_tuple_def)
  have nc: "(from_be ?n :: i16) = word_of_nat (length (cols desc) + 1)" by (rule from_to_be_u16)
  have six: "(from_be (to_be (6 :: i32)) :: i32) = 6" by (rule from_to_be_u32)
  have ct: "((from_be (take 4 ?c), from_be (drop 4 ?c)), r) = (fst t, r)" for r :: Row by simp
  have cs: "(word_of_nat (length (cols desc) + 1) :: i16) \<noteq> - 1" "unat (scast (word_of_nat (length (cols desc) + 1) :: i16) :: u64) = length (cols desc) + 1"
    using i16_cols [OF assms(2)] by blast+
  have "copy_tuple D desc ?k = Ok (Some ((fst t, row_value (cols desc) (snd t)), ?k + length (sent_tuple (cols desc) t)))"
    unfolding copy_tuple_def r1 ok_or.simps rbind.simps Let_def nc if_not_P [OF cs(1)] cs(2) r2 six r3 fs prod.case ct len not_True_eq_False simp_thms if_False add.assoc ..
  then show ?thesis by (simp add: D_def)
qed

lemma copy_loop_sent:
  assumes "list_all (\<lambda>t. row_fits (cols desc) (snd t)) ts" "length (cols desc) < 32767"
  shows "copy_loop (pre @ concat (map (sent_tuple (cols desc)) ts) @ to_be (- 1 :: i16)) desc (length pre) rows =
    Some (Ok (rows @ map (\<lambda>t. (fst t, row_value (cols desc) (snd t))) ts))"
  using assms(1)
proof (induction ts arbitrary: pre rows)
  case Nil
  have "get_range (pre @ to_be (- 1 :: i16)) (length pre) (length pre + 2) = Some (to_be (- 1 :: i16))"
    using get_range_mid [of "length pre" pre 2 "to_be (- 1 :: i16)" "[]"] by simp
  then have "copy_tuple (pre @ to_be (- 1 :: i16)) desc (length pre) = Ok None" by (simp add: copy_tuple_def Let_def)
  then show ?case by (subst copy_loop.simps) simp
next
  case (Cons t ts)
  let ?rest = "concat (map (sent_tuple (cols desc)) ts) @ to_be (- 1 :: i16)" and ?s = "sent_tuple (cols desc) t"
  have "copy_tuple (pre @ ?s @ ?rest) desc (length pre) =
      Ok (Some ((fst t, row_value (cols desc) (snd t)), length pre + length ?s))"
    using Cons.prems assms(2) by (intro copy_tuple_sent) simp_all
  moreover have "copy_loop (pre @ ?s @ ?rest) desc (length pre + length ?s) (rows @ [(fst t, row_value (cols desc) (snd t))]) =
      Some (Ok ((rows @ [(fst t, row_value (cols desc) (snd t))]) @ map (\<lambda>t. (fst t, row_value (cols desc) (snd t))) ts))"
    using Cons.IH [of "pre @ ?s"] Cons.prems by simp
  ultimately show ?case by (subst copy_loop.simps) simp
qed

text \<open>
  C34 (roundtrip): the snapshot is the table. When the chunks the connection delivers, however cut, are the binary
  COPY of a table's tuples (header with any flags and extension, nulls, every column type), the snapshot is the
  cutover position read under the lock and every tuple in order at its address with the values the WAL decoder
  would give: dates and timestamps moved to the Unix epoch, uuids and numerics as text, text and JSON as is.
\<close>

theorem snapshot_is_table:
  assumes "list_all (\<lambda>t. row_fits (cols desc) (snd t)) ts" "length (cols desc) < 32767" "length ext < 2 ^ 32"
    and "sn_connect sql = Ok ()" "sn_lock sql = Ok ()" "sn_lsn sql = Ok (fmt_lsn l)" "sn_commit sql = Ok ()"
    and "sn_copy sql = Ok chunks" "concat chunks = sent_copy (cols desc) ext flags ts"
  shows "take_snapshot sql desc =
    Some (Ok (l, map (\<lambda>t. (fst t, row_value (cols desc) (snd t))) ts, read_raw_attrs sql))"
proof -
  let ?h = "COPY_SIG @ to_be flags @ to_be (word_of_nat (length ext) :: u32) @ ext" and ?dat = "sent_copy (cols desc) ext flags ts"
  have dat: "?dat = ?h @ concat (map (sent_tuple (cols desc)) ts) @ to_be (- 1 :: i16)" by (simp add: sent_copy_def)
  have sig: "take 11 ?dat = COPY_SIG" "\<not> length ?dat < 19" "take 4 (drop 15 ?dat) = to_be (word_of_nat (length ext) :: u32)"
    by (simp_all add: sent_copy_def COPY_SIG_def)
  have e: "unat (word_of_nat (length ext) :: u32) = length ext" using assms(3) by (simp add: unat_of_nat take_bit_nat_eq_self)
  have "19 + length ext = length ?h" by (simp add: COPY_SIG_def)
  then have "copy_loop ?dat desc (19 + length ext) [] = Some (Ok (map (\<lambda>t. (fst t, row_value (cols desc) (snd t))) ts))"
    unfolding dat using copy_loop_sent [OF assms(1,2), of ?h "[]"] by (simp only: append_Nil)
  then have "parse_copy_binary ?dat desc = Some (Ok (map (\<lambda>t. (fst t, row_value (cols desc) (snd t))) ts))"
    using sig e by (simp add: parse_copy_binary_def)
  then show ?thesis using assms(4-9) by (simp add: take_snapshot_def lsn_text_roundtrip)
qed

definition events_desc :: TableDesc where
  "events_desc = \<lparr>td_name = ''events'', td_oid = 16400, db_oid = 5, rel_node = 16400, toast_rel_node = None,
     cols = [\<lparr>col_name = ''day'', col_ty = Date\<rparr>, \<lparr>col_name = ''what'', col_ty = Text\<rparr>, \<lparr>col_name = ''n'', col_ty = Numeric\<rparr>],
     phys = [], has_fast_defaults = False, pk = []\<rparr>"

definition events_tuples :: "((u32 \<times> u16) \<times> Datum option list) list" where
  "events_tuples = [((0, 1), [Some (DDate 9000), Some (DBytes (as_bytes ''hi'')), Some (DNumeric True 0 2 [7, 2500])]), ((0, 2), [None, None, None])]"

definition events_sql :: SnapSql where
  "events_sql = (let s = sent_copy (cols events_desc) [1, 2] 0 events_tuples in
     \<lparr>sn_connect = Ok (), sn_lock = Ok (), sn_lsn = Ok (fmt_lsn 0x16B374D848), sn_copy = Ok [take 30 s, drop 30 s],
      sn_extension = Err (Bail ''permission denied''), sn_items = Ok [], sn_commit = Ok ()\<rparr>)"

theorem snapshot_is_table_witness:
  "take_snapshot events_sql events_desc =
     Some (Ok (0x16B374D848, [((0, 1), [Some (VI32 19957), Some (VText ''hi''), Some (VText (numeric_digits_to_string True 0 2 [7, 2500]))]),
        ((0, 2), [None, None, None])], []))"
proof -
  let ?c = "cols events_desc"
  have fits: "list_all (\<lambda>t. row_fits ?c (snd t)) events_tuples"
    by (simp add: events_tuples_def row_fits_def events_desc_def numeric_send_def checked_add_def PG_EPOCH_DAYS_def
        valid_utf8.simps utf8_step_def safe_get_def as_bytes_def)
  have "take_snapshot events_sql events_desc =
      Some (Ok (0x16B374D848, map (\<lambda>t. (fst t, row_value ?c (snd t))) events_tuples, read_raw_attrs events_sql))"
    by (rule snapshot_is_table [OF fits, of "[1, 2]" _ _ "[take 30 (sent_copy ?c [1, 2] 0 events_tuples), drop 30 (sent_copy ?c [1, 2] 0 events_tuples)]" 0])
      (simp_all add: events_sql_def Let_def, simp add: events_desc_def)
  then show ?thesis
    by (simp add: events_tuples_def row_value_def events_desc_def PG_EPOCH_DAYS_def read_raw_attrs_def events_sql_def Let_def)
qed

end
