(* ===== verification/Tail.thy ===== *)
theory Tail
  imports Jsonb "HOL-Library.AList" "HOL-Library.Char_ord" "HOL-Library.List_Lexorder"
begin

text \<open>
  \<^verbatim>\<open>src/serve.rs\<close>: the in-memory tail of recently committed rows and the HTTP endpoint
  that serves it. Arrow record batches are the type variable \<open>'b\<close> with their row count, schema and
  Parquet writer as arguments; clock readings and the successive states of the shared store seen by
  a long poll are arguments too.
\<close>

section \<open>The tail store\<close>

record 'b TailBatch =
  batch :: 'b
  flushed_at :: "nat option"

record 'b TableTail =
  batches :: "'b TailBatch list"

record 'b TailStore =
  applied_lsn :: lsn
  tables :: "(string \<times> 'b TableTail) list"

definition tail_default :: "'b TailStore" where
  "tail_default = \<lparr>applied_lsn = 0, tables = []\<rparr>"

definition tail_push :: "string \<Rightarrow> 'b \<Rightarrow> 'b TailStore \<Rightarrow> 'b TailStore" where
  "tail_push table b s =
     (let t = (case map_of (tables s) table of Some t \<Rightarrow> t | None \<Rightarrow> \<lparr>batches = []\<rparr>)
      in s\<lparr>tables := AList.update table
            (t\<lparr>batches := batches t @ [\<lparr>batch = b, flushed_at = None\<rparr>]\<rparr>) (tables s)\<rparr>)"

text \<open>
  \<^verbatim>\<open>mark_flushed\<close>: \<open>now\<close> is the first clock reading, \<open>later i\<close> the reading behind
  \<^verbatim>\<open>elapsed()\<close> for the \<open>i\<close>-th batch.
\<close>

definition mark_flushed :: "string \<Rightarrow> nat \<Rightarrow> nat \<Rightarrow> (nat \<Rightarrow> nat) \<Rightarrow> 'b TailStore \<Rightarrow> 'b TailStore" where
  "mark_flushed table retain now later s =
     (case map_of (tables s) table of None \<Rightarrow> s
      | Some t \<Rightarrow>
          let bs = map (\<lambda>b. b\<lparr>flushed_at := (case flushed_at b of Some at \<Rightarrow> Some at | None \<Rightarrow> Some now)\<rparr>) (batches t);
              kept = map fst (filter (\<lambda>(b, i). case flushed_at b of None \<Rightarrow> True | Some at \<Rightarrow> later i - at < retain)
                       (zip bs [0..<length bs]))
          in s\<lparr>tables := AList.update table (t\<lparr>batches := kept\<rparr>) (tables s)\<rparr>)"

text \<open>The index of the first flushed batch, and the eviction loop.\<close>

fun flushed_pos :: "'b TailBatch list \<Rightarrow> nat option" where
  "flushed_pos [] = None"
| "flushed_pos (b # bs) = (if flushed_at b \<noteq> None then Some 0 else map_option Suc (flushed_pos bs))"

definition remove_at :: "nat \<Rightarrow> 'a list \<Rightarrow> 'a list" where
  "remove_at i xs = take i xs @ drop (Suc i) xs"

definition total_rows :: "('b \<Rightarrow> nat) \<Rightarrow> 'b TailBatch list \<Rightarrow> nat" where
  "total_rows num_rows bs = sum_list (map (\<lambda>b. num_rows (batch b)) bs)"

lemma flushed_pos_Some: "flushed_pos bs = Some i \<Longrightarrow> i < length bs \<and> flushed_at (bs ! i) \<noteq> None \<and> (\<forall>j < i. flushed_at (bs ! j) = None)"
  by (induction bs arbitrary: i) (auto simp: less_Suc_eq_0_disj split: if_splits)

lemma flushed_pos_None: "flushed_pos bs = None \<longleftrightarrow> (\<forall>b \<in> set bs. flushed_at b = None)"
  by (induction bs) auto

function evict :: "('b \<Rightarrow> nat) \<Rightarrow> nat \<Rightarrow> nat \<Rightarrow> 'b TailBatch list \<Rightarrow> 'b TailBatch list" where
  "evict num_rows cap tot bs =
     (if tot > cap then
        (case flushed_pos bs of None \<Rightarrow> bs
         | Some pos \<Rightarrow> evict num_rows cap (tot - num_rows (batch (bs ! pos))) (remove_at pos bs))
      else bs)"
  by pat_completeness auto
termination
  by (relation "measure (\<lambda>(num_rows, cap, tot, bs). length bs)")
    (auto simp: remove_at_def dest!: flushed_pos_Some)

declare evict.simps [simp del]

definition enforce_cap :: "('b \<Rightarrow> nat) \<Rightarrow> string \<Rightarrow> nat \<Rightarrow> 'b TailStore \<Rightarrow> 'b TailStore" where
  "enforce_cap num_rows table cap s =
     (case map_of (tables s) table of None \<Rightarrow> s
      | Some t \<Rightarrow> s\<lparr>tables := AList.update table
                     (t\<lparr>batches := evict num_rows cap (total_rows num_rows (batches t)) (batches t)\<rparr>) (tables s)\<rparr>)"

definition tail_clear :: "string \<Rightarrow> 'b TailStore \<Rightarrow> 'b TailStore" where
  "tail_clear table s = s\<lparr>tables := AList.delete table (tables s)\<rparr>"

section \<open>Request parsing\<close>

text \<open>The pieces of the standard library's string API the handler uses.\<close>

fun contains_sub :: "'a list \<Rightarrow> 'a list \<Rightarrow> bool" where
  "contains_sub w [] = (w = [])"
| "contains_sub w (x # xs) = (take (length w) (x # xs) = w \<or> contains_sub w xs)"

text \<open>The first line (\<^verbatim>\<open>lines().next()\<close>), a trailing carriage return removed.\<close>

definition first_line :: "string \<Rightarrow> string" where
  "first_line s =
     (let l = takeWhile (\<lambda>c. c \<noteq> CHR 0x0A) s
      in if length l < length s \<and> l \<noteq> [] \<and> last l = CHR 0x0D then butlast l else l)"

text \<open>\<^verbatim>\<open>split_whitespace\<close>: the non-empty runs between white space, cut at \<open>acc\<close>.\<close>

function split_whitespace :: "string \<Rightarrow> string \<Rightarrow> string list" where
  "split_whitespace acc s =
     (case strip_one white_space s of
        Some t \<Rightarrow> (if acc = [] then [] else [rev acc]) @ split_whitespace [] t
      | None \<Rightarrow> (case s of [] \<Rightarrow> (if acc = [] then [] else [rev acc]) | c # cs \<Rightarrow> split_whitespace (c # acc) cs))"
  by pat_completeness auto
termination
  by (relation "measure (\<lambda>(acc, s). length s)") (auto dest: strip_one_length)

declare split_whitespace.simps [simp del]

fun split_once :: "char \<Rightarrow> string \<Rightarrow> (string \<times> string) option" where
  "split_once d [] = None"
| "split_once d (c # cs) =
     (if c = d then Some ([], cs) else map_option (\<lambda>(a, b). (c # a, b)) (split_once d cs))"

fun split_on :: "char \<Rightarrow> string \<Rightarrow> string list" where
  "split_on d [] = [[]]"
| "split_on d (c # cs) =
     (if c = d then [] # split_on d cs
      else case split_on d cs of [] \<Rightarrow> [[c]] | x # xs \<Rightarrow> (c # x) # xs)"

definition strip_prefix :: "string \<Rightarrow> string \<Rightarrow> string option" where
  "strip_prefix p s = (if take (length p) s = p then Some (drop (length p) s) else None)"

definition strip_suffix :: "string \<Rightarrow> string \<Rightarrow> string option" where
  "strip_suffix p s = map_option rev (strip_prefix (rev p) (rev s))"

text \<open>\<^verbatim>\<open>parse::<u64>()\<close>: an optional plus sign and at least one digit, in range.\<close>

definition parse_u64 :: "string \<Rightarrow> nat option" where
  "parse_u64 s =
     (let ds = (case s of c # cs \<Rightarrow> if c = CHR ''+'' then cs else s | [] \<Rightarrow> s);
          v = foldl (\<lambda>v c. v * 10 + char_digit c) 0 ds
      in if ds \<noteq> [] \<and> list_all is_ascii_digit ds \<and> v < 2 ^ 64 then Some v else None)"

function show_nat :: "nat \<Rightarrow> string" where
  "show_nat n = (if n < 10 then [digit_char n] else show_nat (n div 10) @ [digit_char (n mod 10)])"
  by pat_completeness auto
termination by (relation "measure id") auto

declare show_nat.simps [simp del]

text \<open>
  The read loop, over the chunks the socket delivers: an empty chunk, or no more of them, is end of
  file.
\<close>

fun read_request :: "bytes list \<Rightarrow> bytes \<Rightarrow> bytes option result" where
  "read_request chunks buf =
     (if contains_sub [13, 10, 13, 10] buf then Ok (Some buf)
      else if length buf > 8192 then Err (Bail ''request too large'')
      else case chunks of
        [] \<Rightarrow> Ok None
      | c # cs \<Rightarrow> if c = [] then Ok None else read_request cs (buf @ c))"

declare read_request.simps [simp del]

section \<open>Handling a request\<close>

datatype Response = Respond nat string bytes lsn | RespondHead nat lsn

definition reason :: "nat \<Rightarrow> string" where
  "reason code =
     (if code = 200 then ''OK'' else if code = 204 then ''No Content'' else if code = 404 then ''Not Found''
      else if code = 405 then ''Method Not Allowed'' else if code = 408 then ''Request Timeout'' else ''Error'')"

definition crlf :: string where "crlf = [CHR 0x0D, CHR 0x0A]"

text \<open>The bytes \<^verbatim>\<open>respond\<close> and \<^verbatim>\<open>respond_head\<close> write to the socket.\<close>

fun response_bytes :: "Response \<Rightarrow> bytes" where
  "response_bytes (Respond code ctype body applied) =
     as_bytes (''HTTP/1.1 '' @ show_nat code @ '' '' @ reason code @ crlf @ ''Content-Type: '' @ ctype @ crlf @
       ''Content-Length: '' @ show_nat (length body) @ crlf @ ''X-Ltap-Applied-Lsn: '' @ show_nat applied @ crlf @
       ''Connection: close'' @ crlf @ crlf) @ body"
| "response_bytes (RespondHead len applied) =
     as_bytes (''HTTP/1.1 200 OK'' @ crlf @ ''Content-Type: application/octet-stream'' @ crlf @
       ''Content-Length: '' @ show_nat len @ crlf @ ''X-Ltap-Applied-Lsn: '' @ show_nat applied @ crlf @
       ''Accept-Ranges: none'' @ crlf @ ''Connection: close'' @ crlf @ crlf)"

definition dquote :: string where "dquote = [CHR 0x22]"

definition status_entry :: "('b \<Rightarrow> nat) \<Rightarrow> string \<times> 'b TableTail \<Rightarrow> string" where
  "status_entry num_rows nt =
     (case nt of (name, t) \<Rightarrow>
        dquote @ name @ dquote @ '':{'' @ dquote @ ''tail_rows'' @ dquote @ '':'' @
        show_nat (total_rows num_rows (batches t)) @ '','' @ dquote @ ''unflushed_rows'' @ dquote @ '':'' @
        show_nat (total_rows num_rows (filter (\<lambda>b. flushed_at b = None) (batches t))) @ ''}'')"

fun join_comma :: "string list \<Rightarrow> string" where
  "join_comma [] = []"
| "join_comma [s] = s"
| "join_comma (s # t # ss) = s @ '','' @ join_comma (t # ss)"

definition status_body :: "('b \<Rightarrow> nat) \<Rightarrow> 'b TailStore \<Rightarrow> string" where
  "status_body num_rows s =
     ''{'' @ dquote @ ''applied_lsn'' @ dquote @ '':'' @ show_nat (applied_lsn s) @ '','' @ dquote @ ''tables'' @ dquote @
     '':{'' @ join_comma (sort (map (status_entry num_rows) (tables s))) @ ''}}'' @ [CHR 0x0A]"

text \<open>
  The long poll: successive observations of the store's applied LSN and of the clock. The result is
  whether the LSN was reached, or \<open>None\<close> if the observations end first.
\<close>

fun poll :: "nat \<Rightarrow> nat \<Rightarrow> ('b TailStore \<times> nat) list \<Rightarrow> (bool \<times> ('b TailStore \<times> nat) list) option" where
  "poll min_lsn deadline [] = None"
| "poll min_lsn deadline ((s, now) # obs) =
     (if applied_lsn s \<ge> min_lsn then Some (True, obs)
      else if now \<ge> deadline then Some (False, obs)
      else poll min_lsn deadline obs)"

text \<open>The batches that match the newest schema.\<close>

definition tail_batches :: "('b \<Rightarrow> 'c) \<Rightarrow> 'b TailStore \<Rightarrow> string \<Rightarrow> 'b list" where
  "tail_batches schema s table =
     (case map_of (tables s) table of
        None \<Rightarrow> []
      | Some t \<Rightarrow>
          if batches t = [] then []
          else let latest = schema (batch (last (batches t)))
               in map batch (filter (\<lambda>b. schema (batch b) = latest) (batches t)))"

definition serve_tail ::
  "('b \<Rightarrow> 'c) \<Rightarrow> ('b list \<Rightarrow> bytes result) \<Rightarrow> string \<Rightarrow> string \<Rightarrow> 'b TailStore \<Rightarrow> Response result" where
  "serve_tail schema write_parquet meth table s =
     (let bs = tail_batches schema s table in
      if bs = [] then Ok (Respond 204 ''application/octet-stream'' [] (applied_lsn s))
      else rbind (write_parquet bs) (\<lambda>out.
        if meth = ''HEAD'' then Ok (RespondHead (length out) (applied_lsn s))
        else Ok (Respond 200 ''application/octet-stream'' out (applied_lsn s))))"

text \<open>Method, path and query parameters of a request (a later parameter of the same name wins).\<close>

definition parse_request :: "bytes \<Rightarrow> string \<times> string \<times> (string \<times> string) list" where
  "parse_request buf =
     (let parts = split_whitespace [] (first_line (from_utf8_lossy buf));
          meth = (case parts of m # _ \<Rightarrow> m | [] \<Rightarrow> []);
          target = (case parts of _ # t # _ \<Rightarrow> t | _ \<Rightarrow> []);
          (path, query) = (case split_once CHR ''?'' target of Some pq \<Rightarrow> pq | None \<Rightarrow> (target, []))
      in (meth, path, rev (List.map_filter (split_once CHR ''='') (split_on CHR ''&'' query))))"

definition param_u64 :: "(string \<times> string) list \<Rightarrow> string \<Rightarrow> nat option" where
  "param_u64 params key = Option.bind (map_of params key) parse_u64"

definition tail_table :: "string \<Rightarrow> string option" where
  "tail_table path = Option.bind (strip_prefix ''/tail/'' path) (strip_suffix ''.parquet'')"

text \<open>
  \<^verbatim>\<open>handle\<close> after the read loop. \<open>start\<close> is the clock when the wait begins, \<open>obs\<close> what the wait
  sees, \<open>final\<close> the store when the answer is built; \<open>None\<close> means that the wait is still going on.
\<close>

definition handle ::
  "('b \<Rightarrow> nat) \<Rightarrow> ('b \<Rightarrow> 'c) \<Rightarrow> ('b list \<Rightarrow> bytes result) \<Rightarrow> bytes \<Rightarrow> nat \<Rightarrow> ('b TailStore \<times> nat) list \<Rightarrow>
   'b TailStore \<Rightarrow> Response option result" where
  "handle num_rows schema write_parquet buf start obs final =
     (case parse_request buf of (meth, path, params) \<Rightarrow>
        if meth \<noteq> ''GET'' \<and> meth \<noteq> ''HEAD'' then Ok (Some (Respond 405 ''text/plain'' (as_bytes ''method not allowed'') 0))
        else if path = ''/status''
        then Ok (Some (Respond 200 ''application/json'' (as_bytes (status_body num_rows final)) (applied_lsn final)))
        else case tail_table path of
          None \<Rightarrow> Ok (Some (Respond 404 ''text/plain'' (as_bytes ''not found'') 0))
        | Some table \<Rightarrow>
            (case (case param_u64 params ''min_lsn'' of
                     None \<Rightarrow> Some (True, obs)
                   | Some min_lsn \<Rightarrow>
                       poll min_lsn (start + (case param_u64 params ''timeout_ms'' of Some ms \<Rightarrow> ms | None \<Rightarrow> 10000)) obs) of
               None \<Rightarrow> Ok None
             | Some (reached, _) \<Rightarrow>
                 if \<not> reached
                 then Ok (Some (Respond 408 ''text/plain'' (as_bytes ''timed out waiting for min_lsn'') 0))
                 else rbind (serve_tail schema write_parquet meth table final) (\<lambda>r. Ok (Some r))))"

section \<open>Eviction\<close>

text \<open>The list without its first \<open>k\<close> flushed batches.\<close>

fun drop_flushed :: "nat \<Rightarrow> 'b TailBatch list \<Rightarrow> 'b TailBatch list" where
  "drop_flushed 0 bs = bs"
| "drop_flushed (Suc k) [] = []"
| "drop_flushed (Suc k) (b # bs) = (if flushed_at b \<noteq> None then drop_flushed k bs else b # drop_flushed (Suc k) bs)"

lemma drop_flushed_Suc:
  "flushed_pos bs = Some i \<Longrightarrow> drop_flushed k (remove_at i bs) = drop_flushed (Suc k) bs"
proof (induction bs arbitrary: i)
  case (Cons b bs)
  show ?case
  proof (cases "flushed_at b")
    case None
    with Cons.prems obtain j where j: "flushed_pos bs = Some j" "i = Suc j" by auto
    have r: "remove_at i (b # bs) = b # remove_at j bs" by (simp add: remove_at_def j(2))
    show ?thesis
      using Cons.IH [OF j(1)] None by (cases k) (simp_all add: r)
  next
    case (Some a)
    with Cons.prems show ?thesis by (simp add: remove_at_def)
  qed
qed simp

lemma total_rows_remove:
  "i < length bs \<Longrightarrow> total_rows f (remove_at i bs) = total_rows f bs - f (batch (bs ! i))"
proof -
  assume i: "i < length bs"
  have "bs = take i bs @ bs ! i # drop (Suc i) bs" using i by (rule id_take_nth_drop)
  then have "total_rows f bs = total_rows f (take i bs) + f (batch (bs ! i)) + total_rows f (drop (Suc i) bs)"
    by (metis (no_types, lifting) total_rows_def add.assoc list.simps(9) map_append sum_list.Cons sum_list_append)
  then show ?thesis by (simp add: remove_at_def total_rows_def)
qed

lemma evict_spec:
  "\<exists>k. evict f cap (total_rows f bs) bs = drop_flushed k bs \<and>
     (total_rows f (drop_flushed k bs) \<le> cap \<or> (\<forall>b \<in> set (drop_flushed k bs). flushed_at b = None))"
proof (induction "length bs" arbitrary: bs rule: less_induct)
  case less
  show ?case
  proof (cases "total_rows f bs > cap \<and> flushed_pos bs \<noteq> None")
    case True
    then obtain i where i: "flushed_pos bs = Some i" by blast
    have "i < length bs" using flushed_pos_Some [OF i] by simp
    then have "length (remove_at i bs) < length bs" by (simp add: remove_at_def)
    from less [OF this] obtain k where
      "evict f cap (total_rows f (remove_at i bs)) (remove_at i bs) = drop_flushed k (remove_at i bs)"
      "total_rows f (drop_flushed k (remove_at i bs)) \<le> cap \<or> (\<forall>b \<in> set (drop_flushed k (remove_at i bs)). flushed_at b = None)"
      by blast
    moreover have "evict f cap (total_rows f bs) bs = evict f cap (total_rows f (remove_at i bs)) (remove_at i bs)"
      using True i total_rows_remove [OF \<open>i < length bs\<close>, of f] by (subst evict.simps) simp
    ultimately show ?thesis unfolding drop_flushed_Suc [OF i] by metis
  next
    case False
    then have "evict f cap (total_rows f bs) bs = bs" by (subst evict.simps) auto
    with False show ?thesis by (intro exI [of _ 0]) (auto simp: flushed_pos_None)
  qed
qed

lemma drop_flushed_unflushed: "filter (\<lambda>b. flushed_at b = None) (drop_flushed k bs) = filter (\<lambda>b. flushed_at b = None) bs"
  by (induction k bs rule: drop_flushed.induct) auto

text \<open>
  C26 (safety): bounding the tail never loses the only copy of a row. Enforcing the row cap on a
  table removes its oldest flushed batches and nothing else: every batch not yet durable stays, in
  order; afterwards the table is within the cap or holds only unflushed batches; no other table
  changes.
\<close>
theorem enforce_cap_keeps_unflushed:
  assumes "map_of (tables s) table = Some t"
  shows "\<exists>t' k. map_of (tables (enforce_cap num_rows table cap s)) table = Some t' \<and>
      batches t' = drop_flushed k (batches t) \<and>
      filter (\<lambda>b. flushed_at b = None) (batches t') = filter (\<lambda>b. flushed_at b = None) (batches t) \<and>
      (total_rows num_rows (batches t') \<le> cap \<or> (\<forall>b \<in> set (batches t'). flushed_at b = None)) \<and>
      (\<forall>other. other \<noteq> table \<longrightarrow> map_of (tables (enforce_cap num_rows table cap s)) other = map_of (tables s) other)"
proof -
  obtain k where k: "evict num_rows cap (total_rows num_rows (batches t)) (batches t) = drop_flushed k (batches t)"
    "total_rows num_rows (drop_flushed k (batches t)) \<le> cap \<or> (\<forall>b \<in> set (drop_flushed k (batches t)). flushed_at b = None)"
    using evict_spec by blast
  show ?thesis
    using assms k drop_flushed_unflushed [of k "batches t"]
    by (intro exI [of _ "t\<lparr>batches := drop_flushed k (batches t)\<rparr>"] exI [of _ k]) (simp add: enforce_cap_def update_conv')
qed

theorem enforce_cap_keeps_unflushed_witness:
  "\<exists>t'. map_of (tables (enforce_cap id ''t'' 5
      \<lparr>applied_lsn = 9, tables = [(''t'', \<lparr>batches = [\<lparr>batch = 4, flushed_at = Some 1\<rparr>, \<lparr>batch = 3, flushed_at = None\<rparr>,
         \<lparr>batch = 2, flushed_at = Some 2\<rparr>]\<rparr>)]\<rparr>)) ''t'' = Some t' \<and>
     filter (\<lambda>b. flushed_at b = None) (batches t') = [\<lparr>batch = 3, flushed_at = None\<rparr>]"
  using enforce_cap_keeps_unflushed [of "\<lparr>applied_lsn = 9, tables = [(''t'', \<lparr>batches = [\<lparr>batch = 4 :: nat, flushed_at = Some 1\<rparr>,
       \<lparr>batch = 3, flushed_at = None\<rparr>, \<lparr>batch = 2, flushed_at = Some 2\<rparr>]\<rparr>)]\<rparr>" "''t''" _ id 5]
  by auto


section \<open>Waiting for an LSN\<close>

lemma poll_True: "poll n dl obs = Some (True, rest) \<Longrightarrow> \<exists>(s, now) \<in> set obs. n \<le> applied_lsn s"
  by (induction n dl obs rule: poll.induct) (auto split: if_splits)

lemma poll_answers:
  "\<exists>(s, now) \<in> set obs. n \<le> applied_lsn s \<or> dl \<le> now \<Longrightarrow> poll n dl obs \<noteq> None"
  by (induction n dl obs rule: poll.induct) auto

lemma poll_False: "poll n dl obs = Some (False, rest) \<Longrightarrow> \<exists>(s, now) \<in> set obs. dl \<le> now \<and> applied_lsn s < n"
  by (induction n dl obs rule: poll.induct) (auto split: if_splits)

fun response_code :: "Response \<Rightarrow> nat" where
  "response_code (Respond code _ _ _) = code"
| "response_code (RespondHead _ _) = 200"

fun response_lsn :: "Response \<Rightarrow> lsn" where
  "response_lsn (Respond _ _ _ l) = l"
| "response_lsn (RespondHead _ l) = l"

lemma serve_tail_lsn: "serve_tail schema wp meth table s = Ok r \<Longrightarrow> response_lsn r = applied_lsn s"
  by (auto simp: serve_tail_def Let_def result_simps split: if_splits)

text \<open>
  C27 (safety): read your writes. A tail request that names a minimum LSN is answered with data, or
  with the empty-tail answer, only once the stream has applied that LSN; if the applied LSN of the
  store does not go backwards, the LSN the response reports is at least the one asked for. A request
  that times out says so.
\<close>
theorem tail_read_your_writes:
  assumes "parse_request buf = (meth, path, params)" and "path \<noteq> ''/status''" and "meth = ''GET'' \<or> meth = ''HEAD''"
    and "param_u64 params ''min_lsn'' = Some n"
    and "\<forall>(s, now) \<in> set obs. applied_lsn s \<le> applied_lsn final"
    and "handle num_rows schema write_parquet buf start obs final = Ok (Some r)"
  shows "response_code r \<in> {404, 408} \<or> n \<le> response_lsn r"
proof (cases "tail_table path")
  case None
  then show ?thesis using assms by (auto simp: handle_def)
next
  case (Some table)
  let ?dl = "start + (case param_u64 params ''timeout_ms'' of Some ms \<Rightarrow> ms | None \<Rightarrow> 10000)"
  from assms Some obtain reached rest where p: "poll n ?dl obs = Some (reached, rest)"
    by (cases "poll n ?dl obs") (auto simp: handle_def)
  show ?thesis
  proof (cases reached)
    case True
    then have "n \<le> applied_lsn final" using poll_True [of n ?dl obs rest] p assms(5) by fastforce
    moreover have "serve_tail schema write_parquet meth table final = Ok r"
      using assms Some p True by (auto simp: handle_def result_simps)
    then have "response_lsn r = applied_lsn final" by (rule serve_tail_lsn)
    ultimately show ?thesis by simp
  next
    case False
    then show ?thesis using assms Some p by (auto simp: handle_def)
  qed
qed

text \<open>
  C28 (liveness): a tail request is answered. Whatever the request, once the observed clock has
  reached the deadline, or the store the requested LSN, the handler has an answer or the error of the
  Parquet writer; a wait never outlives its deadline.
\<close>
theorem tail_request_answered:
  assumes "\<exists>(s, now) \<in> set obs. start + (case param_u64 (snd (snd (parse_request buf))) ''timeout_ms'' of Some ms \<Rightarrow> ms | None \<Rightarrow> 10000) \<le> now"
  shows "handle num_rows schema write_parquet buf start obs final \<noteq> Ok None"
proof -
  obtain meth path params where q: "parse_request buf = (meth, path, params)" by (cases "parse_request buf") auto
  let ?dl = "start + (case param_u64 params ''timeout_ms'' of Some ms \<Rightarrow> ms | None \<Rightarrow> 10000)"
  have "poll n ?dl obs \<noteq> None" for n
    using assms q by (intro poll_answers) auto
  then have "(case param_u64 params ''min_lsn'' of None \<Rightarrow> Some (True, obs) | Some m \<Rightarrow> poll m ?dl obs) \<noteq> None"
    by (cases "param_u64 params ''min_lsn''") simp_all
  then obtain reached rest where
    "(case param_u64 params ''min_lsn'' of None \<Rightarrow> Some (True, obs) | Some m \<Rightarrow> poll m ?dl obs) = Some (reached, rest)"
    by (metis not_None_eq surj_pair)
  then show ?thesis
    by (simp add: handle_def q result_simps split: option.split)
qed

text \<open>Requests of printable ASCII text.\<close>

definition printable :: "string \<Rightarrow> bool" where
  "printable s \<longleftrightarrow> list_all (\<lambda>c. 33 \<le> (of_char c :: nat) \<and> (of_char c :: nat) \<le> 126) s"

lemma ascii_lossy: "list_all (\<lambda>c. (of_char c :: nat) < 128) s \<Longrightarrow> from_utf8_lossy (as_bytes s) = s"
proof (induction s)
  case (Cons c s)
  have "(word_of_nat (of_char c) :: u8) < 0x80"
    using Cons.prems by (simp add: word_less_nat_alt unat_of_nat)
  then have "utf8_step (as_bytes (c # s)) = (True, 1)"
    by (simp add: utf8_step_def as_bytes_def safe_get_def)
  then show ?case
    using Cons by (subst from_utf8_lossy.simps) (simp add: as_bytes_def as_string_def unat_of_nat)
qed (simp add: from_utf8_lossy.simps as_bytes_def)

lemma white_space_heads: "list_all (\<lambda>p. (of_char (hd p) :: nat) \<le> 32 \<or> 126 < (of_char (hd p) :: nat)) white_space"
  by code_simp

lemma strip_one_printable: "printable (c # s) \<Longrightarrow> strip_one white_space (c # s @ t) = None"
  using white_space_heads by (intro strip_one_none) (auto simp: printable_def list_all_iff)

lemma strip_one_space: "strip_one white_space (CHR '' '' # s) = Some s"
  by (simp add: strip_one_def white_space_def upt_rec char_of_def)

lemma split_whitespace_word:
  "printable w \<Longrightarrow> split_whitespace acc (w @ CHR '' '' # s) =
     (if acc = [] \<and> w = [] then [] else [rev acc @ w]) @ split_whitespace [] s"
proof (induction w arbitrary: acc)
  case Nil
  then show ?case by (subst split_whitespace.simps) (simp add: strip_one_space)
next
  case (Cons c w)
  then show ?case
    using strip_one_printable [OF Cons.prems, of "CHR '' '' # s"]
    by (subst split_whitespace.simps) (simp add: printable_def)
qed

text \<open>A request line \<open>meth target\<close> with a version, and the blank line that ends the request.\<close>

definition request :: "string \<Rightarrow> string \<Rightarrow> bytes" where
  "request meth target = as_bytes (meth @ '' '' @ target @ '' HTTP/1.1'' @ crlf @ crlf)"

lemma request_parts:
  assumes "printable meth" and "meth \<noteq> []" and "printable target" and "target \<noteq> []"
  shows "\<exists>rest. split_whitespace [] (first_line (from_utf8_lossy (request meth target))) = meth # target # rest"
proof -
  let ?s = "meth @ '' '' @ target @ '' HTTP/1.1'' @ crlf @ crlf"
  have "from_utf8_lossy (request meth target) = ?s"
    unfolding request_def using assms(1,3) by (intro ascii_lossy) (auto simp: printable_def list_all_iff crlf_def)
  moreover have "first_line ?s = meth @ '' '' @ target @ '' HTTP/1.1''"
  proof -
    have "CHR 0x0A \<notin> set (meth @ '' '' @ target @ '' HTTP/1.1'' @ [CHR 0x0D])"
      using assms(1,3) by (auto simp: printable_def list_all_iff)
    then have "takeWhile (\<lambda>c. c \<noteq> CHR 0x0A) ((meth @ '' '' @ target @ '' HTTP/1.1'' @ [CHR 0x0D]) @ CHR 0x0A # crlf) =
        meth @ '' '' @ target @ '' HTTP/1.1'' @ [CHR 0x0D]"
      by (subst takeWhile_append2) auto
    then show ?thesis by (simp add: first_line_def crlf_def Let_def butlast_append)
  qed
  ultimately show ?thesis
    using assms split_whitespace_word [of meth "[]"] split_whitespace_word [of target "[]"] by simp
qed

definition sample_request :: bytes where
  "sample_request = request ''GET'' ''/tail/t.parquet?min_lsn=70&timeout_ms=20''"

lemma sample_request_parsed:
  "parse_request sample_request = (''GET'', ''/tail/t.parquet'', [(''timeout_ms'', ''20''), (''min_lsn'', ''70'')])"
proof -
  obtain rest where "split_whitespace [] (first_line (from_utf8_lossy sample_request)) =
      ''GET'' # ''/tail/t.parquet?min_lsn=70&timeout_ms=20'' # rest"
    using request_parts [of "''GET''" "''/tail/t.parquet?min_lsn=70&timeout_ms=20''"]
    by (auto simp: sample_request_def printable_def)
  then show ?thesis by (simp add: parse_request_def List.map_filter_def)
qed

lemma sample_params:
  "param_u64 [(''timeout_ms'', ''20''), (''min_lsn'', ''70'')] ''min_lsn'' = Some 70"
  "param_u64 [(''timeout_ms'', ''20''), (''min_lsn'', ''70'')] ''timeout_ms'' = Some 20"
  by (simp_all add: param_u64_def parse_u64_def is_ascii_digit_def char_digit_def)

definition at_lsn :: "nat \<Rightarrow> nat TailStore" where
  "at_lsn l = \<lparr>applied_lsn = l, tables = []\<rparr>"

theorem tail_read_your_writes_witness:
  "\<exists>r. handle id id (\<lambda>_. Ok []) sample_request 100 [(at_lsn 60, 100), (at_lsn 75, 110)] (at_lsn 80) = Ok (Some r) \<and>
     (response_code r \<in> {404, 408} \<or> 70 \<le> response_lsn r)"
proof -
  have t: "tail_table ''/tail/t.parquet'' = Some ''t''"
    by (simp add: tail_table_def strip_prefix_def strip_suffix_def)
  obtain r where r: "handle id id (\<lambda>_. Ok []) sample_request 100 [(at_lsn 60, 100), (at_lsn 75, 110)] (at_lsn 80) = Ok (Some r)"
    by (simp add: handle_def sample_request_parsed sample_params t at_lsn_def serve_tail_def tail_batches_def)
  with tail_read_your_writes [OF sample_request_parsed _ _ sample_params(1) _ r] show ?thesis
    by (auto simp: at_lsn_def)
qed

theorem tail_request_answered_witness:
  "handle id id (\<lambda>_. Ok []) sample_request 100 [(at_lsn 60, 100), (at_lsn 61, 130)] (at_lsn 61) \<noteq> Ok None"
  by (rule tail_request_answered) (simp add: sample_request_parsed sample_params)

end
