(* ===== verification/Layerscan.thy ===== *)
theory Layerscan
  imports Catalog Tail
begin

text \<open>
  \<^verbatim>\<open>examples/layerscan.rs\<close>: the offline reader of pageserver layer files. A layer is a
  summary block, blobs, and a B-tree from keys to blob offsets; the relation pages found in an image
  layer are a page source for the catalog. A slice out of range or a 32-bit overflow panics, and so does
  a B-tree deeper than the stack: \<open>depth\<close> is the number of nested calls the stack can hold. What the
  program prints is a list of lines; the informational lines are left out. Zstd is a parameter.
\<close>

unbundle bit_operations_syntax

section \<open>Keys and the summary\<close>

definition IMAGE_FILE_MAGIC :: u16 where "IMAGE_FILE_MAGIC = 0x5A60"
definition DELTA_FILE_MAGIC :: u16 where "DELTA_FILE_MAGIC = 0x5A61"
definition KEY_SIZE :: nat where "KEY_SIZE = 18"

definition be_u16 :: "bytes \<Rightarrow> u16 result" where
  "be_u16 b = rbind (slice b 0 2) (\<lambda>s. Ok (from_be s))"

definition be_u32 :: "bytes \<Rightarrow> u32 result" where
  "be_u32 b = rbind (slice b 0 4) (\<lambda>s. Ok (from_be s))"

definition be_u64 :: "bytes \<Rightarrow> u64 result" where
  "be_u64 b = rbind (slice b 0 8) (\<lambda>s. Ok (from_be s))"

record Key =
  k_f1 :: u8
  k_spc :: u32
  k_db :: u32
  k_rel :: u32
  k_fork :: u8
  k_blk :: u32

text \<open>The fields of an 18-byte array; \<open>parse_key\<close> panics on a shorter slice.\<close>

definition key_at :: "bytes \<Rightarrow> Key" where
  "key_at b = \<lparr>k_f1 = b ! 0, k_spc = from_be (take 4 (drop 1 b)), k_db = from_be (take 4 (drop 5 b)),
     k_rel = from_be (take 4 (drop 9 b)), k_fork = b ! 13, k_blk = from_be (take 4 (drop 14 b))\<rparr>"

definition parse_key :: "bytes \<Rightarrow> Key result" where
  "parse_key b = (if length b < KEY_SIZE then Err (Panic ''slice index out of range'') else Ok (key_at b))"

record Summary =
  s_magic :: u16
  s_tenant :: bytes
  s_timeline :: bytes
  key_range :: "Key \<times> Key"
  lsn_range :: "u64 \<times> u64"
  index_start_blk :: u32
  index_root_blk :: u32

text \<open>The closure \<^verbatim>\<open>take\<close>: the next \<open>n\<close> bytes and the offset after them.\<close>

definition summary_take :: "bytes \<Rightarrow> nat \<Rightarrow> nat \<Rightarrow> (bytes \<times> nat) result" where
  "summary_take b off n = rbind (slice b off (off + n)) (\<lambda>s. Ok (s, off + n))"

definition parse_summary :: "bytes \<Rightarrow> Summary result" where
  "parse_summary file =
     (let b = take (min PAGE_SZ (length file)) file in
      rbind (be_u16 b) (\<lambda>magic.
      rbind (be_u16 (drop 2 b)) (\<lambda>version.
      if magic \<noteq> IMAGE_FILE_MAGIC \<and> magic \<noteq> DELTA_FILE_MAGIC then Err (Bail ''not a layer file'')
      else if version \<noteq> 3 then Err (Bail ''storage format version'')
      else
        rbind (summary_take b 4 16) (\<lambda>(tenant, off).
        rbind (summary_take b off 16) (\<lambda>(timeline, off).
        rbind (summary_take b off KEY_SIZE) (\<lambda>(k0, off).
        rbind (parse_key k0) (\<lambda>key0.
        rbind (summary_take b off KEY_SIZE) (\<lambda>(k1, off).
        rbind (parse_key k1) (\<lambda>key1.
        rbind (summary_take b off 8) (\<lambda>(l0, off).
        rbind (be_u64 l0) (\<lambda>lsn0.
        rbind (if magic = IMAGE_FILE_MAGIC then Ok (lsn0, off)
               else rbind (summary_take b off 8) (\<lambda>(l1, off). rbind (be_u64 l1) (\<lambda>lsn1. Ok (lsn1, off)))) (\<lambda>(lsn1, off).
        rbind (summary_take b off 4) (\<lambda>(i0, off).
        rbind (be_u32 i0) (\<lambda>start_blk.
        rbind (summary_take b off 4) (\<lambda>(i1, off).
        rbind (be_u32 i1) (\<lambda>root_blk.
          Ok \<lparr>s_magic = magic, s_tenant = tenant, s_timeline = timeline, key_range = (key0, key1),
              lsn_range = (lsn0, lsn1), index_start_blk = start_blk, index_root_blk = root_blk\<rparr>))))))))))))))))"

section \<open>The index\<close>

type_synonym entries = "(bytes \<times> u64) list"

definition add_u32 :: "u32 \<Rightarrow> u32 \<Rightarrow> u32 result" where
  "add_u32 x y = (if unat x + unat y < 2 ^ 32 then Ok (x + y) else Err (Panic ''attempt to add with overflow''))"

definition leaf_value :: "bytes \<Rightarrow> u64" where
  "leaf_value v = push_bit 32 (ucast (v ! 0)) OR push_bit 24 (ucast (v ! 1)) OR push_bit 16 (ucast (v ! 2)) OR
     push_bit 8 (ucast (v ! 3)) OR ucast (v ! 4)"

text \<open>A node block: number of entries, level, prefix, key suffixes and five-byte values.\<close>

definition node_parts :: "nat \<Rightarrow> bytes \<Rightarrow> (nat \<times> u8 \<times> nat \<times> bytes \<times> bytes \<times> bytes) result" where
  "node_parts L b =
     (let num = unat (from_be (take 2 b) :: u16); level = b ! 2; plen = unat (b ! 3); slen = unat (b ! 4) in
      if plen + slen \<noteq> L then Err (Bail ''btree node key width'')
      else
        rbind (slice b 5 (5 + plen)) (\<lambda>prefix.
        rbind (slice b (5 + plen) (5 + plen + num * slen)) (\<lambda>keys.
        rbind (slice b (5 + plen + num * slen) (5 + plen + num * slen + num * 5)) (\<lambda>vals.
          Ok (num, level, slen, prefix, keys, vals)))))"

fun walk_btree :: "nat \<Rightarrow> nat \<Rightarrow> bytes \<Rightarrow> u32 \<Rightarrow> u32 \<Rightarrow> entries \<Rightarrow> entries result" where
  "walk_btree 0 L file start node out = Err (Panic ''stack overflow'')"
| "walk_btree (Suc depth) L file start node out =
     rbind (add_u32 start node) (\<lambda>blk.
     let off = unat blk * PAGE_SZ in
     rbind (ok_or (get_range file off (off + PAGE_SZ)) (Bail ''btree node beyond file'')) (\<lambda>b.
     rbind (node_parts L b) (\<lambda>(num, level, slen, prefix, keys, vals).
       rfold (\<lambda>i out.
         let v = take 5 (drop (i * 5) vals) in
         if level > 0 then walk_btree depth L file start (from_be (take 4 (drop 1 v))) out
         else Ok (out @ [(prefix @ take slen (drop (i * slen) keys), leaf_value v)])) [0..<num] out)))"

section \<open>Blobs\<close>

definition read_blob :: "(bytes \<Rightarrow> bytes option) \<Rightarrow> bytes \<Rightarrow> u64 \<Rightarrow> bytes result" where
  "read_blob zstd file off64 =
     (let off = unat off64 in
      rbind (ok_or (get file off) (Bail ''blob offset beyond file'')) (\<lambda>b0.
      if b0 < 0x80 then slice file (off + 1) (off + 1 + unat b0)
      else
        rbind (be_u32 (drop off file)) (\<lambda>wd.
        let len = unat (wd AND 0x0FFFFFFF) in
        rbind (ok_or (get_range file (off + 4) (off + 4 + len)) (Bail ''blob beyond file'')) (\<lambda>data.
        let c = drop_bit 28 wd AND 7 in
        if c = 0 then Ok data
        else if c = 1 then ok_or (zstd data) (Bail ''zstd blob'')
        else Err (Bail ''unknown blob compression bits'')))))"

section \<open>An image layer as a page source\<close>

definition main_block :: "u32 \<Rightarrow> u32 \<Rightarrow> Key \<Rightarrow> bool" where
  "main_block db filenode k \<longleftrightarrow> k_f1 k = 0 \<and> k_db k = db \<and> k_rel k = filenode \<and> k_fork k = 0"

definition rel_entries :: "entries \<Rightarrow> u32 \<Rightarrow> u32 \<Rightarrow> entries" where
  "rel_entries es db filenode =
     filter (\<lambda>(kb, _). main_block db filenode (key_at kb) \<and> k_blk (key_at kb) \<noteq> - 1) es"

definition layer_rel_nblocks :: "entries \<Rightarrow> u32 \<Rightarrow> u32 \<Rightarrow> u32 result" where
  "layer_rel_nblocks es db filenode =
     (case map (\<lambda>(kb, _). k_blk (key_at kb) + 1) (rel_entries es db filenode) of
        [] \<Rightarrow> Ok 0 | b # bs \<Rightarrow> Ok (foldl max b bs))"

definition layer_get_page ::
  "(bytes \<Rightarrow> bytes option) \<Rightarrow> bytes \<Rightarrow> entries \<Rightarrow> u32 \<Rightarrow> u32 \<Rightarrow> u32 \<Rightarrow> bytes result" where
  "layer_get_page zstd file es db filenode blk =
     rbind (ok_or (find (\<lambda>(kb, _). main_block db filenode (key_at kb) \<and> k_blk (key_at kb) = blk) es)
             (Bail ''no page for the block in the layer'')) (\<lambda>(_, off). read_blob zstd file off)"

definition layer_rel_pages :: "(bytes \<Rightarrow> bytes option) \<Rightarrow> bytes \<Rightarrow> entries \<Rightarrow> u32 \<Rightarrow> page_source" where
  "layer_rel_pages zstd file es db filenode =
     rmap (\<lambda>(_, off). read_blob zstd file off) (rel_entries es db filenode)"

definition layer_relmap :: "(bytes \<Rightarrow> bytes option) \<Rightarrow> bytes \<Rightarrow> entries \<Rightarrow> u32 \<Rightarrow> bytes result" where
  "layer_relmap zstd file es db =
     rbind (ok_or (find (\<lambda>(kb, _). key_at kb = \<lparr>k_f1 = 0, k_spc = 1663, k_db = db, k_rel = 0, k_fork = 0, k_blk = 0\<rparr>) es)
             (Bail ''no relmapper key for this db in the layer'')) (\<lambda>(_, off). read_blob zstd file off)"

section \<open>Decoding what the layer holds\<close>

definition col_type :: "string \<Rightarrow> PgType result" where
  "col_type t =
     (if t = ''bool'' then Ok Bool
      else if t = ''int2'' then Ok Int2
      else if t = ''int4'' \<or> t = ''int'' then Ok Int4
      else if t = ''int8'' \<or> t = ''bigint'' then Ok Int8
      else if t = ''float4'' then Ok Float4
      else if t = ''float8'' then Ok Float8
      else if t = ''text'' \<or> t = ''varchar'' then Ok Text
      else if t = ''bytea'' then Ok Bytea
      else if t = ''uuid'' then Ok Uuid
      else if t = ''date'' then Ok Date
      else if t = ''timestamp'' then Ok Timestamp
      else if t = ''timestamptz'' then Ok TimestampTz
      else Err (Bail ''unknown column type''))"

definition desc_from_cols :: "string \<Rightarrow> u32 \<Rightarrow> TableDesc result" where
  "desc_from_cols spec relnode =
     rbind (rmap (\<lambda>(i, t). rbind (col_type (trim t)) (\<lambda>ty. Ok \<lparr>col_name = ''c'' @ show_nat i, col_ty = ty\<rparr>))
             (enumerate 0 (split_comma spec))) (\<lambda>cs.
       Ok \<lparr>td_name = ''layerscan'', td_oid = 0, db_oid = 0, rel_node = relnode, toast_rel_node = None,
           cols = cs, phys = map Live cs, has_fast_defaults = False, pk = []\<rparr>)"

text \<open>What is printed of a key@LSN entry of a delta layer.\<close>

datatype what = WImage u64 bool | WPostgres nat u8 u8 | WNeonSpecial u32 | WUnknown u32

datatype line = TupleLine u32 u16 Row | TupleError u32 u16 error | NotAPage u32 nat
  | DeltaLine Key u64 bool what

definition contains :: "string \<Rightarrow> string \<Rightarrow> bool" where
  "contains s p = list_ex (\<lambda>i. take (length p) (drop i s) = p) [0..<length s + 1]"

fun not_lp_normal :: "error \<Rightarrow> bool" where
  "not_lp_normal (Bail s) = contains s ''not LP_NORMAL''"
| "not_lp_normal _ = False"

definition tuple_line :: "decompressor \<Rightarrow> bytes \<Rightarrow> u32 \<Rightarrow> TableDesc \<Rightarrow> ToastCache \<Rightarrow> u16 \<Rightarrow> line list result" where
  "tuple_line lz4 page blk desc toast offnum =
     (case decode_tuple_from_page lz4 page offnum desc toast of
        Inr (row, _) \<Rightarrow> Ok [TupleLine blk offnum row]
      | Inl (Panic s) \<Rightarrow> Err (Panic s)
      | Inl e \<Rightarrow> Ok (if not_lp_normal e then [] else [TupleError blk offnum e]))"

definition decode_page :: "decompressor \<Rightarrow> bytes \<Rightarrow> Key \<Rightarrow> TableDesc \<Rightarrow> ToastCache \<Rightarrow> line list result" where
  "decode_page lz4 page key desc toast =
     rbind (index page 12) (\<lambda>b0. rbind (index page 13) (\<lambda>b1.
     let pd_lower = unat (from_le [b0, b1] :: u16) in
     rbind (rmap (\<lambda>n. tuple_line lz4 page (k_blk key) desc toast (word_of_nat n)) [1..<(pd_lower - 24) div 4 + 1]) (\<lambda>ls.
       Ok (concat ls))))"

definition layer_table ::
  "decompressor \<Rightarrow> (bytes \<Rightarrow> bytes option) \<Rightarrow> filesystem \<Rightarrow> bytes \<Rightarrow> entries \<Rightarrow> string \<Rightarrow> u32 option \<Rightarrow> string option \<Rightarrow>
   line list result" where
  "layer_table lz4 zstd fs file es table db_arg pgxact_arg =
     rbind (ok_or db_arg (Bail ''table= needs db='')) (\<lambda>db.
     rbind (ok_or pgxact_arg (Bail ''table= needs pgxact='')) (\<lambda>pgxact.
     rbind (layer_relmap zstd file es db) (\<lambda>blob.
     rbind (parse_relmap blob) (\<lambda>relmap.
     rbind (from_relmap relmap) (\<lambda>mapped.
     rbind (catalog_load db (layer_rel_pages zstd file es db) (file_clog_page fs pgxact) mapped) (\<lambda>cat.
     rbind (catalog_desc cat table) (\<lambda>desc.
     rbind (case toast_rel_node desc of None \<Rightarrow> Ok (toast_default, 0)
            | Some tnode \<Rightarrow> preload_toast lz4 (layer_rel_pages zstd file es db) tnode toast_default) (\<lambda>(toast, _).
     rbind (rmap (\<lambda>(kb, off). rbind (read_blob zstd file off) (\<lambda>page. decode_page lz4 page (key_at kb) desc toast))
              (rel_entries es db (rel_node desc))) (\<lambda>ls.
       Ok (concat ls))))))))))"

definition image_entry ::
  "decompressor \<Rightarrow> (bytes \<Rightarrow> bytes option) \<Rightarrow> bytes \<Rightarrow> u32 option \<Rightarrow> TableDesc option \<Rightarrow> bytes \<times> u64 \<Rightarrow> line list result" where
  "image_entry lz4 zstd file rel_arg desc e =
     (case e of (kb, off) \<Rightarrow>
      let key = key_at kb in
      if k_f1 key = 0 \<and> Some (k_rel key) = rel_arg \<and> k_blk key \<noteq> - 1 then
        (case desc of None \<Rightarrow> Ok []
         | Some d \<Rightarrow> rbind (read_blob zstd file off) (\<lambda>page.
             if length page = PAGE_SZ then decode_page lz4 page key d toast_default
             else Ok [NotAPage (k_blk key) (length page)]))
      else Ok [])"

definition delta_value ::
  "decompressor \<Rightarrow> bytes \<Rightarrow> Key \<Rightarrow> TableDesc option \<Rightarrow> (what \<times> line list) result" where
  "delta_value lz4 val key desc =
     rbind (be_u32 val) (\<lambda>tag.
     if tag = 0 then
       rbind (be_u64 (drop 4 val)) (\<lambda>n.
       rbind (slice val 12 (12 + unat n)) (\<lambda>img.
       (case desc of
          Some d \<Rightarrow> if length img = PAGE_SZ
            then rbind (decode_page lz4 img key d toast_default) (\<lambda>ls. Ok (WImage n True, ls))
            else Ok (WImage n False, [])
        | None \<Rightarrow> Ok (WImage n False, []))))
     else if tag = 1 then
       rbind (be_u32 (drop 4 val)) (\<lambda>t.
       if t = 0 then
         rbind (slice val 17 (length val)) (\<lambda>r.
           Ok (WPostgres (length r) (case get r 17 of None \<Rightarrow> 255 | Some b \<Rightarrow> b) (case get r 16 of None \<Rightarrow> 0 | Some b \<Rightarrow> b), []))
       else Ok (WNeonSpecial t, []))
     else Ok (WUnknown tag, []))"

definition delta_entry ::
  "decompressor \<Rightarrow> (bytes \<Rightarrow> bytes option) \<Rightarrow> bytes \<Rightarrow> u32 option \<Rightarrow> TableDesc option \<Rightarrow> bytes \<times> u64 \<Rightarrow> line list result" where
  "delta_entry lz4 zstd file rel_arg desc e =
     (case e of (kb, blobref) \<Rightarrow>
      let key = key_at kb; lsn = from_be (take 8 (drop KEY_SIZE kb)) in
      if \<not> (rel_arg = None \<or> k_f1 key = 0 \<and> Some (k_rel key) = rel_arg) then Ok []
      else
        rbind (read_blob zstd file (drop_bit 1 blobref)) (\<lambda>val.
        rbind (delta_value lz4 val key desc) (\<lambda>(w, ls).
          Ok (ls @ [DeltaLine key lsn (blobref AND 1 \<noteq> 0) w]))))"

definition layerscan ::
  "nat \<Rightarrow> decompressor \<Rightarrow> (bytes \<Rightarrow> bytes option) \<Rightarrow> filesystem \<Rightarrow> bytes \<Rightarrow> u32 option \<Rightarrow> string option \<Rightarrow> string option \<Rightarrow>
   u32 option \<Rightarrow> string option \<Rightarrow> line list result" where
  "layerscan depth lz4 zstd fs file rel_arg cols_spec table db pgxact =
     rbind (parse_summary file) (\<lambda>s.
     rbind (case (cols_spec, rel_arg) of
              (Some spec, Some rel) \<Rightarrow> rbind (desc_from_cols spec rel) (\<lambda>d. Ok (Some d))
            | (Some _, None) \<Rightarrow> Err (Bail ''cols= needs rel='')
            | _ \<Rightarrow> Ok None) (\<lambda>desc.
     if s_magic s = IMAGE_FILE_MAGIC then
       rbind (walk_btree depth KEY_SIZE file (index_start_blk s) (index_root_blk s) []) (\<lambda>es.
       (case table of
          Some t \<Rightarrow> layer_table lz4 zstd fs file es t db pgxact
        | None \<Rightarrow> rbind (rmap (image_entry lz4 zstd file rel_arg desc) es) (\<lambda>ls. Ok (concat ls))))
     else
       rbind (walk_btree depth (KEY_SIZE + 8) file (index_start_blk s) (index_root_blk s) []) (\<lambda>es.
       rbind (rmap (delta_entry lz4 zstd file rel_arg desc) es) (\<lambda>ls. Ok (concat ls)))))"

section \<open>Layers as the pageserver writes them\<close>

text \<open>The five-byte big-endian value of a leaf entry.\<close>

definition leaf_bytes :: "u64 \<Rightarrow> bytes" where
  "leaf_bytes v = drop 3 (to_be v)"

text \<open>A leaf value is below \<open>2 ^ 40\<close>; the key of an inner entry is a separator the walk does not look at.\<close>

datatype tree = Leaf bytes "(bytes \<times> u64) list" | Inner u8 bytes "(bytes \<times> u32 \<times> tree) list"

primrec leaves :: "tree \<Rightarrow> entries" where
  "leaves (Leaf p es) = map (\<lambda>(s, v). (p @ s, v)) es"
| "leaves (Inner lv p cs) = concat (map (\<lambda>(s, b, es). es) (map (map_prod id (map_prod id leaves)) cs))"

primrec height :: "tree \<Rightarrow> nat" where
  "height (Leaf p es) = 0"
| "height (Inner lv p cs) = Suc (foldr max (map (\<lambda>(s, b, h). h) (map (map_prod id (map_prod id height)) cs)) 0)"

definition node_bytes :: "nat \<Rightarrow> u8 \<Rightarrow> bytes \<Rightarrow> bytes list \<Rightarrow> bytes list \<Rightarrow> bytes" where
  "node_bytes L lv p ss vs =
     to_be (word_of_nat (length ss) :: u16) @ [lv, word_of_nat (length p), word_of_nat (L - length p)] @ p @ concat ss @ concat vs"

definition block_at :: "bytes \<Rightarrow> u32 \<Rightarrow> u32 \<Rightarrow> bytes option" where
  "block_at file start node =
     (if unat start + unat node < 2 ^ 32
      then get_range file ((unat start + unat node) * PAGE_SZ) ((unat start + unat node) * PAGE_SZ + PAGE_SZ) else None)"

definition node_at :: "nat \<Rightarrow> bytes \<Rightarrow> u32 \<Rightarrow> u32 \<Rightarrow> u8 \<Rightarrow> bytes \<Rightarrow> bytes list \<Rightarrow> bytes list \<Rightarrow> bool" where
  "node_at L file start node lv p ss vs \<longleftrightarrow>
     length p \<le> L \<and> L < 256 \<and> length ss < 2 ^ 16 \<and> length vs = length ss \<and>
     (\<forall>s \<in> set ss. length s = L - length p) \<and> (\<forall>v \<in> set vs. length v = 5) \<and>
     (\<exists>pad. block_at file start node = Some (node_bytes L lv p ss vs @ pad))"

primrec stored :: "nat \<Rightarrow> bytes \<Rightarrow> u32 \<Rightarrow> tree \<Rightarrow> u32 \<Rightarrow> bool" where
  "stored L file start (Leaf p es) node \<longleftrightarrow>
     node_at L file start node 0 p (map fst es) (map (\<lambda>e. leaf_bytes (snd e)) es) \<and> (\<forall>e \<in> set es. unat (snd e) < 2 ^ 40)"
| "stored L file start (Inner lv p cs) node \<longleftrightarrow>
     lv > 0 \<and> node_at L file start node lv p (map fst cs) (map (\<lambda>c. 0x80 # to_be (fst (snd c))) cs) \<and>
     (\<forall>c \<in> set (map (map_prod id (map_prod id (stored L file start))) cs). snd (snd c) (fst (snd c)))"

lemma leaves_Inner [simp]: "leaves (Inner lv p cs) = concat (map (\<lambda>c. leaves (snd (snd c))) cs)"
  by (simp add: comp_def split_def)

lemma height_Inner [simp]: "height (Inner lv p cs) = Suc (foldr max (map (\<lambda>c. height (snd (snd c))) cs) 0)"
  by (simp add: comp_def split_def)

lemma stored_Inner [simp]:
  "stored L file start (Inner lv p cs) node \<longleftrightarrow>
     lv > 0 \<and> node_at L file start node lv p (map fst cs) (map (\<lambda>c. 0x80 # to_be (fst (snd c))) cs) \<and>
     (\<forall>c \<in> set cs. stored L file start (snd (snd c)) (fst (snd c)))"
  by auto

declare leaves.simps(2) [simp del] height.simps(2) [simp del] stored.simps(2) [simp del]

lemma height_child: "c \<in> set cs \<Longrightarrow> height (snd (snd c)) < height (Inner lv p cs)"
proof -
  have "x \<in> set xs \<Longrightarrow> x \<le> foldr max xs 0" for x :: nat and xs by (induction xs) auto
  then show "c \<in> set cs \<Longrightarrow> height (snd (snd c)) < height (Inner lv p cs)" by (simp add: less_Suc_eq_le)
qed

lemma length_leaf_bytes [simp]: "length (leaf_bytes v) = 5"
  by (simp add: leaf_bytes_def)

lemma leaf_value_bytes:
  assumes "unat v < 2 ^ 40"
  shows "leaf_value (leaf_bytes v) = v"
proof (rule bit_word_eqI)
  fix n assume n: "n < LENGTH(64)"
  have hi: "bit v n \<Longrightarrow> n < 40"
  proof (rule ccontr)
    assume "bit v n" "\<not> n < 40"
    then have "odd (unat v div 2 ^ n)" by (simp add: bit_unsigned_iff flip: bit_iff_odd) 
    moreover have "unat v < 2 ^ n" using assms \<open>\<not> n < 40\<close> by (meson le_less_trans less_le_trans not_less one_le_numeral power_increasing)
    ultimately show False by simp
  qed
  have lb: "leaf_bytes v = map (\<lambda>k. word_of_nat (unat v div 256 ^ k)) [4, 3, 2, 1, 0]"
    by (simp add: leaf_bytes_def to_be_def to_le_def le_bytes_map upt_rec)
  have b: "(word_of_nat (unat v div 256 ^ k) :: u8) = ucast (drop_bit (8 * k) v)" for k
  proof -
    have "unat v div 256 ^ k = unat (drop_bit (8 * k) v)" by (simp add: unat_drop_bit_eq drop_bit_eq_div [of "8 * k" "unat v"] power_mult)
    then show ?thesis by (simp only: of_nat_unat)
  qed
  have lv: "bit (leaf_value (leaf_bytes v)) n \<longleftrightarrow>
      (32 \<le> n \<and> n - 32 < 8 \<or> 24 \<le> n \<and> n - 24 < 8 \<or> 16 \<le> n \<and> n - 16 < 8 \<or> 8 \<le> n \<and> n - 8 < 8 \<or> n < 8) \<and> bit v n"
    using n by (auto simp: leaf_value_def lb b bit_or_iff bit_push_bit_iff bit_ucast_iff bit_drop_bit_eq)
  show "bit (leaf_value (leaf_bytes v)) n = bit v n"
  proof (cases "bit v n")
    case True
    then have "n < 40" by (rule hi)
    then show ?thesis unfolding lv using True by (simp; linarith)
  qed (simp add: lv)
qed

lemma node_parts_Ok:
  assumes "unat (from_be (take 2 b) :: u16) = n" "b ! 2 = lv" "unat (b ! 3) = length p" "unat (b ! 4) = w"
    and "length ks = n * w" "length vs = n * 5" "drop 5 b = p @ ks @ vs @ pad" "5 \<le> length b"
  shows "node_parts (length p + w) b = Ok (n, lv, w, p, ks, vs)"
proof -
  have "length b = 5 + length (drop 5 b)" using assms(8) by simp
  then have l: "length b = 5 + length p + n * w + n * 5 + length pad" using assms by simp
  have "drop (5 + length p) b = drop (length p) (drop 5 b)" "drop (5 + length p + n * w) b = drop (length p + n * w) (drop 5 b)"
    by (simp_all add: add.commute add.left_commute)
  then have "slice b 5 (5 + length p) = Ok p" "slice b (5 + length p) (5 + length p + n * w) = Ok ks"
    "slice b (5 + length p + n * w) (5 + length p + n * w + n * 5) = Ok vs"
    using assms(5-7) l by (simp_all add: slice_Ok)
  then show ?thesis using assms(1-4) by (simp add: node_parts_def)
qed

lemma node_parts_bytes:
  assumes "node_at L file start node lv p ss vs"
  shows "\<exists>b. block_at file start node = Some b \<and>
    node_parts L b = Ok (length ss, lv, L - length p, p, concat ss, concat vs)"
proof -
  obtain pad where b: "block_at file start node = Some (node_bytes L lv p ss vs @ pad)" (is "_ = Some ?b")
    using assms by (auto simp: node_at_def)
  have l: "length p \<le> L" "L < 256" "length ss < 2 ^ 16" "length vs = length ss"
    and len: "length (concat ss) = length ss * (L - length p)" "length (concat vs) = length ss * 5"
    using assms length_chunks [of ss] length_chunks [of vs] by (auto simp: node_at_def)
  have "node_parts (length p + (L - length p)) ?b = Ok (length ss, lv, L - length p, p, concat ss, concat vs)"
    by (rule node_parts_Ok [where pad = pad])
      (use l len in \<open>simp_all add: node_bytes_def nth_append unat_of_nat del: of_nat_diff length_concat\<close>)
  then show ?thesis using b l by simp
qed

lemma walk_node:
  assumes "node_at L file start node lv p ss vs"
  shows "walk_btree (Suc depth) L file start node out =
    rfold (\<lambda>i out. if lv > 0 then walk_btree depth L file start (from_be (take 4 (drop 1 (vs ! i)))) out
                   else Ok (out @ [(p @ ss ! i, leaf_value (vs ! i))])) [0..<length ss] out"
proof -
  obtain b where b: "block_at file start node = Some b"
    "node_parts L b = Ok (length ss, lv, L - length p, p, concat ss, concat vs)" using node_parts_bytes [OF assms] by blast
  have "unat (start + node) = unat start + unat node" "unat start + unat node < 2 ^ 32"
    using b(1) by (auto simp: block_at_def unat_word_ariths split: if_splits)
  then have "add_u32 start node = Ok (start + node)"
    "get_range file (unat (start + node) * PAGE_SZ) (unat (start + node) * PAGE_SZ + PAGE_SZ) = Some b"
    using b(1) by (simp_all add: add_u32_def block_at_def)
  moreover have "take 5 (drop (i * 5) (concat vs)) = vs ! i" "take (L - length p) (drop (i * (L - length p)) (concat ss)) = ss ! i"
    if "i < length ss" for i
    using assms that by (auto simp: node_at_def intro!: take_chunk)
  ultimately show ?thesis using b(2) by (auto simp: Let_def intro!: rfold_cong)
qed

lemma snds_snd: "snd x \<in> Basic_BNFs.snds x"
  by (cases x) simp

lemma walk_stored:
  "stored L file start t node \<Longrightarrow> height t < depth \<Longrightarrow> walk_btree depth L file start node out = Ok (out @ leaves t)"
proof (induction t arbitrary: node depth out)
  case (Leaf p es)
  obtain d where d: "depth = Suc d" using Leaf.prems(2) by (cases depth) auto
  have n: "node_at L file start node 0 p (map fst es) (map (\<lambda>e. leaf_bytes (snd e)) es)" "\<forall>e \<in> set es. unat (snd e) < 2 ^ 40"
    using Leaf.prems(1) by simp_all
  have "concat (map (\<lambda>i. [(p @ fst (es ! i), snd (es ! i))]) [0..<length es]) = leaves (Leaf p es)"
    using map_nth_eq_map [of "\<lambda>e. (p @ fst e, snd e)" es] by (simp add: split_def)
  then show ?case
    unfolding d walk_node [OF n(1)]
    by (subst rfold_extends [where h = "\<lambda>i. [(p @ fst (es ! i), snd (es ! i))]"]) (use n(2) in \<open>auto simp: leaf_value_bytes\<close>)
next
  case (Inner lv p cs)
  obtain d where d: "depth = Suc d" using Inner.prems(2) by (cases depth) auto
  have n: "lv > 0" "node_at L file start node lv p (map fst cs) (map (\<lambda>c. 0x80 # to_be (fst (snd c))) cs)"
    "\<forall>c \<in> set cs. stored L file start (snd (snd c)) (fst (snd c))"
    using Inner.prems(1) by simp_all
  have "walk_btree d L file start (fst (snd (cs ! i))) out = Ok (out @ leaves (snd (snd (cs ! i))))" if "i < length cs" for i out
    using that n(3) height_child [of "cs ! i" cs lv p] Inner.prems(2)
    by (intro Inner.IH [of "cs ! i" "snd (cs ! i)"]) (auto simp: d snds_snd)
  moreover have "concat (map (\<lambda>i. leaves (snd (snd (cs ! i)))) [0..<length cs]) = leaves (Inner lv p cs)"
    using map_nth_eq_map [of "\<lambda>c. leaves (snd (snd c))" cs] by simp
  ultimately show ?case
    unfolding d walk_node [OF n(2)]
    by (subst rfold_extends [where h = "\<lambda>i. leaves (snd (snd (cs ! i)))"]) (use n(1) in auto)
qed

text \<open>A blob: one length byte, or four with the high bit and the compression in the upper bits.\<close>

definition blob_at :: "(bytes \<Rightarrow> bytes option) \<Rightarrow> bytes \<Rightarrow> nat \<Rightarrow> bytes \<Rightarrow> bool" where
  "blob_at zstd file off data \<longleftrightarrow>
     (\<exists>rest. drop off file = word_of_nat (length data) # data @ rest \<and> length data < 128) \<or>
     (\<exists>rest. drop off file = to_be (0x80000000 + word_of_nat (length data) :: u32) @ data @ rest \<and> length data < 2 ^ 28) \<or>
     (\<exists>rest c. drop off file = to_be (0x90000000 + word_of_nat (length c) :: u32) @ c @ rest \<and> length c < 2 ^ 28 \<and> zstd c = Some data)"

lemma blob_header:
  fixes w :: u32
  assumes u: "unat w = 2 ^ 31 + k * 2 ^ 28 + n" and "n < 2 ^ 28" "k < 8"
  shows "unat (w AND 0x0FFFFFFF) = n" and "unat (drop_bit 28 w AND 7) = k" and "\<not> to_be w ! 0 < 0x80"
proof -
  have "w AND 0x0FFFFFFF = take_bit 28 w" by (simp add: take_bit_eq_mask mask_eq_exp_minus_1)
  then have "unat (w AND 0x0FFFFFFF) = unat w mod 2 ^ 28" by (simp only: unsigned_take_bit_eq take_bit_nat_def)
  moreover have "unat w = n + 2 ^ 28 * (8 + k)" using u by simp
  ultimately show "unat (w AND 0x0FFFFFFF) = n" using assms(2) by (simp only: mod_mult_self2 mod_less)
  have "drop_bit 28 w AND 7 = take_bit 3 (drop_bit 28 w)" by (simp add: take_bit_eq_mask mask_eq_exp_minus_1)
  then have "unat (drop_bit 28 w AND 7) = unat w div 2 ^ 28 mod 2 ^ 3"
    by (simp only: unsigned_take_bit_eq unat_drop_bit_eq take_bit_nat_def drop_bit_nat_def)
  moreover have "unat w div 2 ^ 28 = 8 + k" using assms by (intro div_nat_eqI) simp_all
  ultimately show "unat (drop_bit 28 w AND 7) = k" using assms(3) by simp
  have "to_be w ! 0 = word_of_nat (unat w div 256 ^ 3)" by (simp add: to_be_def to_le_def le_bytes_map upt_rec)
  moreover have "unat w div 256 ^ 3 \<ge> 128" "unat w div 256 ^ 3 < 256" using assms by simp_all
  ultimately show "\<not> to_be w ! 0 < 0x80" by (simp add: word_less_nat_alt unat_of_nat)
qed

lemma read_long:
  assumes d: "drop (unat off) file = to_be (w :: u32) @ c @ rest" and u: "unat w = 2 ^ 31 + k * 2 ^ 28 + length c"
    and l: "length c < 2 ^ 28" "k < 8"
  shows "read_blob zstd file off =
    (if k = 0 then Ok c else if k = 1 then ok_or (zstd c) (Bail ''zstd blob'') else Err (Bail ''unknown blob compression bits''))"
proof -
  have ne: "to_be w \<noteq> []" by (metis length_to_be_u32 list.size(3) zero_neq_numeral)
  have "get file (unat off) = Some (to_be w ! 0)" by (rule get_drop [OF d ne])
  moreover have "be_u32 (drop (unat off) file) = Ok w" by (simp add: be_u32_def d slice_Ok)
  moreover have "get_range file (unat off + 4) (unat off + 4 + length c) = Some c"
    using slice_drop [OF d disjI2 [OF ne]] by (simp only: length_to_be_u32)
  moreover have "drop_bit 28 w AND 7 = 0 \<longleftrightarrow> k = 0" "drop_bit 28 w AND 7 = 1 \<longleftrightarrow> k = 1"
    using blob_header(2) [OF u l] by (auto simp: word_unat_eq_iff)
  ultimately show ?thesis using blob_header(1,3) [OF u l] by (simp add: read_blob_def Let_def)
qed

lemma blob_size: "n < 2 ^ 28 \<Longrightarrow> unat (0x80000000 + word_of_nat n :: u32) = 2 ^ 31 + n"
    "n < 2 ^ 28 \<Longrightarrow> unat (0x90000000 + word_of_nat n :: u32) = 2 ^ 31 + 2 ^ 28 + n"
  using unat_of_nat [of "2 ^ 31 + n", where ?'a = 32] unat_of_nat [of "2 ^ 31 + 2 ^ 28 + n", where ?'a = 32] by simp_all

lemma read_blob_at: "blob_at zstd file (unat off) data \<Longrightarrow> read_blob zstd file off = Ok data"
  unfolding blob_at_def
proof (elim disjE exE conjE)
  fix rest assume d: "drop (unat off) file = word_of_nat (length data) # data @ rest" and l: "length data < 128"
  then have "get file (unat off) = Some (word_of_nat (length data))"
    using get_drop [of "unat off" "file" "[word_of_nat (length data)]" "data @ rest"] by simp
  moreover have "unat (word_of_nat (length data) :: u8) = length data" using l by (simp add: unat_of_nat)
  moreover have "get_range file (unat off + 1) (unat off + 1 + length data) = Some data"
    using slice_drop [of "unat off" "file" "[word_of_nat (length data)]" data rest] d by simp
  ultimately show "read_blob zstd file off = Ok data" using l by (simp add: read_blob_def slice_def word_less_nat_alt)
next
  fix rest assume "drop (unat off) file = to_be (0x80000000 + word_of_nat (length data) :: u32) @ data @ rest" "length data < 2 ^ 28"
  then show "read_blob zstd file off = Ok data" using blob_size(1) read_long [of off "file" _ data rest 0 zstd] by simp
next
  fix rest c assume "drop (unat off) file = to_be (0x90000000 + word_of_nat (length c) :: u32) @ c @ rest" "length c < 2 ^ 28" "zstd c = Some data"
  then show "read_blob zstd file off = Ok data" using blob_size(2) read_long [of off "file" _ c rest 1 zstd] by simp
qed

text \<open>The summary block.\<close>

definition key_bytes :: "Key \<Rightarrow> bytes" where
  "key_bytes k = [k_f1 k] @ to_be (k_spc k) @ to_be (k_db k) @ to_be (k_rel k) @ [k_fork k] @ to_be (k_blk k)"

definition summary_bytes :: "Summary \<Rightarrow> bytes" where
  "summary_bytes s =
     to_be (s_magic s) @ to_be (3 :: u16) @ s_tenant s @ s_timeline s @ key_bytes (fst (key_range s)) @ key_bytes (snd (key_range s)) @
     to_be (fst (lsn_range s)) @ (if s_magic s = IMAGE_FILE_MAGIC then [] else to_be (snd (lsn_range s))) @
     to_be (index_start_blk s) @ to_be (index_root_blk s)"

definition summary_ok :: "Summary \<Rightarrow> bool" where
  "summary_ok s \<longleftrightarrow> s_magic s \<in> {IMAGE_FILE_MAGIC, DELTA_FILE_MAGIC} \<and> length (s_tenant s) = 16 \<and> length (s_timeline s) = 16 \<and>
     (s_magic s = IMAGE_FILE_MAGIC \<longrightarrow> fst (lsn_range s) = snd (lsn_range s))"

lemma length_key_bytes [simp]: "length (key_bytes k) = 18"
  by (simp add: key_bytes_def)

lemma key_roundtrip: "key_at (key_bytes k) = k"
  by (cases k) (simp add: key_at_def key_bytes_def nth_append)

lemma parse_key_bytes: "parse_key (key_bytes k) = Ok k"
  by (simp add: parse_key_def KEY_SIZE_def key_roundtrip)

lemma be_to_be: "be_u16 (to_be (a :: u16) @ r) = Ok a" "be_u64 (to_be (b :: u64)) = Ok b" "be_u32 (to_be (c :: u32)) = Ok c"
  by (simp_all add: be_u16_def be_u64_def be_u32_def slice_Ok)

text \<open>Parsing from position \<open>off\<close> with the unread bytes at hand.\<close>

lemma summary_take_drop: "drop off b = s @ r \<Longrightarrow> length s = n \<Longrightarrow> 0 < n \<Longrightarrow> summary_take b off n = Ok (s, off + n) \<and> drop (off + n) b = r"
proof -
  assume d: "drop off b = s @ r" and n: "length s = n" "0 < n"
  have "off + n \<le> length b" using arg_cong [OF d, of length] n by simp
  moreover have "drop (off + n) b = r" using drop_past [OF d] n by simp
  ultimately show ?thesis using d n by (simp add: summary_take_def slice_Ok)
qed

lemma summary_roundtrip:
  assumes ok: "summary_ok s" and f: "file = summary_bytes s @ rest"
  shows "parse_summary file = Ok s"
proof -
  let ?img = "s_magic s = IMAGE_FILE_MAGIC"
  define b where "b = take (min PAGE_SZ (length file)) file"
  have len: "length (summary_bytes s) \<le> 96" using ok by (simp add: summary_bytes_def summary_ok_def)
  have "b = take (min PAGE_SZ (length file)) (summary_bytes s) @ take (min PAGE_SZ (length file) - length (summary_bytes s)) rest"
    by (simp add: b_def f)
  moreover have "length (summary_bytes s) \<le> min PAGE_SZ (length file)" using len by (simp add: f PAGE_SZ_def)
  ultimately obtain r where b: "b = summary_bytes s @ r" by simp
  have v: "be_u16 b = Ok (s_magic s)" "be_u16 (drop 2 b) = Ok 3" by (simp_all add: b summary_bytes_def be_to_be)
  have "drop 4 b = s_tenant s @ s_timeline s @ key_bytes (fst (key_range s)) @ key_bytes (snd (key_range s)) @ to_be (fst (lsn_range s)) @
      (if ?img then [] else to_be (snd (lsn_range s))) @ to_be (index_start_blk s) @ to_be (index_root_blk s) @ r"
    by (simp add: b summary_bytes_def)
  note d0 = summary_take_drop [OF this, of 16]
  note d1 = summary_take_drop [OF d0 [THEN conjunct2], of 16]
  note d2 = summary_take_drop [OF d1 [THEN conjunct2], of 18]
  note d3 = summary_take_drop [OF d2 [THEN conjunct2], of 18]
  note d4 = summary_take_drop [OF d3 [THEN conjunct2], of 8]
  have l: "length (s_tenant s) = 16" "length (s_timeline s) = 16" "s_magic s = IMAGE_FILE_MAGIC \<or> s_magic s = DELTA_FILE_MAGIC"
    using ok by (auto simp: summary_ok_def)
  have m: "IMAGE_FILE_MAGIC \<noteq> DELTA_FILE_MAGIC" by (simp add: IMAGE_FILE_MAGIC_def DELTA_FILE_MAGIC_def)
  define e where "e = (if ?img then 80 else 88 :: nat)"
  have "drop 80 b = (if ?img then [] else to_be (snd (lsn_range s))) @ to_be (index_start_blk s) @ to_be (index_root_blk s) @ r"
    using d4 l by simp
  then have "drop e b = to_be (index_start_blk s) @ to_be (index_root_blk s) @ r"
    and d5: "\<not> ?img \<Longrightarrow> summary_take b 80 8 = Ok (to_be (snd (lsn_range s)), 88)"
    using summary_take_drop [of 80 b "to_be (snd (lsn_range s))" _ 8] by (auto simp: e_def)
  note d6 = summary_take_drop [OF this(1), of 4]
  note d7 = summary_take_drop [OF d6 [THEN conjunct2], of 4]
  show ?thesis
    using d0 d1 d2 d3 d4 d5 d6 d7 l m v ok
    by (cases "?img") (auto simp: parse_summary_def b_def [symmetric] KEY_SIZE_def parse_key_bytes be_to_be e_def summary_ok_def prod_eq_iff intro!: Summary.equality)
qed

lemma layer_pages_of_blobs:
  "\<forall>e \<in> set es. blob_at zstd file (unat (snd e)) (content (fst e)) \<Longrightarrow>
   layer_rel_pages zstd file es db filenode = Ok (map (\<lambda>e. content (fst e)) (rel_entries es db filenode))"
  unfolding layer_rel_pages_def by (rule rmap_all_Ok) (auto simp: rel_entries_def read_blob_at)

text \<open>
  C38 (roundtrip): when an image layer holds a summary, a B-tree of any shape and prefix compression at the root
  the summary names, and a blob (short, long or Zstd) for every leaf, then the summary is read back, walking
  the index with a stack deeper than the tree ends with exactly the leaves in order, and the page source
  returns exactly the pages written under the keys of the relation.
\<close>

theorem layer_file_roundtrip:
  assumes "summary_ok s" "file = summary_bytes s @ rest"
    and "stored KEY_SIZE file (index_start_blk s) t (index_root_blk s)" "height t < depth"
    and "\<forall>e \<in> set (leaves t). blob_at zstd file (unat (snd e)) (content (fst e))"
  shows "parse_summary file = Ok s \<and>
    walk_btree depth KEY_SIZE file (index_start_blk s) (index_root_blk s) [] = Ok (leaves t) \<and>
    layer_rel_pages zstd file (leaves t) db filenode = Ok (map (\<lambda>e. content (fst e)) (rel_entries (leaves t) db filenode))"
  using summary_roundtrip [OF assms(1,2)] walk_stored [OF assms(3,4), of "[]"] layer_pages_of_blobs [OF assms(5)] by simp

section \<open>One pass or block by block\<close>

text \<open>The blocks of a relation that a layer holds are all blocks from 0 on, in order.\<close>

definition complete :: "entries \<Rightarrow> u32 \<Rightarrow> u32 \<Rightarrow> bool" where
  "complete es db filenode \<longleftrightarrow>
     (\<exists>n. map (\<lambda>e. k_blk (key_at (fst e))) (rel_entries es db filenode) = u32_range 0 n)"

lemma Max_below: "n \<noteq> 0 \<Longrightarrow> Max ((\<lambda>x. x + 1) ` {x. x < n}) = n" for n :: u32
proof (rule Max_eqI)
  assume n: "n \<noteq> 0"
  then have "n - 1 < n" by (rule measure_unat [folded word_less_nat_alt])
  then show "n \<in> (\<lambda>x. x + 1) ` {x. x < n}" by (force intro!: image_eqI [of _ _ "n - 1"])
qed (auto simp: word_le_nat_alt word_less_nat_alt unat_word_ariths)

lemma layer_nblocks_complete:
  assumes "map (\<lambda>e. k_blk (key_at (fst e))) (rel_entries es db filenode) = u32_range 0 n"
  shows "layer_rel_nblocks es db filenode = Ok n"
proof -
  have m: "map (\<lambda>(kb, _). k_blk (key_at kb) + 1) (rel_entries es db filenode) = map (\<lambda>x. x + 1) (u32_range 0 n)"
    by (simp add: assms [symmetric] split_def)
  show ?thesis
  proof (cases "u32_range 0 n")
    case Nil
    then have "\<not> (0 \<le> (0 :: u32) \<and> 0 < n)" using set_u32_range [of 0 n] by force
    then show ?thesis using m Nil by (simp add: layer_rel_nblocks_def word_greater_zero_iff)
  next
    case (Cons b bs)
    have "set (u32_range 0 n) = {x. x < n}" by simp
    moreover from this have "n \<noteq> 0" using Cons by (auto simp: u32_range_def)
    ultimately have "Max (set (map (\<lambda>x. x + 1) (b # bs))) = n" using Max_below [of n] Cons by (metis list.set_map)
    then show ?thesis using m Cons by (simp add: layer_rel_nblocks_def foldl_max del: set_map)
  qed
qed

lemma layer_get_page_entry:
  assumes c: "distinct (map (\<lambda>e. k_blk (key_at (fst e))) (rel_entries es db filenode))" and e: "e \<in> set (rel_entries es db filenode)"
  shows "layer_get_page zstd file es db filenode (k_blk (key_at (fst e))) = read_blob zstd file (snd e)"
proof -
  let ?P = "\<lambda>(kb, _). main_block db filenode (key_at kb) \<and> k_blk (key_at kb) = k_blk (key_at (fst e))"
  have "find ?P es = Some e"
  proof (rule find_only)
    show "e \<in> set es" "?P e" using e by (auto simp: rel_entries_def)
    show "y = e" if "y \<in> set es" "?P y" for y
    proof -
      have "y \<in> set (rel_entries es db filenode)" using that e by (auto simp: rel_entries_def)
      then show ?thesis using c e that(2) by (auto simp: distinct_map inj_on_def)
    qed
  qed
  then show ?thesis by (simp add: layer_get_page_def split_def)
qed

text \<open>
  C39 (equivalence): for a relation whose blocks are all in the layer, reading its pages in one pass over the
  index gives what the trait's default gives from the block count and one lookup per block, the error of
  the first unreadable blob included.
\<close>

theorem layer_pages_agree:
  assumes "complete es db filenode"
  shows "layer_rel_pages zstd file es db filenode =
    rel_pages_default (layer_rel_nblocks es db) (layer_get_page zstd file es db) filenode"
proof -
  obtain n where n: "map (\<lambda>e. k_blk (key_at (fst e))) (rel_entries es db filenode) = u32_range 0 n"
    using assms by (auto simp: complete_def)
  have "rel_pages_default (layer_rel_nblocks es db) (layer_get_page zstd file es db) filenode =
      rmap (\<lambda>e. layer_get_page zstd file es db filenode (k_blk (key_at (fst e)))) (rel_entries es db filenode)"
    by (simp add: rel_pages_default_def layer_nblocks_complete [OF n] n [symmetric] rmap_map)
  also have "\<dots> = rmap (\<lambda>e. read_blob zstd file (snd e)) (rel_entries es db filenode)"
    by (rule rmap_cong) (rule layer_get_page_entry, simp_all add: n distinct_u32_range)
  finally show ?thesis by (simp add: layer_rel_pages_def split_def)
qed

text \<open>A small layer: the summary and two blobs in block 0, a root in block 1, a leaf with two keys in block 2.\<close>

definition sample_key :: "u8 \<Rightarrow> bytes" where
  "sample_key b = [0, 0, 0, 6, 127, 0, 0, 0, 5, 0, 0, 0, 7, 0, 0, 0, 0, b]"

definition sample_tree :: tree where
  "sample_tree = Inner 1 [] [(sample_key 0, 1, Leaf (take 17 (sample_key 0)) [([0], 88), ([1], 91)])]"

definition sample_summary :: Summary where
  "sample_summary = \<lparr>s_magic = IMAGE_FILE_MAGIC, s_tenant = replicate 16 1, s_timeline = replicate 16 2,
     key_range = (key_at (sample_key 0), key_at (sample_key 2)), lsn_range = (9, 9), index_start_blk = 1, index_root_blk = 0\<rparr>"

definition pad_block :: "bytes \<Rightarrow> bytes" where
  "pad_block b = b @ replicate (PAGE_SZ - length b) 0"

definition sample_layer :: bytes where
  "sample_layer = pad_block (summary_bytes sample_summary @ [2, 7, 8, 1, 9]) @ pad_block (node_bytes 18 1 [] [sample_key 0] [0x80 # to_be (1 :: u32)]) @
     pad_block (node_bytes 18 0 (take 17 (sample_key 0)) [[0], [1]] [leaf_bytes 88, leaf_bytes 91])"

definition sample_content :: "bytes \<Rightarrow> bytes" where
  "sample_content kb = (if k_blk (key_at kb) = 0 then [7, 8] else [9])"

lemma length_pad_block: "length b \<le> PAGE_SZ \<Longrightarrow> length (pad_block b) = PAGE_SZ"
  by (simp add: pad_block_def)

lemma length_node_bytes: "length (node_bytes L lv p ss vs) = 5 + length p + length (concat ss) + length (concat vs)"
  by (simp add: node_bytes_def)

lemma sample_summary_ok: "summary_ok sample_summary" "length (summary_bytes sample_summary) = 88"
  by (simp_all add: summary_ok_def sample_summary_def summary_bytes_def)

lemma sample_layer_starts:
  "\<exists>rest. sample_layer = summary_bytes sample_summary @ rest"
  "\<exists>rest. drop 88 sample_layer = 2 # [7, 8] @ rest" "\<exists>rest. drop 91 sample_layer = 1 # [9] @ rest"
  by (simp_all add: sample_layer_def pad_block_def sample_summary_ok)

lemma sample_blocks:
  "block_at sample_layer 1 0 = Some (pad_block (node_bytes 18 1 [] [sample_key 0] [0x80 # to_be (1 :: u32)]))"
  "block_at sample_layer 1 1 = Some (pad_block (node_bytes 18 0 (take 17 (sample_key 0)) [[0], [1]] [leaf_bytes 88, leaf_bytes 91]))"
proof -
  have three: "get_range (x @ y @ z) 8192 16384 = Some y" "get_range (x @ y @ z) 16384 24576 = Some z"
    if "length x = 8192" "length y = 8192" "length z = 8192" for x y z :: bytes
    using that by (simp_all add: get_range_def)
  have l: "length (pad_block (summary_bytes sample_summary @ [2, 7, 8, 1, 9])) = 8192"
    "length (pad_block (node_bytes 18 1 [] [sample_key 0] [0x80 # to_be (1 :: u32)])) = 8192"
    "length (pad_block (node_bytes 18 0 (take 17 (sample_key 0)) [[0], [1]] [leaf_bytes 88, leaf_bytes 91])) = 8192"
    by (simp_all add: length_pad_block length_node_bytes sample_summary_ok PAGE_SZ_def sample_key_def)
  show "block_at sample_layer 1 0 = Some (pad_block (node_bytes 18 1 [] [sample_key 0] [0x80 # to_be (1 :: u32)]))"
    using three(1) [OF l] by (simp add: block_at_def sample_layer_def PAGE_SZ_def)
  show "block_at sample_layer 1 1 = Some (pad_block (node_bytes 18 0 (take 17 (sample_key 0)) [[0], [1]] [leaf_bytes 88, leaf_bytes 91]))"
    using three(2) [OF l] by (simp add: block_at_def sample_layer_def PAGE_SZ_def)
qed

lemma sample_stored: "stored KEY_SIZE sample_layer 1 sample_tree 0" "height sample_tree = 1"
  "leaves sample_tree = [(sample_key 0, 88), (sample_key 1, 91)]"
proof -
  have "node_at 18 sample_layer 1 0 1 [] [sample_key 0] [0x80 # to_be (1 :: u32)]"
    unfolding node_at_def sample_blocks by (auto simp: pad_block_def sample_key_def)
  moreover have "node_at 18 sample_layer 1 1 0 (take 17 (sample_key 0)) [[0], [1]] [leaf_bytes 88, leaf_bytes 91]"
    unfolding node_at_def sample_blocks by (auto simp: pad_block_def sample_key_def)
  ultimately show "stored KEY_SIZE sample_layer 1 sample_tree 0" by (simp add: sample_tree_def KEY_SIZE_def)
  show "height sample_tree = 1" "leaves sample_tree = [(sample_key 0, 88), (sample_key 1, 91)]"
    by (simp_all add: sample_tree_def sample_key_def)
qed

lemma sample_keys: "key_at (sample_key b) = \<lparr>k_f1 = 0, k_spc = 1663, k_db = 5, k_rel = 7, k_fork = 0, k_blk = ucast b\<rparr>"
  by (simp add: key_at_def sample_key_def from_be_def from_le_def)

lemma sample_blobs:
  "\<forall>e \<in> set (leaves sample_tree). blob_at (\<lambda>_. None) sample_layer (unat (snd e)) (sample_content (fst e))"
proof -
  have "blob_at (\<lambda>_. None) sample_layer 88 [7, 8]" "blob_at (\<lambda>_. None) sample_layer 91 [9]"
    unfolding blob_at_def by (rule disjI1; use sample_layer_starts(2,3) in simp)+
  then show ?thesis by (simp add: sample_stored sample_content_def sample_keys)
qed

lemma sample_entries: "rel_entries (leaves sample_tree) 5 7 = [(sample_key 0, 88), (sample_key 1, 91)]"
  by (simp add: rel_entries_def sample_stored sample_keys main_block_def)

theorem layer_file_roundtrip_witness:
  "parse_summary sample_layer = Ok sample_summary \<and>
   walk_btree 2 KEY_SIZE sample_layer 1 0 [] = Ok [(sample_key 0, 88), (sample_key 1, 91)] \<and>
   layer_rel_pages (\<lambda>_. None) sample_layer [(sample_key 0, 88), (sample_key 1, 91)] 5 7 = Ok [[7, 8], [9]]"
proof -
  obtain rest where "sample_layer = summary_bytes sample_summary @ rest" using sample_layer_starts(1) by blast
  moreover have "stored KEY_SIZE sample_layer (index_start_blk sample_summary) sample_tree (index_root_blk sample_summary)"
    using sample_stored(1) by (simp add: sample_summary_def)
  ultimately show ?thesis
    using layer_file_roundtrip [OF sample_summary_ok(1) _ _ _ sample_blobs, of rest 2 5 7] sample_entries
    by (simp add: sample_stored sample_content_def sample_keys sample_summary_def)
qed

lemma sample_complete: "complete [(sample_key 0, 88), (sample_key 1, 91)] 5 7"
proof -
  have "u32_range 0 2 = [0, 1]" by (simp add: u32_range_def upt_rec)
  then show ?thesis using sample_entries
    unfolding complete_def by (intro exI [of _ 2]) (simp add: sample_stored sample_keys)
qed

theorem layer_pages_agree_witness:
  "complete [(sample_key 0, 88), (sample_key 1, 91)] 5 7 \<and>
   layer_rel_pages (\<lambda>_. None) sample_layer [(sample_key 0, 88), (sample_key 1, 91)] 5 7 =
     rel_pages_default (layer_rel_nblocks [(sample_key 0, 88), (sample_key 1, 91)] 5)
       (layer_get_page (\<lambda>_. None) sample_layer [(sample_key 0, 88), (sample_key 1, 91)] 5) 7"
  using layer_pages_agree [OF sample_complete] sample_complete by blast

end
