(* ===== verification/Rebuild.thy ===== *)
theory Rebuild
  imports Fragment Tail
begin

text \<open>
  \<^verbatim>\<open>examples/rebuild.rs\<close>: the cross-check of the page builder against a heap page. The page is
  decoded, rebuilt from the rows and decoded again, then rebuilt from the raw tuple bytes; rows and bytes must
  agree at every offset number. The page is an argument (the file read is I/O) and what is printed is left
  out. Rows are compared as Rust compares them: a float that is not a number differs from itself.
\<close>

section \<open>Descriptors and slots\<close>

definition syn_type :: "string \<Rightarrow> PgType result" where
  "syn_type t =
     (if t = ''bool'' then Ok Bool
      else if t = ''int2'' \<or> t = ''smallint'' then Ok Int2
      else if t = ''int4'' \<or> t = ''int'' \<or> t = ''integer'' then Ok Int4
      else if t = ''int8'' \<or> t = ''bigint'' then Ok Int8
      else if t = ''float4'' \<or> t = ''real'' then Ok Float4
      else if t = ''float8'' then Ok Float8
      else if t = ''text'' \<or> t = ''varchar'' then Ok Text
      else if t = ''numeric'' \<or> t = ''decimal'' then Ok Numeric
      else if t = ''bytea'' then Ok Bytea
      else if t = ''uuid'' then Ok Uuid
      else if t = ''date'' then Ok Date
      else if t = ''timestamp'' then Ok Timestamp
      else if t = ''timestamptz'' then Ok TimestampTz
      else Err (Bail ''unknown column type''))"

definition synthetic_desc :: "string \<Rightarrow> TableDesc result" where
  "synthetic_desc cols_arg =
     rbind (rmap (\<lambda>(i, t). rbind (syn_type (trim t)) (\<lambda>ty. Ok \<lparr>col_name = ''c'' @ show_nat i, col_ty = ty\<rparr>))
             (enumerate 0 (split_comma cols_arg))) (\<lambda>cs.
       if cs = [] then Err (Bail ''cols= must list at least one type'')
       else Ok \<lparr>td_name = ''rebuild'', td_oid = 0, db_oid = 0, rel_node = 0, toast_rel_node = None,
                cols = cs, phys = map Live cs, has_fast_defaults = False, pk = []\<rparr>)"

definition slot_at :: "decompressor \<Rightarrow> bytes \<Rightarrow> TableDesc \<Rightarrow> u16 \<Rightarrow> Slot result" where
  "slot_at lz4 page desc offnum =
     rbind (line_pointer page offnum) (\<lambda>lp.
     if lpr_flags lp = 1 then
       rbind (decode_tuple_from_page lz4 page offnum desc toast_default) (\<lambda>(row, _). Ok (slot_live row))
     else if lpr_flags lp = 2 then Ok (Redirect (lpr_off lp))
     else if lpr_flags lp = 3 then Ok Dead
     else Ok Unused)"

text \<open>\<^verbatim>\<open>decode_page\<close> of the harness.\<close>

definition page_slots :: "decompressor \<Rightarrow> bytes \<Rightarrow> TableDesc \<Rightarrow> Slot list result" where
  "page_slots lz4 page desc =
     rbind (index page 12) (\<lambda>b0. rbind (index page 13) (\<lambda>b1.
     let n = (unat (from_le [b0, b1] :: u16) - 24) div 4 in
     rmap (\<lambda>k. slot_at lz4 page desc (word_of_nat k)) [1..<n + 1]))"

definition rows_of :: "Slot list \<Rightarrow> TableDesc \<Rightarrow> Row option list" where
  "rows_of slots desc =
     map (\<lambda>s. case s of Tuple t \<Rightarrow> if length (cols desc) = length (phys desc) then Some (ts_row t) else None | _ \<Rightarrow> None) slots"

section \<open>Comparing rows\<close>

text \<open>Equality of IEEE floats on their bit patterns: exponent all ones and a fraction is not a number, and the zeros are equal.\<close>

definition f32_nan :: "u32 \<Rightarrow> bool" where
  "f32_nan w \<longleftrightarrow> w AND 0x7F800000 = 0x7F800000 \<and> w AND 0x007FFFFF \<noteq> 0"

definition f32_eq :: "u32 \<Rightarrow> u32 \<Rightarrow> bool" where
  "f32_eq a b \<longleftrightarrow> \<not> f32_nan a \<and> \<not> f32_nan b \<and> (a = b \<or> a AND 0x7FFFFFFF = 0 \<and> b AND 0x7FFFFFFF = 0)"

definition f64_nan :: "u64 \<Rightarrow> bool" where
  "f64_nan w \<longleftrightarrow> w AND 0x7FF0000000000000 = 0x7FF0000000000000 \<and> w AND 0x000FFFFFFFFFFFFF \<noteq> 0"

definition f64_eq :: "u64 \<Rightarrow> u64 \<Rightarrow> bool" where
  "f64_eq a b \<longleftrightarrow> \<not> f64_nan a \<and> \<not> f64_nan b \<and> (a = b \<or> a AND 0x7FFFFFFFFFFFFFFF = 0 \<and> b AND 0x7FFFFFFFFFFFFFFF = 0)"

fun value_eq :: "Value \<Rightarrow> Value \<Rightarrow> bool" where
  "value_eq (VF32 a) (VF32 b) = f32_eq a b"
| "value_eq (VF64 a) (VF64 b) = f64_eq a b"
| "value_eq a b = (a = b)"

definition row_eq :: "Row \<Rightarrow> Row \<Rightarrow> bool" where
  "row_eq = list_all2 (\<lambda>a b. case (a, b) of (Some x, Some y) \<Rightarrow> value_eq x y | (None, None) \<Rightarrow> True | _ \<Rightarrow> False)"

definition opt_row_eq :: "Row option \<Rightarrow> Row option \<Rightarrow> bool" where
  "opt_row_eq a b = (case (a, b) of (Some x, Some y) \<Rightarrow> row_eq x y | (None, None) \<Rightarrow> True | _ \<Rightarrow> False)"

section \<open>The cross-check\<close>

definition raw_slot_at :: "bytes \<Rightarrow> u16 \<Rightarrow> Slot result" where
  "raw_slot_at page offnum =
     rbind (line_pointer page offnum) (\<lambda>lp.
     if lpr_flags lp = 1 then rbind (raw_from_page page offnum) (\<lambda>rt. Ok (Raw rt))
     else if lpr_flags lp = 2 then Ok (Redirect (lpr_off lp))
     else if lpr_flags lp = 3 then Ok Dead
     else Ok Unused)"

definition raw_slots :: "bytes \<Rightarrow> nat \<Rightarrow> Slot list result" where
  "raw_slots page n = rmap (\<lambda>k. raw_slot_at page (word_of_nat k)) [1..<n + 1]"

definition bytes_differ :: "bytes \<Rightarrow> bytes \<Rightarrow> u16 \<Rightarrow> bool result" where
  "bytes_differ real raw_rebuilt offnum =
     rbind (line_pointer real offnum) (\<lambda>lp.
     if lpr_flags lp \<noteq> 1 then Ok False
     else rbind (raw_from_page real offnum) (\<lambda>a. rbind (raw_from_page raw_rebuilt offnum) (\<lambda>b. Ok (rt_attrs a \<noteq> rt_attrs b))))"

definition cross_check :: "decompressor \<Rightarrow> bytes \<Rightarrow> string \<Rightarrow> unit result" where
  "cross_check lz4 real cols_arg =
     rbind (synthetic_desc cols_arg) (\<lambda>desc.
     if length real \<noteq> PAGE_SIZE then Err (Bail ''expected an 8192-byte page'')
     else
       rbind (page_slots lz4 real desc) (\<lambda>slots.
       let want = rows_of slots desc in
       rbind (build_page desc 0 0 slots) (\<lambda>rebuilt.
       rbind (page_slots lz4 rebuilt desc) (\<lambda>slots'.
       let mismatches = length (filter (\<lambda>(w, g). \<not> opt_row_eq w g) (zip want (rows_of slots' desc))) in
       rbind (raw_slots real (length slots)) (\<lambda>rslots.
       rbind (build_page desc 0 0 rslots) (\<lambda>raw_rebuilt.
       rbind (rmap (\<lambda>k. bytes_differ real raw_rebuilt (word_of_nat k)) [1..<length slots + 1]) (\<lambda>ds.
       let byte_mismatch = length (filter id ds) in
       if mismatches = 0 \<and> byte_mismatch = 0 then Ok ()
       else Err (Bail ''offnum(s) did not round-trip''))))))))"

section \<open>What the check accepts\<close>

definition row_of :: "Slot \<Rightarrow> Row option" where
  "row_of s = (case s of Tuple t \<Rightarrow> Some (ts_row t) | _ \<Rightarrow> None)"

definition is_raw :: "Slot \<Rightarrow> bool" where
  "is_raw s = (case s of Raw _ \<Rightarrow> True | _ \<Rightarrow> False)"

lemma rows_of_row: "rows_of slots desc = map (\<lambda>s. if length (cols desc) = length (phys desc) then row_of s else None) slots"
  by (auto simp: rows_of_def row_of_def split: Slot.splits)

lemma redirect_flags: "drop_bit 15 (ucast (t :: u16) OR push_bit 15 2 :: u32) AND 3 \<noteq> 1"
proof -
  have "bit (drop_bit 15 (ucast t OR push_bit 15 2 :: u32) AND 3) 1"
    by (simp add: bit_and_iff bit_drop_bit_eq bit_or_iff bit_push_bit_iff bit_numeral_rec)
  moreover have "\<not> bit (1 :: u32) 1" by simp
  ultimately show ?thesis by metis
qed

lemma slot_at_rebuilt:
  assumes b: "build_page desc block lsn slots = Ok page" and wf: "desc_wf desc" "length (phys desc) \<le> 1600"
    and i: "i < length slots" and s: "\<not> is_raw (slots ! i)" "\<forall>r. row_of (slots ! i) = Some r \<longrightarrow> canonical_row (cols desc) r"
  shows "\<exists>s'. slot_at lz4 page desc (word_of_nat (i + 1)) = Ok s' \<and> row_of s' = row_of (slots ! i)"
proof -
  from build_page_held [OF b] obtain u where
    "PAGE_HEADER_SIZE + length slots * ITEM_ID_SIZE \<le> PAGE_SIZE" and h: "slot_held desc block u page i (slots ! i)"
    using i by (metis order_trans)
  then have small: "i < 65535" using i by (simp add: page_sizes)
  show ?thesis
  proof (cases "slots ! i")
    case (Tuple t)
    then obtain tup where "holds_tuple page u i tup" using h by auto
    from line_pointer_read [OF this small] obtain lp where lp: "line_pointer page (word_of_nat (i + 1)) = Ok lp" "lpr_flags lp = 1"
      by (metis LinePointer.select_convs(1))
    have "canonical_row (cols desc) (ts_row t)" using s(2) by (simp add: Tuple row_of_def)
    from rebuilt_tuple_decodes [OF b wf i Tuple this, of lz4 toast_default] lp show ?thesis
      by (auto simp: slot_at_def Tuple row_of_def slot_live_def frozen_def)
  next
    case Unused
    then show ?thesis using h item_line_pointer [OF _ small, of page 0] by (simp add: slot_at_def row_of_def)
  next
    case Dead
    then show ?thesis using h item_line_pointer [OF _ small, of page "push_bit 15 3"] by (simp add: slot_at_def row_of_def)
  next
    case (Redirect t)
    let ?w = "ucast t OR push_bit 15 2 :: u32"
    have "(ucast (drop_bit 15 ?w AND 3) :: u8) \<noteq> 1"
    proof
      assume "(ucast (drop_bit 15 ?w AND 3) :: u8) = 1"
      then have "unat (ucast (drop_bit 15 ?w AND 3) :: u8) = 1" by simp
      moreover have "unat (drop_bit 15 ?w AND 3) \<le> 3" 
        using word_and_le1 [of "drop_bit 15 ?w" 3] by (simp add: word_le_nat_alt)
      ultimately have "unat (drop_bit 15 ?w AND 3) = 1" by (simp add: unsigned_ucast_eq take_bit_nat_eq_self)
      then show False using redirect_flags [of t] by (metis unat_1 word_unat_eq_iff)
    qed
    moreover have "item_bytes page i = Some (to_le ?w)" using h Redirect by simp
    ultimately show ?thesis using item_line_pointer [OF _ small, of page ?w] Redirect by (simp add: slot_at_def row_of_def)
  qed (use s(1) in \<open>simp add: is_raw_def\<close>)
qed

lemma page_slots_rebuilt:
  assumes b: "build_page desc block lsn slots = Ok page" and wf: "desc_wf desc" "length (phys desc) \<le> 1600"
    and s: "\<forall>s \<in> set slots. \<not> is_raw s \<and> (\<forall>r. row_of s = Some r \<longrightarrow> canonical_row (cols desc) r)"
  shows "\<exists>slots'. page_slots lz4 page desc = Ok slots' \<and> map row_of slots' = map row_of slots"
proof -
  from build_page_held [OF b] obtain u where len: "length page = PAGE_SIZE"
    and lo: "PAGE_HEADER_SIZE + length slots * ITEM_ID_SIZE \<le> u" "u \<le> PAGE_SIZE"
    and g: "get_range page 12 14 = Some (to_le (word_of_nat (PAGE_HEADER_SIZE + length slots * ITEM_ID_SIZE) :: u16))"
    by metis
  have "24 + length slots * 4 \<le> 8192" using lo by (simp add: page_sizes)
  then have "unat (word_of_nat (24 + length slots * 4) :: u16) = 24 + length slots * 4" by (intro unat_u16) simp
  then have n: "(unat (word_of_nat (24 + length slots * 4) :: u16) - 24) div 4 = length slots" by (simp only:)
  have ix: "index page 12 = Ok (page ! 12)" "index page 13 = Ok (page ! 13)" using len by (simp_all add: index_Ok page_sizes)
  have "take 2 (drop 12 page) = [page ! 12, page ! 13]" using len
    by (simp add: page_sizes numeral_2_eq_2 take_Suc_conv_app_nth)
  moreover have "take 2 (drop 12 page) = to_le (word_of_nat (24 + length slots * 4) :: u16)"
    using g by (auto simp: get_range_eq_Some page_sizes)
  ultimately have "[page ! 12, page ! 13] = to_le (word_of_nat (24 + length slots * 4) :: u16)" by (rule HOL.trans [OF sym])
  then have pl: "(unat (from_le [page ! 12, page ! 13] :: u16) - 24) div 4 = length slots"
    using n by (simp only: from_to_le_u16)
  have "\<exists>s'. slot_at lz4 page desc (word_of_nat (i + 1)) = Ok s' \<and> row_of s' = row_of (slots ! i)" if "i < length slots" for i
    by (rule slot_at_rebuilt [OF b wf that]) (use s nth_mem [OF that] in blast)+
  then obtain f where f: "\<And>i. i < length slots \<Longrightarrow> slot_at lz4 page desc (word_of_nat (i + 1)) = Ok (f i) \<and> row_of (f i) = row_of (slots ! i)"
    by metis
  have "[1..<length slots + 1] = map Suc [0..<length slots]" by (simp add: map_Suc_upt del: upt_Suc)
  then have "rmap (\<lambda>k. slot_at lz4 page desc (word_of_nat k)) [1..<length slots + 1] =
      rmap (\<lambda>i. slot_at lz4 page desc (word_of_nat (i + 1))) [0..<length slots]"
    by (simp only: rmap_map Suc_eq_plus1)
  also have "\<dots> = Ok (map f [0..<length slots])" using f by (intro rmap_all_Ok) auto
  finally have "page_slots lz4 page desc = Ok (map f [0..<length slots])" by (simp only: page_slots_def ix pl rbind.simps Let_def)
  moreover have "map row_of (map f [0..<length slots]) = map row_of slots" using f by (intro nth_equalityI) simp_all
  ultimately show ?thesis by blast
qed

definition no_nan :: "Row \<Rightarrow> bool" where
  "no_nan row \<longleftrightarrow> (\<forall>w. Some (VF32 w) \<in> set row \<longrightarrow> \<not> f32_nan w) \<and> (\<forall>w. Some (VF64 w) \<in> set row \<longrightarrow> \<not> f64_nan w)"

lemma row_eq_refl: "no_nan row \<Longrightarrow> row_eq row row"
proof -
  have "value_eq x x" if "no_nan row" "Some x \<in> set row" for x
    using that by (cases x) (auto simp: no_nan_def f32_eq_def f64_eq_def)
  then show "no_nan row \<Longrightarrow> row_eq row row"
    by (auto simp: row_eq_def list_all2_same split: option.splits)
qed

text \<open>A page with a float that is not a number is reported, however well it was rebuilt.\<close>

lemma nan_reported: "f32_nan w \<Longrightarrow> \<not> row_eq (r1 @ Some (VF32 w) # r2) (r1 @ Some (VF32 w) # r2)"
  by (simp add: row_eq_def list_all2_same f32_eq_def)

lemma synthetic_desc_wf: "synthetic_desc a = Ok desc \<Longrightarrow> desc_wf desc \<and> length (cols desc) = length (phys desc)"
proof -
  have "live_cols (map Live cs) = cs" for cs by (induction cs) auto
  then show "synthetic_desc a = Ok desc \<Longrightarrow> desc_wf desc \<and> length (cols desc) = length (phys desc)"
    by (auto simp: synthetic_desc_def rbind_eq_Ok desc_wf_def split: if_splits)
qed

lemma rmap_range: "rmap f [1..<n + 1] = Ok ys \<Longrightarrow> i < n \<Longrightarrow> length ys = n \<and> f (i + 1) = Ok (ys ! i)"
proof -
  assume r: "rmap f [1..<n + 1] = Ok ys" and i: "i < n"
  have "length ys = n" using rmap_Ok_length [OF r] by simp
  moreover have "f ([1..<n + 1] ! i) = Ok (ys ! i)" using i by (intro rmap_Ok_nth [OF r]) simp
  ultimately show ?thesis using i by (simp del: upt_Suc)
qed

lemma page_slots_kinds:
  assumes "page_slots lz4 page desc = Ok slots" "s \<in> set slots"
  shows "\<not> is_raw s \<and> (\<forall>r. row_of s = Some r \<longrightarrow> s = slot_live r)"
proof -
  obtain k where "slot_at lz4 page desc (word_of_nat k) = Ok s"
    using assms by (auto simp: page_slots_def Let_def rbind_eq_Ok rmap_nth_iff in_set_conv_nth)
  then show ?thesis
    by (auto simp: slot_at_def rbind_eq_Ok is_raw_def row_of_def slot_live_def frozen_def split: if_splits)
qed

lemma raw_rebuilt_same:
  assumes r: "raw_slots real n = Ok rslots" and b: "build_page desc 0 0 rslots = Ok page"
    and natts: "\<forall>rt. Raw rt \<in> set rslots \<longrightarrow> rt_natts rt \<le> 1600" and i: "i < n"
  shows "bytes_differ real page (word_of_nat (i + 1)) = Ok False"
proof -
  have s: "length rslots = n" "raw_slot_at real (word_of_nat (i + 1)) = Ok (rslots ! i)"
    using rmap_range [OF r [unfolded raw_slots_def] i] by simp_all
  obtain lp where lp: "line_pointer real (word_of_nat (i + 1)) = Ok lp" using s(2) by (auto simp: raw_slot_at_def rbind_eq_Ok)
  show ?thesis
  proof (cases "lpr_flags lp = 1")
    case True
    then obtain rt where rt: "raw_from_page real (word_of_nat (i + 1)) = Ok rt" "rslots ! i = Raw rt"
      using s(2) lp by (auto simp: raw_slot_at_def rbind_eq_Ok)
    have "rt_natts rt \<le> 1600" using natts rt(2) s(1) i by (metis nth_mem)
    from raw_tuple_roundtrip [OF b _ rt(2) this] show ?thesis using s(1) i lp rt(1) by (simp add: bytes_differ_def del: of_nat_add of_nat_Suc)
  qed (use lp in \<open>simp add: bytes_differ_def\<close>)
qed

text \<open>
  C23 (equivalence): the cross-check passes on every heap page whose decoded rows are canonical and free of NaN and
  whose tuples have at most 1600 attributes, once both rebuilds fit their page: the rows decoded from the
  rebuilt page are those of the page at every offset number, and the raw rebuild has the same attribute bytes.
\<close>

theorem cross_check_passes:
  assumes d: "synthetic_desc cols_arg = Ok desc" "length (phys desc) \<le> 1600"
    and real: "length real = PAGE_SIZE" "page_slots lz4 real desc = Ok slots" "raw_slots real (length slots) = Ok rslots"
    and rows: "\<forall>r. slot_live r \<in> set slots \<longrightarrow> canonical_row (cols desc) r \<and> no_nan r"
    and natts: "\<forall>rt. Raw rt \<in> set rslots \<longrightarrow> rt_natts rt \<le> 1600"
    and fit: "build_page desc 0 0 slots = Ok rebuilt" "build_page desc 0 0 rslots = Ok raw_rebuilt"
  shows "cross_check lz4 real cols_arg = Ok ()"
proof -
  note wf = synthetic_desc_wf [OF d(1)]
  have k: "\<forall>s \<in> set slots. \<not> is_raw s \<and> (\<forall>r. row_of s = Some r \<longrightarrow> canonical_row (cols desc) r \<and> no_nan r)"
    using page_slots_kinds [OF real(2)] rows by metis
  obtain slots' where s': "page_slots lz4 rebuilt desc = Ok slots'" "map row_of slots' = map row_of slots"
    using page_slots_rebuilt [OF fit(1) _ d(2)] wf k by blast
  have same: "rows_of slots' desc = rows_of slots desc" using wf s'(2) by (simp add: rows_of_row)
  have "opt_row_eq w g" if "(w, g) \<in> set (zip (rows_of slots desc) (rows_of slots' desc))" for w g
  proof -
    from that have "w = g" "w \<in> row_of ` set slots" unfolding same using wf by (auto simp: rows_of_row in_set_zip)
    then show ?thesis using k by (auto simp: opt_row_eq_def row_eq_refl split: option.splits)
  qed
  then have m: "filter (\<lambda>(w, g). \<not> opt_row_eq w g) (zip (rows_of slots desc) (rows_of slots' desc)) = []"
    by (auto simp: filter_empty_conv)
  have "bytes_differ real raw_rebuilt (word_of_nat n) = Ok False" if "n \<in> set [1..<length slots + 1]" for n
  proof -
    have "1 \<le> n" "n < length slots + 1" using that by (simp_all only: set_upt atLeastLessThan_iff)
    then obtain i where "n = i + 1" "i < length slots" by (cases n) auto
    then show ?thesis using raw_rebuilt_same [OF real(3) fit(2) natts, of i] by simp
  qed
  then have "rmap (\<lambda>n. bytes_differ real raw_rebuilt (word_of_nat n)) [1..<length slots + 1] = Ok (map (\<lambda>_. False) [1..<length slots + 1])"
    by (rule rmap_all_Ok)
  moreover have "filter id (map (\<lambda>_. False) xs) = []" for xs :: "nat list" by (induction xs) auto
  ultimately show ?thesis by (simp add: cross_check_def d(1) real fit s'(1) m)
qed

text \<open>A page with one row of one integer column.\<close>

definition one_col :: TableDesc where
  "one_col = \<lparr>td_name = ''rebuild'', td_oid = 0, db_oid = 0, rel_node = 0, toast_rel_node = None,
     cols = [\<lparr>col_name = ''c0'', col_ty = Int4\<rparr>], phys = [Live \<lparr>col_name = ''c0'', col_ty = Int4\<rparr>], has_fast_defaults = False, pk = []\<rparr>"

lemma one_col_desc: "synthetic_desc ''int4'' = Ok one_col"
proof -
  have "trim ''int4'' = ''int4''" "show_nat 0 = ''0''" by code_simp+
  then show ?thesis by (simp add: synthetic_desc_def syn_type_def one_col_def)
qed

definition one_tuple :: bytes where
  "one_tuple = heap_header 2 0 0 1 (infomask2 1 False False) (infomask 2 0 False False) 24 @ [0] @ [5, 0, 0, 0]"

definition one_raw :: RawTuple where
  "one_raw = \<lparr>rt_attrs = [5, 0, 0, 0], rt_null_bitmap = [], rt_natts = 1, rt_has_varwidth = False, rt_xmin = 2, rt_xmax = 0,
     rt_ctid = Some (0, 1), rt_heap_only = False, rt_hot_updated = False\<rparr>"

lemma one_encoded: "encode_tuple one_col 0 1 (frozen [Some (VI32 5)]) = Ok one_tuple" "encode_raw_tuple 0 1 one_raw = Ok one_tuple"
proof -
  have h: "put (replicate 24 0) 0 (heap_header x y b c d e f) = heap_header x y b c d e f @ [0]" for x y b c d e f
    by (simp add: put_header)
  have "encode_attrs [Some (VI32 5)] one_col = Ok (Some [5, 0, 0, 0])"
    by (simp add: encode_attrs_def one_col_def Let_def pad_put_def align_to_def align_up_def to_le_def le_bytes_4)
  then show "encode_tuple one_col 0 1 (frozen [Some (VI32 5)]) = Ok one_tuple"
    by (simp add: encode_tuple_def frozen_def one_col_def one_tuple_def Let_def SIZEOF_HEAP_TUPLE_HEADER_def page_maxalign_def align_up_def
        is_dropped_def h Reconstruct.FROZEN_XID_def)
  show "encode_raw_tuple 0 1 one_raw = Ok one_tuple"
    by (simp add: encode_raw_tuple_def one_raw_def one_tuple_def Let_def SIZEOF_HEAP_TUPLE_HEADER_def page_maxalign_def align_up_def h)
      (simp add: put_def)
qed

lemma one_pages: "\<exists>page. build_page one_col 0 0 [slot_live [Some (VI32 5)]] = Ok page" "\<exists>page. build_page one_col 0 0 [Raw one_raw] = Ok page"
  unfolding build_page_iff using one_encoded
  by (simp_all add: slot_live_def aligned_size_def one_tuple_def page_maxalign_def align_up_def page_sizes)

lemma one_raw_read:
  assumes b: "build_page one_col 0 0 [slot_live [Some (VI32 5)]] = Ok page"
  shows "line_pointer page 1 = Ok lp \<Longrightarrow> lpr_flags lp = 1" and "raw_from_page page 1 = Ok one_raw"
proof -
  obtain u where "slot_held one_col 0 u page 0 (slot_live [Some (VI32 5)])" using build_page_held [OF b] by (metis length_Cons nth_Cons_0 zero_less_Suc)
  then have "holds_tuple page u 0 one_tuple" using one_encoded(1) by (auto simp: slot_live_def)
  from line_pointer_read [OF this] obtain off where l: "off + length one_tuple \<le> PAGE_SIZE"
    "line_pointer page 1 = Ok \<lparr>lpr_flags = 1, lpr_off = word_of_nat off, lpr_len = word_of_nat (length one_tuple)\<rparr>"
    "get_range page off (off + length one_tuple) = Some one_tuple" by auto
  show "line_pointer page 1 = Ok lp \<Longrightarrow> lpr_flags lp = 1" using l(2) by auto
  have w: "unat (word_of_nat off :: u16) = off" "unat (word_of_nat (length one_tuple) :: u16) = length one_tuple"
    using l(1) by (intro unat_u16; simp add: PAGE_SIZE_def)+
  have len: "length one_tuple = 28" by (simp add: one_tuple_def)
  note F = header_fields [of 2 0 0 1 "infomask2 1 False False" "infomask 2 0 False False" 24 "[0] @ [5, 0, 0, 0]", folded one_tuple_def]
  have n: "infomask2 1 False False AND HEAP_NATTS_MASK = 1" by (simp add: infomask2_def HEAP_NATTS_MASK_def)
  have g: "get_range one_tuple 23 23 = Some []" "get_range one_tuple 24 28 = Some [5, 0, 0, 0]" by (simp_all add: one_tuple_def get_range_def)
  have h: "unat (24 :: u8) = 24" by simp
  show "raw_from_page page 1 = Ok one_raw"
    unfolding raw_from_page_def l(2) rbind.simps Let_def LinePointer.simps w l(3) ok_or.simps F n h infomask2_flags infomask_flags
      SIZEOF_HEAP_TUPLE_HEADER_def
    using len g by (simp add: one_raw_def)
qed

theorem cross_check_passes_witness:
  "\<exists>page. build_page one_col 0 0 [slot_live [Some (VI32 5)]] = Ok page \<and> cross_check (\<lambda>_ _. None) page ''int4'' = Ok ()"
proof -
  obtain page p2 where b: "build_page one_col 0 0 [slot_live [Some (VI32 5)]] = Ok page" "build_page one_col 0 0 [Raw one_raw] = Ok p2"
    using one_pages by blast
  have wf: "desc_wf one_col" "length (phys one_col) \<le> 1600" by (simp_all add: desc_wf_def one_col_def)
  have c: "canonical_row (cols one_col) [Some (VI32 5)]" "no_nan [Some (VI32 5)]" by (simp_all add: canonical_row_def one_col_def no_nan_def)
  obtain slots where s: "page_slots (\<lambda>_ _. None) page one_col = Ok slots" "map row_of slots = [Some [Some (VI32 5)]]"
    using page_slots_rebuilt [OF b(1) wf, of "\<lambda>_ _. None"] c(1) by (auto simp: slot_live_def frozen_def row_of_def is_raw_def)
  then obtain s1 where "slots = [s1]" "row_of s1 = Some [Some (VI32 5)]" by (cases slots) auto
  then have slots: "slots = [slot_live [Some (VI32 5)]]" using page_slots_kinds [OF s(1), of s1] by simp
  obtain lp where "line_pointer page 1 = Ok lp" using one_raw_read(2) [OF b(1)] by (auto simp: raw_from_page_def rbind_eq_Ok)
  then have r: "raw_slots page (length slots) = Ok [Raw one_raw]"
    using one_raw_read [OF b(1)] by (simp add: slots raw_slots_def raw_slot_at_def)
  have "length page = PAGE_SIZE" using build_page_held [OF b(1)] by metis
  from cross_check_passes [OF one_col_desc wf(2) this s(1) r _ _ _ b(2)] b(1) show ?thesis
    using c by (auto simp: slots slot_live_def frozen_def one_raw_def)
qed

end
