(* ===== verification/Pagestream.thy ===== *)
theory Pagestream
  imports Catalog Pgwire
begin

text \<open>
  The second page source of \<^verbatim>\<open>src/catalog.rs\<close>: relation pages over a pagestream connection, pinned to
  one LSN. Every request uses the connection, so the trait's default loop over the blocks threads it.
\<close>

record PagestreamSource =
  ps_conn :: ReplConn
  ps_spc :: u32
  ps_db :: u32
  ps_lsn :: u64

definition ps_rel :: "PagestreamSource \<Rightarrow> u32 \<Rightarrow> PsRelTag" where
  "ps_rel s filenode = \<lparr>spcnode = ps_spc s, dbnode = ps_db s, relnode = filenode, forknum = 0\<rparr>"

definition ps_rel_nblocks :: "u32 \<Rightarrow> PagestreamSource \<Rightarrow> (u32 \<times> PagestreamSource) result" where
  "ps_rel_nblocks filenode s =
     rbind (rel_nblocks (ps_rel s filenode) (ps_lsn s) (ps_conn s)) (\<lambda>(n, c). Ok (n, s\<lparr>ps_conn := c\<rparr>))"

definition ps_get_page :: "u32 \<Rightarrow> u32 \<Rightarrow> PagestreamSource \<Rightarrow> (bytes \<times> PagestreamSource) result" where
  "ps_get_page filenode blk s =
     rbind (get_page (ps_rel s filenode) blk (ps_lsn s) (ps_conn s)) (\<lambda>(p, c). Ok (p, s\<lparr>ps_conn := c\<rparr>))"

definition ps_rel_pages :: "u32 \<Rightarrow> PagestreamSource \<Rightarrow> (bytes list \<times> PagestreamSource) result" where
  "ps_rel_pages filenode s =
     rbind (ps_rel_nblocks filenode s) (\<lambda>(n, s1).
       rfold (\<lambda>blk (ps, st). rbind (ps_get_page filenode blk st) (\<lambda>(p, st'). Ok (ps @ [p], st'))) (u32_range 0 n) ([], s1))"

text \<open>The source stays pinned: only its connection changes.\<close>

definition pinned :: "PagestreamSource \<Rightarrow> PagestreamSource \<Rightarrow> bool" where
  "pinned s s' \<longleftrightarrow> ps_spc s' = ps_spc s \<and> ps_db s' = ps_db s \<and> ps_lsn s' = ps_lsn s"

lemma ps_get_page_Ok: "ps_get_page filenode blk s = Ok (p, s') \<Longrightarrow> length p = 8192 \<and> pinned s s'"
  by (auto simp: ps_get_page_def get_page_def rbind_eq_Ok pinned_def split: prod.splits if_splits)

lemma ps_loop_Ok:
  "rfold (\<lambda>blk (ps, st). rbind (ps_get_page filenode blk st) (\<lambda>(p, st'). Ok (ps @ [p], st'))) blks (ps, s) = Ok (ps', s') \<Longrightarrow>
   pinned s s' \<and> length ps' = length ps + length blks \<and> (\<forall>p \<in> set ps'. p \<in> set ps \<or> length p = 8192)"
proof (induction blks arbitrary: ps s)
  case (Cons b bs)
  then obtain p s1 where p: "ps_get_page filenode b s = Ok (p, s1)" and
    r: "rfold (\<lambda>blk (ps, st). rbind (ps_get_page filenode blk st) (\<lambda>(p, st'). Ok (ps @ [p], st'))) bs (ps @ [p], s1) = Ok (ps', s')"
    by (auto simp: rbind_eq_Ok)
  show ?case using Cons.IH [OF r] ps_get_page_Ok [OF p] by (auto simp: pinned_def)
qed (auto simp: pinned_def)

lemma ps_rel_pages_whole:
  "ps_rel_pages filenode s = Ok (ps, s') \<Longrightarrow>
   \<exists>n s1. ps_rel_nblocks filenode s = Ok (n, s1) \<and> length ps = unat n \<and> (\<forall>p \<in> set ps. length p = 8192) \<and> pinned s s'"
proof -
  assume "ps_rel_pages filenode s = Ok (ps, s')"
  then obtain n s1 where n: "ps_rel_nblocks filenode s = Ok (n, s1)" and
    r: "rfold (\<lambda>blk (ps, st). rbind (ps_get_page filenode blk st) (\<lambda>(p, st'). Ok (ps @ [p], st'))) (u32_range 0 n) ([], s1) = Ok (ps, s')"
    by (auto simp: ps_rel_pages_def rbind_eq_Ok)
  have "pinned s s1" using n by (auto simp: ps_rel_nblocks_def rbind_eq_Ok pinned_def)
  then show ?thesis using n ps_loop_Ok [OF r] by (auto simp: pinned_def u32_range_def)
qed

end
