(* ===== verification/Txbuf.thy ===== *)
theory Txbuf
  imports Schema "HOL-Library.AList" "HOL-Library.Multiset"
begin

text \<open>
  \<^verbatim>\<open>src/txbuf.rs\<close>: per-transaction change buffering. A hash map is an association list
  whose order stands for the map's unspecified iteration order; the one operation that iterates
  (\<open>lookup\<close>) is shown not to depend on it. The buffer refines a log of the changes of the open
  transactions in arrival order.
\<close>

section \<open>Addresses\<close>

type_synonym Ctid = "u32 \<times> u16"

text \<open>\<^verbatim>\<open>((blk as i64) << 16) | off as i64\<close>\<close>

definition pack_ctid :: "Ctid \<Rightarrow> i64" where
  "pack_ctid c = (case c of (blk, off) \<Rightarrow> push_bit 16 (ucast blk) OR ucast off)"

text \<open>\<^verbatim>\<open>((packed >> 16) as u32, (packed & 0xFFFF) as u16)\<close>; the shift of an \<open>i64\<close> is arithmetic.\<close>

definition unpack_ctid :: "i64 \<Rightarrow> Ctid" where
  "unpack_ctid packed = (ucast (signed_drop_bit 16 packed), ucast (packed AND 0xFFFF))"

section \<open>Row versions, operations, buffers\<close>

record RowVersion =
  rv_row :: Row
  rv_attrs :: "bytes option"

datatype Op =
    Insert (op_ctid: Ctid) (op_ver: RowVersion)
  | Update (old_ctid: Ctid) (op_ctid: Ctid) (op_ver: RowVersion)
  | Delete (op_ctid: Ctid) (old_row: "Row option")

record PendingOp =
  po_lsn :: lsn
  po_table :: nat
  po_op :: Op

type_synonym overlay = "((nat \<times> Ctid) \<times> RowVersion) list"

record OpenTx =
  first_lsn :: lsn
  tx_ops :: "PendingOp list"
  tx_overlay :: overlay

record TxBuffer =
  open_txs :: "(u32 \<times> OpenTx) list"

definition txbuf_default :: TxBuffer where
  "txbuf_default = \<lparr>open_txs = []\<rparr>"

fun overlay_apply :: "nat \<Rightarrow> Op \<Rightarrow> overlay \<Rightarrow> overlay" where
  "overlay_apply table (Insert ctid ver) ov = AList.update (table, ctid) ver ov"
| "overlay_apply table (Update old ctid ver) ov =
     AList.update (table, ctid) ver (AList.delete (table, old) ov)"
| "overlay_apply table (Delete ctid old) ov = AList.delete (table, ctid) ov"

definition add_op :: "u32 \<Rightarrow> lsn \<Rightarrow> nat \<Rightarrow> Op \<Rightarrow> TxBuffer \<Rightarrow> TxBuffer" where
  "add_op xid lsn table op b =
     (let tx = (case map_of (open_txs b) xid of
                  Some t \<Rightarrow> t
                | None \<Rightarrow> \<lparr>first_lsn = lsn, tx_ops = [], tx_overlay = []\<rparr>);
          tx' = tx\<lparr>tx_overlay := overlay_apply table op (tx_overlay tx),
                   tx_ops := tx_ops tx @ [\<lparr>po_lsn = lsn, po_table = table, po_op = op\<rparr>]\<rparr>
      in b\<lparr>open_txs := AList.update xid tx' (open_txs b)\<rparr>)"

fun find_map :: "('a \<Rightarrow> 'b option) \<Rightarrow> 'a list \<Rightarrow> 'b option" where
  "find_map f [] = None"
| "find_map f (x # xs) = (case f x of Some y \<Rightarrow> Some y | None \<Rightarrow> find_map f xs)"

definition lookup :: "TxBuffer \<Rightarrow> nat \<Rightarrow> Ctid \<Rightarrow> RowVersion option" where
  "lookup b table ctid = find_map (\<lambda>tx. map_of (tx_overlay (snd tx)) (table, ctid)) (open_txs b)"

text \<open>\<^verbatim>\<open>self.open.remove(&xid).map(|t| t.ops).unwrap_or_default()\<close>\<close>

definition remove_tx :: "u32 \<Rightarrow> (u32 \<times> OpenTx) list \<Rightarrow> PendingOp list \<times> (u32 \<times> OpenTx) list" where
  "remove_tx xid txs =
     ((case map_of txs xid of Some t \<Rightarrow> tx_ops t | None \<Rightarrow> []), AList.delete xid txs)"

fun remove_txs :: "u32 list \<Rightarrow> (u32 \<times> OpenTx) list \<Rightarrow> PendingOp list \<times> (u32 \<times> OpenTx) list" where
  "remove_txs [] txs = ([], txs)"
| "remove_txs (x # xs) txs =
     (case remove_tx x txs of (ops, txs') \<Rightarrow>
        (case remove_txs xs txs' of (ops', txs'') \<Rightarrow> (ops @ ops', txs'')))"

definition tx_commit :: "u32 \<Rightarrow> u32 list \<Rightarrow> TxBuffer \<Rightarrow> PendingOp list \<times> TxBuffer" where
  "tx_commit xid subxids b =
     (case remove_txs (xid # subxids) (open_txs b) of (ops, txs) \<Rightarrow>
        (sort_key po_lsn ops, b\<lparr>open_txs := txs\<rparr>))"

definition tx_abort :: "u32 \<Rightarrow> u32 list \<Rightarrow> TxBuffer \<Rightarrow> nat \<times> TxBuffer" where
  "tx_abort xid subxids b =
     (case remove_txs (xid # subxids) (open_txs b) of (ops, txs) \<Rightarrow>
        (length ops, b\<lparr>open_txs := txs\<rparr>))"

fun min_list_opt :: "nat list \<Rightarrow> nat option" where
  "min_list_opt [] = None"
| "min_list_opt (x # xs) = Some (fold min xs x)"

definition oldest_first_lsn :: "TxBuffer \<Rightarrow> lsn option" where
  "oldest_first_lsn b = min_list_opt (map (\<lambda>tx. first_lsn (snd tx)) (open_txs b))"

definition open_count :: "TxBuffer \<Rightarrow> nat" where
  "open_count b = length (open_txs b)"

section \<open>The abstract log\<close>

text \<open>
  The specification: the changes of the open transactions, in the order they arrived. A commit
  takes out, in that order, the changes of the committed transaction and subtransactions; an abort
  drops them.
\<close>

type_synonym txlog = "(u32 \<times> PendingOp) list"

definition log_take :: "u32 set \<Rightarrow> txlog \<Rightarrow> PendingOp list" where
  "log_take S log = map snd (filter (\<lambda>e. fst e \<in> S) log)"

definition log_drop :: "u32 set \<Rightarrow> txlog \<Rightarrow> txlog" where
  "log_drop S log = filter (\<lambda>e. fst e \<notin> S) log"

text \<open>
  What the WAL guarantees about the log: LSNs do not decrease, and the changes of one record (one
  LSN) belong to one transaction.
\<close>

definition wal_ordered :: "txlog \<Rightarrow> bool" where
  "wal_ordered log \<longleftrightarrow> sorted (map (po_lsn \<circ> snd) log) \<and>
     (\<forall>e \<in> set log. \<forall>e' \<in> set log. po_lsn (snd e) = po_lsn (snd e') \<longrightarrow> fst e = fst e')"

definition tx_of_log :: "txlog \<Rightarrow> u32 \<Rightarrow> PendingOp list" where
  "tx_of_log log x = log_take {x} log"

definition overlay_of :: "PendingOp list \<Rightarrow> overlay" where
  "overlay_of ops = fold (\<lambda>p ov. overlay_apply (po_table p) (po_op p) ov) ops []"

definition tx_holds :: "PendingOp list \<Rightarrow> OpenTx option \<Rightarrow> bool" where
  "tx_holds ops t = (case t of
       None \<Rightarrow> ops = []
     | Some tx \<Rightarrow> ops \<noteq> [] \<and> tx_ops tx = ops \<and> first_lsn tx = po_lsn (hd ops) \<and>
                  tx_overlay tx = overlay_of ops)"

definition txbuf_refines :: "TxBuffer \<Rightarrow> txlog \<Rightarrow> bool" where
  "txbuf_refines b log \<longleftrightarrow> wal_ordered log \<and> distinct (map fst (open_txs b)) \<and>
     (\<forall>x. tx_holds (tx_of_log log x) (map_of (open_txs b) x))"

lemma pack_unpack: "unpack_ctid (pack_ctid c) = c"
proof -
  obtain blk off where c: "c = (blk, off)" by (cases c)
  have "ucast (signed_drop_bit 16 (push_bit 16 (ucast blk) OR ucast off :: u64)) = blk"
    by (rule bit_word_eqI)
      (auto simp: bit_simps dest: bit_imp_le_length)
  moreover have "ucast ((push_bit 16 (ucast blk) OR ucast off :: u64) AND mask 16) = off"
    by (rule bit_word_eqI) (auto simp: bit_simps)
  moreover have "(0xFFFF :: u64) = mask 16"
    by (simp add: mask_eq_exp_minus_1)
  ultimately show ?thesis by (simp add: c pack_ctid_def unpack_ctid_def)
qed

section \<open>Refinement\<close>

lemma tx_of_log_append: "tx_of_log (log @ [(y, p)]) x = tx_of_log log x @ (if x = y then [p] else [])"
  by (simp add: tx_of_log_def log_take_def)

lemma overlay_of_append:
  "overlay_of (ops @ [p]) = overlay_apply (po_table p) (po_op p) (overlay_of ops)"
  by (simp add: overlay_of_def)

definition wal_next :: "txlog \<Rightarrow> u32 \<Rightarrow> lsn \<Rightarrow> bool" where
  "wal_next log xid lsn \<longleftrightarrow>
     (\<forall>e \<in> set log. po_lsn (snd e) \<le> lsn \<and> (po_lsn (snd e) = lsn \<longrightarrow> fst e = xid))"

lemma wal_ordered_sorted: "wal_ordered log \<Longrightarrow> sorted (map (po_lsn \<circ> snd) log)"
  unfolding wal_ordered_def by blast

lemma wal_ordered_same:
  "wal_ordered log \<Longrightarrow> e \<in> set log \<Longrightarrow> e' \<in> set log \<Longrightarrow> po_lsn (snd e) = po_lsn (snd e') \<Longrightarrow> fst e = fst e'"
  unfolding wal_ordered_def by blast

lemma wal_ordered_append:
  assumes "wal_ordered log" and "wal_next log xid (po_lsn p)"
  shows "wal_ordered (log @ [(xid, p)])"
proof -
  have "sorted (map (po_lsn \<circ> snd) (log @ [(xid, p)]))"
    using wal_ordered_sorted [OF assms(1)] assms(2) by (auto simp: sorted_append wal_next_def)
  moreover have "fst e = fst e'"
    if e: "e \<in> set (log @ [(xid, p)])" "e' \<in> set (log @ [(xid, p)])" "po_lsn (snd e) = po_lsn (snd e')"
    for e e'
  proof -
    have new: "fst e = xid" if "e \<in> set log" "po_lsn (snd e) = po_lsn p" for e
      using assms(2) that by (simp add: wal_next_def)
    show ?thesis
      using e new [of e] new [of e'] wal_ordered_same [OF assms(1), of e e']
      by (cases "e \<in> set log"; cases "e' \<in> set log") simp_all
  qed
  ultimately show ?thesis
    unfolding wal_ordered_def by blast
qed

lemma wal_ordered_filter:
  assumes "wal_ordered log"
  shows "wal_ordered (filter P log)"
proof -
  have "sorted (map (po_lsn \<circ> snd) (filter P log))"
    using wal_ordered_sorted [OF assms] by (rule sorted_filter)
  with assms show ?thesis unfolding wal_ordered_def by fastforce
qed

lemma add_op_refines:
  assumes "txbuf_refines b log" and "wal_next log xid lsn"
  shows "txbuf_refines (add_op xid lsn table op b)
           (log @ [(xid, \<lparr>po_lsn = lsn, po_table = table, po_op = op\<rparr>)])"
    (is "txbuf_refines ?b (log @ [(xid, ?p)])")
proof -
  have holds: "tx_holds (tx_of_log log x) (map_of (open_txs b) x)" for x
    using assms(1) by (simp add: txbuf_refines_def)
  have "tx_holds (tx_of_log (log @ [(xid, ?p)]) x) (map_of (open_txs ?b) x)" for x
    using holds [of x]
    by (cases "x = xid"; cases "map_of (open_txs b) xid")
      (auto simp: add_op_def Let_def tx_of_log_append tx_holds_def update_conv' overlay_of_append
         hd_append overlay_of_def split: option.splits)
  moreover have "wal_ordered (log @ [(xid, ?p)])"
    using assms by (intro wal_ordered_append) (auto simp: txbuf_refines_def)
  moreover have "distinct (map fst (open_txs ?b))"
    using assms(1) by (simp add: add_op_def Let_def txbuf_refines_def distinct_update)
  ultimately show ?thesis by (simp add: txbuf_refines_def)
qed

lemma remove_txs_state: "map_of (snd (remove_txs xs txs)) x = (if x \<in> set xs then None else map_of txs x)"
  by (induction xs arbitrary: txs) (auto simp: remove_tx_def delete_conv' split_beta)

lemma remove_txs_distinct:
  "distinct (map fst txs) \<Longrightarrow> distinct (map fst (snd (remove_txs xs txs)))"
  by (induction xs arbitrary: txs) (auto simp: remove_tx_def distinct_delete split_beta)

lemma tx_of_log_drop: "tx_of_log (log_drop S log) x = (if x \<in> S then [] else tx_of_log log x)"
  by (auto simp: tx_of_log_def log_take_def log_drop_def filter_empty_conv
      intro!: arg_cong [of _ _ "map snd"] filter_cong)

lemma remove_txs_refines:
  assumes "txbuf_refines b log"
  shows "txbuf_refines (b\<lparr>open_txs := snd (remove_txs xs (open_txs b))\<rparr>) (log_drop (set xs) log)"
proof -
  have "wal_ordered (log_drop (set xs) log)"
    using assms by (simp add: txbuf_refines_def log_drop_def wal_ordered_filter)
  moreover have "tx_holds [] None" by (simp add: tx_holds_def)
  ultimately show ?thesis
    using assms by (simp add: txbuf_refines_def remove_txs_state remove_txs_distinct tx_of_log_drop)
qed

fun ops_of :: "u32 list \<Rightarrow> txlog \<Rightarrow> PendingOp list" where
  "ops_of [] log = []"
| "ops_of (x # xs) log = tx_of_log log x @ ops_of xs (log_drop {x} log)"

lemma remove_txs_ops:
  "(\<And>x. tx_holds (tx_of_log log x) (map_of txs x)) \<Longrightarrow> fst (remove_txs xs txs) = ops_of xs log"
proof (induction xs arbitrary: txs log)
  case (Cons y xs)
  have "tx_holds (tx_of_log (log_drop {y} log) x) (map_of (AList.delete y txs) x)" for x
    using Cons.prems [of x] by (auto simp: tx_of_log_drop delete_conv' tx_holds_def)
  from Cons.IH [OF this] Cons.prems [of y] show ?case
    by (auto simp: remove_tx_def tx_holds_def split: prod.splits option.splits)
qed simp

lemma log_take_insert_mset:
  "mset (log_take (insert x S) log) = mset (tx_of_log log x) + mset (log_take S (log_drop {x} log))"
  by (induction log)
    (auto simp: log_take_def tx_of_log_def log_drop_def simp del: mset_map mset_filter)

lemma ops_of_mset: "mset (ops_of xs log) = mset (log_take (set xs) log)"
proof (induction xs arbitrary: log)
  case (Cons x xs)
  then show ?case by (simp add: log_take_insert_mset)
qed (simp add: log_take_def)

text \<open>Restricted to one LSN, both orders are the changes of one transaction.\<close>

lemma ops_of_filter:
  assumes "wal_ordered log"
  shows "filter (\<lambda>p. po_lsn p = k) (ops_of xs log) = filter (\<lambda>p. po_lsn p = k) (log_take (set xs) log)"
  using assms
proof (induction xs arbitrary: log)
  case Nil
  then show ?case by (simp add: log_take_def)
next
  case (Cons x xs)
  let ?k = "filter (\<lambda>p. po_lsn p = k)"
  have IH: "?k (ops_of xs (log_drop {x} log)) = ?k (log_take (set xs) (log_drop {x} log))"
    using Cons by (simp add: log_drop_def wal_ordered_filter)
  show ?case
  proof (cases "\<exists>e \<in> set log. fst e = x \<and> po_lsn (snd e) = k")
    case True
    then have only: "fst e = x" if "e \<in> set log" "po_lsn (snd e) = k" for e
      using wal_ordered_same [OF Cons.prems] that by metis
    then have "?k (log_take (set xs) (log_drop {x} log)) = []"
      by (fastforce simp: log_take_def log_drop_def filter_empty_conv)
    moreover have "filter (\<lambda>e. po_lsn (snd e) = k \<and> fst e \<in> insert x (set xs)) log
        = filter (\<lambda>e. po_lsn (snd e) = k \<and> fst e \<in> {x}) log"
      using only by (intro filter_cong) auto
    then have "?k (log_take (insert x (set xs)) log) = ?k (tx_of_log log x)"
      by (simp add: log_take_def tx_of_log_def filter_map o_def conj_commute)
    ultimately show ?thesis using IH by simp
  next
    case False
    then have "?k (tx_of_log log x) = []"
      by (auto simp: log_take_def tx_of_log_def filter_empty_conv)
    moreover have "filter (\<lambda>e. po_lsn (snd e) = k \<and> fst e \<in> insert x (set xs)) log
        = filter (\<lambda>e. po_lsn (snd e) = k \<and> fst e \<in> set xs \<and> fst e \<noteq> x) log"
      using False by (intro filter_cong) auto
    then have "?k (log_take (insert x (set xs)) log) = ?k (log_take (set xs) (log_drop {x} log))"
      by (simp add: log_take_def log_drop_def filter_map o_def conj_commute conj_left_commute)
    ultimately show ?thesis using IH by simp
  qed
qed

lemma sort_ops_of:
  assumes "wal_ordered log"
  shows "sort_key po_lsn (ops_of xs log) = log_take (set xs) log"
proof (rule properties_for_sort_key)
  show "mset (log_take (set xs) log) = mset (ops_of xs log)"
    by (simp add: ops_of_mset)
  show "filter (\<lambda>p. po_lsn k = po_lsn p) (log_take (set xs) log)
      = filter (\<lambda>p. po_lsn k = po_lsn p) (ops_of xs log)" for k
    using ops_of_filter [OF assms, of "po_lsn k" xs] by (simp add: eq_commute)
  have "sorted (map (po_lsn \<circ> snd) (filter (\<lambda>e. fst e \<in> set xs) log))"
    using wal_ordered_sorted [OF assms] by (rule sorted_filter)
  then show "sorted (map po_lsn (log_take (set xs) log))"
    by (simp add: log_take_def)
qed

lemma tx_commit_refines:
  assumes "txbuf_refines b log" and "tx_commit xid subs b = (ops, b')"
  shows "ops = log_take (insert xid (set subs)) log"
    and "txbuf_refines b' (log_drop (insert xid (set subs)) log)"
proof -
  obtain os txs where r: "remove_txs (xid # subs) (open_txs b) = (os, txs)" by fastforce
  have os: "os = ops_of (xid # subs) log"
    using remove_txs_ops [of log "open_txs b" "xid # subs"] assms(1) r by (simp add: txbuf_refines_def)
  have eq: "ops = sort_key po_lsn os" "b' = b\<lparr>open_txs := txs\<rparr>"
    using assms(2) r by (auto simp: tx_commit_def simp del: remove_txs.simps)
  show "ops = log_take (insert xid (set subs)) log"
    using sort_ops_of [of log "xid # subs"] assms(1) by (simp add: eq os txbuf_refines_def)
  show "txbuf_refines b' (log_drop (insert xid (set subs)) log)"
    using remove_txs_refines [OF assms(1), of "xid # subs"] r by (simp add: eq del: remove_txs.simps)
qed

lemma tx_abort_refines:
  assumes "txbuf_refines b log" and "tx_abort xid subs b = (n, b')"
  shows "n = length (log_take (insert xid (set subs)) log)"
    and "txbuf_refines b' (log_drop (insert xid (set subs)) log)"
proof -
  obtain os txs where r: "remove_txs (xid # subs) (open_txs b) = (os, txs)" by fastforce
  have os: "os = ops_of (xid # subs) log"
    using remove_txs_ops [of log "open_txs b" "xid # subs"] assms(1) r by (simp add: txbuf_refines_def)
  have eq: "n = length os" "b' = b\<lparr>open_txs := txs\<rparr>"
    using assms(2) r by (auto simp: tx_abort_def simp del: remove_txs.simps)
  show "n = length (log_take (insert xid (set subs)) log)"
    using ops_of_mset [of "xid # subs" log] by (metis eq(1) list.simps(15) os size_mset)
  show "txbuf_refines b' (log_drop (insert xid (set subs)) log)"
    using remove_txs_refines [OF assms(1), of "xid # subs"] r by (simp add: eq del: remove_txs.simps)
qed

section \<open>Pre-image lookup\<close>

text \<open>The version a list of changes leaves at an address.\<close>

fun version_step :: "nat \<Rightarrow> Ctid \<Rightarrow> PendingOp \<Rightarrow> RowVersion option \<Rightarrow> RowVersion option" where
  "version_step t c p v =
     (if po_table p \<noteq> t then v
      else case po_op p of
             Insert c' ver \<Rightarrow> if c' = c then Some ver else v
           | Update old c' ver \<Rightarrow> if c' = c then Some ver else if old = c then None else v
           | Delete c' _ \<Rightarrow> if c' = c then None else v)"

definition version_at :: "nat \<Rightarrow> Ctid \<Rightarrow> PendingOp list \<Rightarrow> RowVersion option" where
  "version_at t c ops = fold (version_step t c) ops None"

definition op_writes :: "nat \<Rightarrow> Ctid \<Rightarrow> PendingOp \<Rightarrow> bool" where
  "op_writes t c p \<longleftrightarrow> po_table p = t \<and> \<not> is_Delete (po_op p) \<and> op_ctid (po_op p) = c"

lemma map_of_overlay_apply:
  "map_of (overlay_apply (po_table p) (po_op p) ov) (t, c) = version_step t c p (map_of ov (t, c))"
  by (cases "po_op p") (auto simp: update_conv' delete_conv')

lemma map_of_overlay_of: "map_of (overlay_of ops) (t, c) = version_at t c ops"
proof -
  have "map_of (fold (\<lambda>p ov. overlay_apply (po_table p) (po_op p) ov) ops ov) (t, c)
      = fold (version_step t c) ops (map_of ov (t, c))" for ov
    by (induction ops arbitrary: ov) (simp_all add: map_of_overlay_apply del: version_step.simps)
  from this [of "[]"] show ?thesis
    by (simp add: overlay_of_def version_at_def)
qed

lemma version_at_None: "\<forall>p \<in> set ops. \<not> op_writes t c p \<Longrightarrow> version_at t c ops = None"
proof -
  have "version_step t c p None = None" if "\<not> op_writes t c p" for p
    using that by (cases "po_op p") (auto simp: op_writes_def)
  then show "\<forall>p \<in> set ops. \<not> op_writes t c p \<Longrightarrow> version_at t c ops = None"
    unfolding version_at_def by (induction ops) auto
qed

lemma find_map_unique:
  assumes "\<forall>x \<in> set xs. f x = None \<or> f x = Some y" and "\<exists>x \<in> set xs. f x = Some y"
  shows "find_map f xs = Some y"
  using assms by (induction xs) (auto split: option.splits)

lemma find_map_None: "\<forall>x \<in> set xs. f x = None \<Longrightarrow> find_map f xs = None"
  by (induction xs) auto

section \<open>The oldest open change\<close>

lemma fold_min_Min: "fold min xs x = Min (set (x # xs))" for x :: nat
  by (metis Min.set_eq_fold list.simps(15))

lemma min_list_opt_Some: "xs \<noteq> [] \<Longrightarrow> min_list_opt xs = Some (Min (set xs))"
  by (cases xs) (simp_all add: fold_min_Min del: fold.simps)

lemma oldest_first_lsn_log:
  assumes "txbuf_refines b log"
  shows "oldest_first_lsn b = (case log of [] \<Rightarrow> None | e # _ \<Rightarrow> Some (po_lsn (snd e)))"
proof -
  have holds: "tx_holds (tx_of_log log x) (map_of (open_txs b) x)" for x
    using assms by (simp add: txbuf_refines_def)
  have dist: "distinct (map fst (open_txs b))" and ord: "wal_ordered log"
    using assms by (simp_all add: txbuf_refines_def)
  let ?firsts = "map (\<lambda>tx. first_lsn (snd tx)) (open_txs b)"
  have tx: "tx_holds (tx_of_log log x) (Some t)" if "(x, t) \<in> set (open_txs b)" for x t
    using holds [of x] map_of_is_SomeI [OF dist that] by simp
  show ?thesis
  proof (cases log)
    case Nil
    then have "open_txs b = []"
      using tx by (cases "open_txs b") (auto simp: tx_of_log_def log_take_def tx_holds_def)
    with Nil show ?thesis by (simp add: oldest_first_lsn_def)
  next
    case (Cons e log')
    obtain x p where e: "e = (x, p)" by (cases e)
    obtain t where t: "map_of (open_txs b) x = Some t" "first_lsn t = po_lsn p"
      using holds [of x] Cons e
      by (auto simp: tx_of_log_def log_take_def tx_holds_def split: option.splits)
    have "po_lsn p \<le> l" if "l \<in> set ?firsts" for l
    proof -
      from that obtain y s where s: "(y, s) \<in> set (open_txs b)" "l = first_lsn s" by auto
      have "po_lsn (hd (tx_of_log log y)) = l" "tx_of_log log y \<noteq> []"
        using tx [OF s(1)] s(2) by (auto simp: tx_holds_def)
      then have "\<exists>q \<in> set (map snd log). po_lsn q = l"
        by (metis (no_types, lifting) filter_is_subset hd_in_set image_mono image_set log_take_def
            subset_iff tx_of_log_def)
      then show ?thesis
        using wal_ordered_sorted [OF ord] Cons e by auto
    qed
    moreover have "po_lsn p \<in> set ?firsts"
      using map_of_SomeD [OF t(1)] t(2) by force
    ultimately have "Min (set ?firsts) = po_lsn p"
      by (intro Min_eqI) auto
    moreover have "?firsts \<noteq> []"
      using t(1) by auto
    ultimately show ?thesis
      using Cons e by (simp add: oldest_first_lsn_def min_list_opt_Some)
  qed
qed

section \<open>The interface the engine relies on\<close>

datatype TxEvent =
    AddOp u32 lsn nat Op
  | CommitTx u32 "u32 list"
  | AbortTx u32 "u32 list"

text \<open>The abstract run: what each commit hands back, and the log left open.\<close>

fun log_run :: "TxEvent list \<Rightarrow> txlog \<Rightarrow> PendingOp list list \<times> txlog" where
  "log_run [] log = ([], log)"
| "log_run (AddOp x l t op # es) log =
     log_run es (log @ [(x, \<lparr>po_lsn = l, po_table = t, po_op = op\<rparr>)])"
| "log_run (CommitTx x subs # es) log =
     (let (outs, log') = log_run es (log_drop (insert x (set subs)) log)
      in (log_take (insert x (set subs)) log # outs, log'))"
| "log_run (AbortTx x subs # es) log = log_run es (log_drop (insert x (set subs)) log)"

fun wal_stream :: "TxEvent list \<Rightarrow> txlog \<Rightarrow> bool" where
  "wal_stream [] log = True"
| "wal_stream (AddOp x l t op # es) log =
     (wal_next log x l \<and> wal_stream es (log @ [(x, \<lparr>po_lsn = l, po_table = t, po_op = op\<rparr>)]))"
| "wal_stream (CommitTx x subs # es) log = wal_stream es (log_drop (insert x (set subs)) log)"
| "wal_stream (AbortTx x subs # es) log = wal_stream es (log_drop (insert x (set subs)) log)"

text \<open>The same events through the operations of a buffer.\<close>

fun tx_run ::
  "(u32 \<Rightarrow> lsn \<Rightarrow> nat \<Rightarrow> Op \<Rightarrow> 's \<Rightarrow> 's) \<Rightarrow> (u32 \<Rightarrow> u32 list \<Rightarrow> 's \<Rightarrow> PendingOp list \<times> 's) \<Rightarrow>
   (u32 \<Rightarrow> u32 list \<Rightarrow> 's \<Rightarrow> nat \<times> 's) \<Rightarrow> TxEvent list \<Rightarrow> 's \<Rightarrow> PendingOp list list \<times> 's" where
  "tx_run add com ab [] s = ([], s)"
| "tx_run add com ab (AddOp x l t op # es) s = tx_run add com ab es (add x l t op s)"
| "tx_run add com ab (CommitTx x subs # es) s =
     (let (ops, s') = com x subs s; (outs, s'') = tx_run add com ab es s' in (ops # outs, s''))"
| "tx_run add com ab (AbortTx x subs # es) s = tx_run add com ab es (snd (ab x subs s))"

locale tx_log_store =
  fixes empty :: "'s"
    and add :: "u32 \<Rightarrow> lsn \<Rightarrow> nat \<Rightarrow> Op \<Rightarrow> 's \<Rightarrow> 's"
    and commit :: "u32 \<Rightarrow> u32 list \<Rightarrow> 's \<Rightarrow> PendingOp list \<times> 's"
    and abort :: "u32 \<Rightarrow> u32 list \<Rightarrow> 's \<Rightarrow> nat \<times> 's"
    and oldest :: "'s \<Rightarrow> lsn option"
    and refines :: "'s \<Rightarrow> txlog \<Rightarrow> bool"
  assumes refines_empty: "refines empty []"
    and refines_add: "refines s log \<Longrightarrow> wal_next log x l \<Longrightarrow>
      refines (add x l t op s) (log @ [(x, \<lparr>po_lsn = l, po_table = t, po_op = op\<rparr>)])"
    and refines_commit: "refines s log \<Longrightarrow> commit x subs s = (ops, s') \<Longrightarrow>
      ops = log_take (insert x (set subs)) log \<and> refines s' (log_drop (insert x (set subs)) log)"
    and refines_abort: "refines s log \<Longrightarrow> abort x subs s = (n, s') \<Longrightarrow>
      n = length (log_take (insert x (set subs)) log) \<and>
      refines s' (log_drop (insert x (set subs)) log)"
    and refines_oldest: "refines s log \<Longrightarrow>
      oldest s = (case log of [] \<Rightarrow> None | e # _ \<Rightarrow> Some (po_lsn (snd e)))"
begin

lemma run_refines:
  "refines s log \<Longrightarrow> wal_stream es log \<Longrightarrow> tx_run add commit abort es s = (outs, s') \<Longrightarrow>
   \<exists>log'. log_run es log = (outs, log') \<and> refines s' log'"
proof (induction es arbitrary: s log outs s')
  case Nil
  then show ?case by simp
next
  case (Cons e es)
  show ?case
  proof (cases e)
    case (AddOp x l t op)
    then show ?thesis
      using Cons.IH [OF refines_add [OF Cons.prems(1)]] Cons.prems by auto
  next
    case (CommitTx x subs)
    with Cons.prems obtain ops s1 os where s1: "commit x subs s = (ops, s1)"
      "tx_run add commit abort es s1 = (os, s')" "outs = ops # os"
      by (auto split: prod.splits)
    note rc = refines_commit [OF Cons.prems(1) s1(1)]
    obtain log' where "log_run es (log_drop (insert x (set subs)) log) = (os, log')" "refines s' log'"
      using Cons.IH [OF conjunct2 [OF rc] _ s1(2)] Cons.prems(2) CommitTx by auto
    with CommitTx s1(3) rc show ?thesis by auto
  next
    case (AbortTx x subs)
    obtain n s1 where s1: "abort x subs s = (n, s1)" by fastforce
    from refines_abort [OF Cons.prems(1) s1] Cons AbortTx s1 show ?thesis by auto
  qed
qed

lemma run_oldest:
  assumes "wal_stream es []" and "tx_run add commit abort es empty = (outs, s)"
  shows "oldest s = (case snd (log_run es []) of [] \<Rightarrow> None | e # _ \<Rightarrow> Some (po_lsn (snd e)))"
  using run_refines [OF refines_empty assms] refines_oldest by fastforce

end

interpretation txbuf: tx_log_store txbuf_default add_op tx_commit tx_abort oldest_first_lsn txbuf_refines
proof (unfold_locales, goal_cases)
  case 1
  show ?case
    by (simp add: txbuf_refines_def txbuf_default_def wal_ordered_def tx_of_log_def log_take_def
        tx_holds_def)
next
  case 2
  then show ?case by (rule add_op_refines)
next
  case 3
  then show ?case by (blast dest: tx_commit_refines)
next
  case 4
  then show ?case by (blast dest: tx_abort_refines)
next
  case 5
  then show ?case by (rule oldest_first_lsn_log)
qed

section \<open>Properties\<close>

text \<open>
  C6 (refinement): transactional correctness. Feed the buffer any stream of changes, commits and
  aborts whose changes arrive in WAL order. What every commit hands back is exactly the changes
  that the committed transaction and its listed subtransactions made since they were opened, in
  WAL order, interleaved as the WAL interleaves them: changes of aborted, still open or unrelated
  transactions never appear, and none is lost or duplicated.
\<close>
theorem txbuf_commits_refine_log:
  assumes "wal_stream es []"
  shows "fst (tx_run add_op tx_commit tx_abort es txbuf_default) = fst (log_run es [])"
  using txbuf.run_refines [OF txbuf.refines_empty assms]
  by (metis fst_conv prod.collapse)

theorem txbuf_commits_refine_log_witness:
  "fst (tx_run add_op tx_commit tx_abort
     [AddOp 5 100 0 (Delete (1, 1) None), AddOp 6 110 0 (Delete (1, 2) None),
      AddOp 7 115 0 (Delete (1, 4) None), AddOp 5 120 0 (Delete (1, 3) None),
      AbortTx 7 [], CommitTx 5 [6]] txbuf_default) =
   [[\<lparr>po_lsn = 100, po_table = 0, po_op = Delete (1, 1) None\<rparr>,
     \<lparr>po_lsn = 110, po_table = 0, po_op = Delete (1, 2) None\<rparr>,
     \<lparr>po_lsn = 120, po_table = 0, po_op = Delete (1, 3) None\<rparr>]]"
  (is "fst (tx_run _ _ _ ?es _) = _")
proof -
  have "wal_stream ?es []"
    by (simp add: wal_next_def log_drop_def)
  from txbuf_commits_refine_log [OF this] show ?thesis
    by (simp add: log_take_def log_drop_def)
qed

text \<open>
  C11 (safety): the restart position covers every open change. After any WAL-ordered stream the
  first-change LSN of the oldest open transaction is the LSN of the earliest change still
  buffered, so resuming the WAL there replays every transaction in flight; it is absent exactly
  when nothing is buffered.
\<close>
theorem txbuf_restart_covers_open:
  assumes "wal_stream es []"
  shows "oldest_first_lsn (snd (tx_run add_op tx_commit tx_abort es txbuf_default)) =
     (case snd (log_run es []) of [] \<Rightarrow> None | e # _ \<Rightarrow> Some (po_lsn (snd e)))"
  using txbuf.run_oldest [OF assms] by (metis prod.collapse)

theorem txbuf_restart_covers_open_witness:
  "oldest_first_lsn (snd (tx_run add_op tx_commit tx_abort
     [AddOp 5 100 0 (Delete (1, 1) None), AddOp 6 110 0 (Delete (1, 2) None), CommitTx 5 []]
     txbuf_default)) = Some 110"
  (is "oldest_first_lsn (snd (tx_run _ _ _ ?es _)) = _")
proof -
  have "wal_stream ?es []"
    by (simp add: wal_next_def log_drop_def)
  from txbuf_restart_covers_open [OF this] show ?thesis
    by (simp add: log_take_def log_drop_def)
qed

text \<open>
  Pre-image lookup. If, among the buffered changes, only transaction \<open>x\<close> wrote
  the address (row locks give this), looking the address up across all open overlays returns the
  version the changes of \<open>x\<close> leave there, and nothing if they moved or deleted it, whatever the
  iteration order of the map of open transactions.
\<close>
theorem txbuf_lookup_unique_writer:
  assumes "txbuf_refines b log"
    and "\<forall>e \<in> set log. op_writes t c (snd e) \<longrightarrow> fst e = x"
  shows "lookup b t c = version_at t c (tx_of_log log x)"
proof -
  have dist: "distinct (map fst (open_txs b))"
    and holds: "\<And>y. tx_holds (tx_of_log log y) (map_of (open_txs b) y)"
    using assms(1) by (simp_all add: txbuf_refines_def)
  have ov: "map_of (tx_overlay tx) (t, c) = version_at t c (tx_of_log log y)"
    if "(y, tx) \<in> set (open_txs b)" for y tx
    using holds [of y] map_of_is_SomeI [OF dist that] by (simp add: tx_holds_def map_of_overlay_of)
  have other: "version_at t c (tx_of_log log y) = None" if "y \<noteq> x" for y
    using assms(2) that by (intro version_at_None) (auto simp: tx_of_log_def log_take_def)
  show ?thesis
  proof (cases "version_at t c (tx_of_log log x)")
    case None
    with ov other have "\<forall>tx \<in> set (open_txs b). map_of (tx_overlay (snd tx)) (t, c) = None"
      by (metis prod.collapse)
    with None show ?thesis by (simp add: lookup_def find_map_None)
  next
    case (Some v)
    then have "tx_of_log log x \<noteq> []" by (auto simp: version_at_def)
    then obtain tx where tx: "(x, tx) \<in> set (open_txs b)"
      using holds [of x] by (auto simp: tx_holds_def split: option.splits dest: map_of_SomeD)
    have "find_map (\<lambda>tx. map_of (tx_overlay (snd tx)) (t, c)) (open_txs b) = Some v"
    proof (rule find_map_unique)
      show "\<exists>tx \<in> set (open_txs b). map_of (tx_overlay (snd tx)) (t, c) = Some v"
        using ov [OF tx] Some tx by (metis snd_conv)
      show "\<forall>tx \<in> set (open_txs b). map_of (tx_overlay (snd tx)) (t, c) = None \<or>
          map_of (tx_overlay (snd tx)) (t, c) = Some v"
        using ov other Some by (metis prod.collapse)
    qed
    with Some show ?thesis by (simp add: lookup_def)
  qed
qed

theorem txbuf_lookup_unique_writer_witness:
  "lookup (add_op 5 100 0 (Insert (1, 1) \<lparr>rv_row = [], rv_attrs = None\<rparr>) txbuf_default) 0 (1, 1)
   = Some \<lparr>rv_row = [], rv_attrs = None\<rparr>"
proof -
  have "txbuf_refines (add_op 5 100 0 (Insert (1, 1) \<lparr>rv_row = [], rv_attrs = None\<rparr>) txbuf_default)
    ([] @ [(5, \<lparr>po_lsn = 100, po_table = 0, po_op = Insert (1, 1) \<lparr>rv_row = [], rv_attrs = None\<rparr>\<rparr>)])"
    by (rule txbuf.refines_add [OF txbuf.refines_empty]) (simp add: wal_next_def)
  from txbuf_lookup_unique_writer [OF this, of 0 "(1, 1)" 5] show ?thesis
    by (simp add: tx_of_log_def log_take_def version_at_def)
qed

text \<open>
  a row address packed into the 64-bit \<open>_ltap_ctid\<close> column unpacks to itself,
  for every block number and offset, and the packed value is never negative, so the signed
  column orders addresses as block-then-offset.
\<close>
theorem ctid_roundtrip: "unpack_ctid (pack_ctid c) = c \<and> 0 \<le> sint (pack_ctid c)"
proof -
  obtain blk off where c: "c = (blk, off)" by (cases c)
  have "\<not> bit (pack_ctid c) 63"
    by (auto simp: c pack_ctid_def bit_simps dest: bit_imp_le_length)
  then show ?thesis
    using bit_last_iff [of "pack_ctid c"] by (simp add: pack_unpack)
qed

end
