(* ===== verification/Sink.thy ===== *)
theory Sink
  imports Tail Heap Txbuf "HOL-Library.Product_Lexorder"
begin

text \<open>
  \<^verbatim>\<open>src/sink.rs\<close>: the Delta Lake sink. A sink maps the live columns of a table to the
  columns of its Delta table, turns change rows into record batches, appends them with the LSN
  watermarks, rebuilds the pre-image mirror from the change log and compacts the log. The Delta and
  Arrow libraries are the argument \<open>lib\<close>; what a theorem relies on of them is a hypothesis on it.
\<close>

section \<open>The latest entry per key\<close>

text \<open>
  Keeping, per key, the entry of the greatest order seen so far; a later entry replaces an earlier
  one only when its order is strictly greater.
\<close>

definition keep_latest :: "'k \<times> 'o::linorder \<times> 'a \<Rightarrow> ('k \<times> 'o \<times> 'a) list \<Rightarrow> ('k \<times> 'o \<times> 'a) list" where
  "keep_latest e m = (case e of (k, ord, a) \<Rightarrow>
     (case map_of m k of
        Some (ord', _) \<Rightarrow> if ord \<le> ord' then m else AList.update k (ord, a) m
      | None \<Rightarrow> AList.update k (ord, a) m))"

definition latest_at :: "('k \<times> 'o::linorder \<times> 'a) list \<Rightarrow> 'k \<Rightarrow> nat \<Rightarrow> bool" where
  "latest_at es k i \<longleftrightarrow> i < length es \<and> fst (es ! i) = k \<and>
     (\<forall>j < length es. fst (es ! j) = k \<longrightarrow>
        fst (snd (es ! j)) \<le> fst (snd (es ! i)) \<and> (j < i \<longrightarrow> fst (snd (es ! j)) < fst (snd (es ! i))))"

lemma latest_at_append:
  "latest_at (es @ [e]) k i \<longleftrightarrow>
     (if i < length es
      then latest_at es k i \<and> (fst e = k \<longrightarrow> fst (snd e) \<le> fst (snd (es ! i)))
      else i = length es \<and> fst e = k \<and> (\<forall>j < length es. fst (es ! j) = k \<longrightarrow> fst (snd (es ! j)) < fst (snd e)))"
  by (auto simp: latest_at_def nth_append less_Suc_eq)

lemma keep_latest_map_of:
  "map_of (keep_latest (k, ord, a) m) =
     (case map_of m k of
        Some (ord', _) \<Rightarrow> if ord \<le> ord' then map_of m else (map_of m)(k \<mapsto> (ord, a))
      | None \<Rightarrow> (map_of m)(k \<mapsto> (ord, a)))"
  by (auto simp: keep_latest_def update_conv' split: option.split)

lemma fold_keep_latest_None: "map_of (fold keep_latest es []) k = None \<longleftrightarrow> k \<notin> fst ` set es"
proof (induction es rule: rev_induct)
  case (snoc e es)
  obtain k' ord a where "e = (k', ord, a)" by (cases e)
  with snoc show ?case
    by (auto simp: keep_latest_map_of split: option.splits if_splits)
qed simp

lemma fold_keep_latest:
  "map_of (fold keep_latest es []) k = Some oa \<Longrightarrow> \<exists>i. latest_at es k i \<and> es ! i = (k, oa)"
proof (induction es arbitrary: oa rule: rev_induct)
  case (snoc e es)
  let ?m = "fold keep_latest es []"
  obtain k' ord a where e: "e = (k', ord, a)" by (cases e)
  show ?case
  proof (cases "k' = k")
    case False
    then have "map_of ?m k = Some oa"
      using snoc.prems by (auto simp: e keep_latest_map_of split: option.splits if_splits)
    then obtain i where "latest_at es k i" "es ! i = (k, oa)" using snoc.IH by blast
    then show ?thesis using False
      by (intro exI [of _ i]) (auto simp: latest_at_append nth_append e latest_at_def)
  next
    case True
    show ?thesis
    proof (cases "map_of ?m k")
      case None
      then have "\<forall>j < length es. fst (es ! j) \<noteq> k" by (auto simp: fold_keep_latest_None)
      then show ?thesis using snoc.prems None True
        by (intro exI [of _ "length es"]) (auto simp: latest_at_append e keep_latest_map_of)
    next
      case (Some oa')
      obtain ord' a' where oa': "oa' = (ord', a')" by (cases oa')
      from snoc.IH [OF Some] obtain i where i: "latest_at es k i" "es ! i = (k, oa')" by blast
      show ?thesis
      proof (cases "ord \<le> ord'")
        case True
        then show ?thesis using i snoc.prems Some oa' \<open>k' = k\<close>
          by (intro exI [of _ i]) (auto simp: latest_at_append nth_append e keep_latest_map_of latest_at_def)
      next
        case False
        have "fst (snd (es ! j)) < ord" if "j < length es" "fst (es ! j) = k" for j
          using i that False oa' by (force simp: latest_at_def)
        then show ?thesis using snoc.prems Some oa' \<open>k' = k\<close> False
          by (intro exI [of _ "length es"]) (auto simp: latest_at_append e keep_latest_map_of)
      qed
    qed
  qed
qed simp

lemma fold_keep_latest_distinct: "distinct (map fst m) \<Longrightarrow> distinct (map fst (fold keep_latest es m))"
  by (induction es arbitrary: m) (auto simp: keep_latest_def distinct_update split: option.split prod.split)

section \<open>Column types\<close>

text \<open>The primitives of the Delta protocol the program names; \<open>OtherPrimitive\<close> is any other.\<close>

datatype PrimitiveType = PBoolean | PShort | PInteger | PLong | PFloat | PDouble | PString | PBinary
  | PDate | PTimestampNtz | PTimestamp | OtherPrimitive string

datatype DeltaType = Primitive PrimitiveType | OtherType string

datatype ArrowType = ABoolean | AInt16 | AInt32 | AInt64 | AFloat32 | AFloat64 | AUtf8 | ABinary
  | ADate32 | ATimestampMicros "string option"

definition pg_from_delta :: "DeltaType \<Rightarrow> PgType option" where
  "pg_from_delta dt = (case dt of
       Primitive p \<Rightarrow> (case p of
           PBoolean \<Rightarrow> Some Bool
         | PShort \<Rightarrow> Some Int2
         | PInteger \<Rightarrow> Some Int4
         | PLong \<Rightarrow> Some Int8
         | PFloat \<Rightarrow> Some Float4
         | PDouble \<Rightarrow> Some Float8
         | PString \<Rightarrow> Some Text
         | PBinary \<Rightarrow> Some Bytea
         | PDate \<Rightarrow> Some Date
         | PTimestampNtz \<Rightarrow> Some Timestamp
         | PTimestamp \<Rightarrow> Some TimestampTz
         | OtherPrimitive _ \<Rightarrow> None)
     | OtherType _ \<Rightarrow> None)"

definition delta_type :: "PgType \<Rightarrow> DeltaType" where
  "delta_type ty = Primitive (case ty of
       Bool \<Rightarrow> PBoolean
     | Int2 \<Rightarrow> PShort
     | Int4 \<Rightarrow> PInteger
     | Int8 \<Rightarrow> PLong
     | Float4 \<Rightarrow> PFloat
     | Float8 \<Rightarrow> PDouble
     | Text \<Rightarrow> PString | Uuid \<Rightarrow> PString | Numeric \<Rightarrow> PString | Jsonb \<Rightarrow> PString
     | Bytea \<Rightarrow> PBinary
     | Date \<Rightarrow> PDate
     | Timestamp \<Rightarrow> PTimestampNtz
     | TimestampTz \<Rightarrow> PTimestamp)"

definition arrow_type :: "PgType \<Rightarrow> ArrowType" where
  "arrow_type ty = (case ty of
       Bool \<Rightarrow> ABoolean
     | Int2 \<Rightarrow> AInt16
     | Int4 \<Rightarrow> AInt32
     | Int8 \<Rightarrow> AInt64
     | Float4 \<Rightarrow> AFloat32
     | Float8 \<Rightarrow> AFloat64
     | Text \<Rightarrow> AUtf8 | Uuid \<Rightarrow> AUtf8 | Numeric \<Rightarrow> AUtf8 | Jsonb \<Rightarrow> AUtf8
     | Bytea \<Rightarrow> ABinary
     | Date \<Rightarrow> ADate32
     | Timestamp \<Rightarrow> ATimestampMicros None
     | TimestampTz \<Rightarrow> ATimestampMicros (Some ''UTC''))"

section \<open>Rows, columns, batches\<close>

definition LSN_COL :: string where "LSN_COL = ''_ltap_lsn''"
definition SEQ_COL :: string where "SEQ_COL = ''_ltap_seq''"
definition DELETED_COL :: string where "DELETED_COL = ''_ltap_deleted''"
definition CTID_COL :: string where "CTID_COL = ''_ltap_ctid''"
definition TXN_COMMIT :: string where "TXN_COMMIT = ''open-ltap.commit''"
definition TXN_RESTART :: string where "TXN_RESTART = ''open-ltap.restart''"
definition TXN_FILENODE :: string where "TXN_FILENODE = ''open-ltap.filenode''"

record EmitRow =
  er_lsn :: lsn
  er_seq :: nat
  er_deleted :: bool
  er_ctid :: Ctid
  er_row :: Row

record ResumeState =
  rs_commit :: "lsn option"
  rs_restart :: "lsn option"
  rs_filenode :: "u32 option"

record DeltaCol =
  dc_col :: Col
  dc_live :: "nat option"

record ArrowField =
  af_name :: string
  af_type :: ArrowType
  af_nullable :: bool

record StructField =
  sf_name :: string
  sf_type :: DeltaType
  sf_nullable :: bool

text \<open>Arrow arrays by element type, and a record batch: its schema and one array per field.\<close>

datatype Array =
    BooleanArray "bool option list"
  | Int16Array "i16 option list"
  | Int32Array "i32 option list"
  | Int64Array "i64 option list"
  | Float32Array "u32 option list"
  | Float64Array "u64 option list"
  | StringArray "string option list"
  | BinaryArray "bytes option list"
  | Date32Array "i32 option list"
  | TimestampMicrosArray "string option" "i64 option list"

record RecordBatch =
  rb_schema :: "ArrowField list"
  rb_columns :: "Array list"

fun array_type :: "Array \<Rightarrow> ArrowType" where
  "array_type (BooleanArray xs) = ABoolean"
| "array_type (Int16Array xs) = AInt16"
| "array_type (Int32Array xs) = AInt32"
| "array_type (Int64Array xs) = AInt64"
| "array_type (Float32Array xs) = AFloat32"
| "array_type (Float64Array xs) = AFloat64"
| "array_type (StringArray xs) = AUtf8"
| "array_type (BinaryArray xs) = ABinary"
| "array_type (Date32Array xs) = ADate32"
| "array_type (TimestampMicrosArray tz xs) = ATimestampMicros tz"

fun validity :: "Array \<Rightarrow> bool list" where
  "validity (BooleanArray xs) = map (\<lambda>x. x \<noteq> None) xs"
| "validity (Int16Array xs) = map (\<lambda>x. x \<noteq> None) xs"
| "validity (Int32Array xs) = map (\<lambda>x. x \<noteq> None) xs"
| "validity (Int64Array xs) = map (\<lambda>x. x \<noteq> None) xs"
| "validity (Float32Array xs) = map (\<lambda>x. x \<noteq> None) xs"
| "validity (Float64Array xs) = map (\<lambda>x. x \<noteq> None) xs"
| "validity (StringArray xs) = map (\<lambda>x. x \<noteq> None) xs"
| "validity (BinaryArray xs) = map (\<lambda>x. x \<noteq> None) xs"
| "validity (Date32Array xs) = map (\<lambda>x. x \<noteq> None) xs"
| "validity (TimestampMicrosArray tz xs) = map (\<lambda>x. x \<noteq> None) xs"

definition num_rows :: "RecordBatch \<Rightarrow> nat" where
  "num_rows b = (case rb_columns b of [] \<Rightarrow> 0 | a # _ \<Rightarrow> length (validity a))"

fun new_null_array :: "ArrowType \<Rightarrow> nat \<Rightarrow> Array" where
  "new_null_array ABoolean n = BooleanArray (replicate n None)"
| "new_null_array AInt16 n = Int16Array (replicate n None)"
| "new_null_array AInt32 n = Int32Array (replicate n None)"
| "new_null_array AInt64 n = Int64Array (replicate n None)"
| "new_null_array AFloat32 n = Float32Array (replicate n None)"
| "new_null_array AFloat64 n = Float64Array (replicate n None)"
| "new_null_array AUtf8 n = StringArray (replicate n None)"
| "new_null_array ABinary n = BinaryArray (replicate n None)"
| "new_null_array ADate32 n = Date32Array (replicate n None)"
| "new_null_array (ATimestampMicros tz) n = TimestampMicrosArray tz (replicate n None)"

text \<open>
  What the sink uses of the Delta and Arrow libraries, over an opaque table \<open>'d\<close>: opening and
  creating a table, its schema, the version of an application transaction, a metadata commit, an
  append of one batch with its transactions, the record batches of every active file, the commit
  that replaces every file, vacuum, building, concatenating and gathering batches, and what reading
  a null slot gives (Arrow leaves that open).
\<close>

record 'd DeltaLib =
  lib_open :: "string \<Rightarrow> 'd option result"
  lib_create :: "string \<Rightarrow> string \<Rightarrow> StructField list \<Rightarrow> 'd result"
  lib_fields :: "'d \<Rightarrow> StructField list option"
  lib_txn :: "'d \<Rightarrow> string \<Rightarrow> i64 option result"
  lib_metadata :: "StructField list \<Rightarrow> 'd \<Rightarrow> 'd result"
  lib_append :: "RecordBatch \<Rightarrow> (string \<times> i64) list \<Rightarrow> 'd \<Rightarrow> (i64 \<times> 'd) result"
  lib_files :: "'d \<Rightarrow> RecordBatch list list result"
  lib_replace :: "RecordBatch option \<Rightarrow> (string \<times> i64) list \<Rightarrow> 'd \<Rightarrow> 'd result"
  lib_vacuum :: "nat \<Rightarrow> 'd \<Rightarrow> (nat \<times> 'd) result"
  lib_try_new :: "ArrowField list \<Rightarrow> Array list \<Rightarrow> RecordBatch result"
  lib_concat :: "ArrowField list \<Rightarrow> RecordBatch list \<Rightarrow> RecordBatch result"
  lib_take :: "Array \<Rightarrow> u32 list \<Rightarrow> Array result"
  lib_null_i64 :: i64
  lib_null_bool :: bool

record 'd DeltaSink =
  ds_table :: 'd
  ds_arrow_schema :: "ArrowField list"
  ds_cols :: "DeltaCol list"
  ds_dirty :: bool

definition meta_arrow_fields :: "ArrowField list" where
  "meta_arrow_fields =
     [\<lparr>af_name = LSN_COL, af_type = AInt64, af_nullable = False\<rparr>,
      \<lparr>af_name = SEQ_COL, af_type = AInt64, af_nullable = False\<rparr>,
      \<lparr>af_name = DELETED_COL, af_type = ABoolean, af_nullable = False\<rparr>,
      \<lparr>af_name = CTID_COL, af_type = AInt64, af_nullable = False\<rparr>]"

definition build_arrow_schema :: "DeltaCol list \<Rightarrow> ArrowField list" where
  "build_arrow_schema dcs =
     map (\<lambda>dc. \<lparr>af_name = col_name (dc_col dc), af_type = arrow_type (col_ty (dc_col dc)), af_nullable = True\<rparr>) dcs @
     meta_arrow_fields"

definition struct_fields :: "Col list \<Rightarrow> StructField list" where
  "struct_fields cs =
     map (\<lambda>c. \<lparr>sf_name = col_name c, sf_type = delta_type (col_ty c), sf_nullable = True\<rparr>) cs @
     [\<lparr>sf_name = LSN_COL, sf_type = Primitive PLong, sf_nullable = False\<rparr>,
      \<lparr>sf_name = SEQ_COL, sf_type = Primitive PLong, sf_nullable = False\<rparr>,
      \<lparr>sf_name = DELETED_COL, sf_type = Primitive PBoolean, sf_nullable = False\<rparr>,
      \<lparr>sf_name = CTID_COL, sf_type = Primitive PLong, sf_nullable = False\<rparr>]"

section \<open>Opening and evolving\<close>

text \<open>
  Types are compared by their Delta representation: \<^verbatim>\<open>uuid\<close> and \<^verbatim>\<open>numeric\<close> are
  stored as strings.
\<close>

definition type_conflict :: "Col list \<Rightarrow> nat option \<Rightarrow> PgType \<Rightarrow> bool" where
  "type_conflict cs lv ty = (case lv of
       Some li \<Rightarrow> delta_type (col_ty (cs ! li)) \<noteq> delta_type ty
     | None \<Rightarrow> False)"

text \<open>The user columns of an existing table, each with its source among the live columns.\<close>

fun existing_cols :: "Col list \<Rightarrow> StructField list \<Rightarrow> DeltaCol list result" where
  "existing_cols cs [] = Ok []"
| "existing_cols cs (f # fs) =
     (if take 6 (sf_name f) = ''_ltap_'' then existing_cols cs fs
      else
        rbind (ok_or (pg_from_delta (sf_type f)) (Bail ''Delta column has an unsupported type'')) (\<lambda>ty.
        let lv = position (\<lambda>c. col_name c = sf_name f) cs in
        if type_conflict cs lv ty
        then Err (Bail ''column changed type'')
        else rbind (existing_cols cs fs) (\<lambda>dcs.
          Ok (\<lparr>dc_col = \<lparr>col_name = sf_name f, col_ty = ty\<rparr>, dc_live = lv\<rparr> # dcs))))"

text \<open>Adding the live columns the table does not have; the flag is set when there is one.\<close>

fun add_missing :: "(nat \<times> Col) list \<Rightarrow> DeltaCol list \<Rightarrow> bool \<Rightarrow> DeltaCol list \<times> bool" where
  "add_missing [] dcs dirty = (dcs, dirty)"
| "add_missing ((li, c) # cs) dcs dirty =
     (if list_ex (\<lambda>dc. col_name (dc_col dc) = col_name c) dcs then add_missing cs dcs dirty
      else add_missing cs (dcs @ [\<lparr>dc_col = c, dc_live = Some li\<rparr>]) True)"

definition link_sink :: "'d \<Rightarrow> Col list \<Rightarrow> DeltaCol list \<Rightarrow> bool \<Rightarrow> 'd DeltaSink" where
  "link_sink t cs dcs dirty =
     (case add_missing (List.enumerate 0 cs) dcs dirty of (dcs', dirty') \<Rightarrow>
        \<lparr>ds_table = t, ds_arrow_schema = build_arrow_schema dcs', ds_cols = dcs', ds_dirty = dirty'\<rparr>)"

definition open_or_create :: "'d DeltaLib \<Rightarrow> string \<Rightarrow> TableDesc \<Rightarrow> 'd DeltaSink result" where
  "open_or_create lib uri desc =
     rbind (lib_open lib uri) (\<lambda>opened.
     rbind (case opened of Some t \<Rightarrow> Ok t
            | None \<Rightarrow> lib_create lib uri (td_name desc) (struct_fields (cols desc))) (\<lambda>t.
     rbind (case lib_fields lib t of Some fs \<Rightarrow> existing_cols (cols desc) fs | None \<Rightarrow> Ok []) (\<lambda>dcs.
       Ok (link_sink t (cols desc) dcs False))))"

text \<open>
  \<^verbatim>\<open>evolve\<close> updates the sources in place, so a type conflict leaves the columns up to and
  including the conflicting one updated.
\<close>

fun relink :: "Col list \<Rightarrow> DeltaCol list \<Rightarrow> unit result \<times> DeltaCol list" where
  "relink cs [] = (Ok (), [])"
| "relink cs (dc # dcs) =
     (let lv = position (\<lambda>c. col_name c = col_name (dc_col dc)) cs;
          dc' = dc\<lparr>dc_live := lv\<rparr>
      in if type_conflict cs lv (col_ty (dc_col dc))
         then (Err (Bail ''column changed type''), dc' # dcs)
         else (case relink cs dcs of (r, dcs') \<Rightarrow> (r, dc' # dcs')))"

definition evolve :: "Col list \<Rightarrow> 'd DeltaSink \<Rightarrow> unit result \<times> 'd DeltaSink" where
  "evolve cs s =
     (case relink cs (ds_cols s) of
        (Inl e, dcs) \<Rightarrow> (Err e, s\<lparr>ds_cols := dcs\<rparr>)
      | (Inr u, dcs) \<Rightarrow> (Ok (), link_sink (ds_table s) cs dcs (ds_dirty s)))"

definition schema_added_columns :: "'d DeltaSink \<Rightarrow> bool" where
  "schema_added_columns s = ds_dirty s"

section \<open>Watermarks\<close>

definition resume_state :: "'d DeltaLib \<Rightarrow> 'd DeltaSink \<Rightarrow> ResumeState result" where
  "resume_state lib s =
     (case lib_fields lib (ds_table s) of
        None \<Rightarrow> Ok \<lparr>rs_commit = None, rs_restart = None, rs_filenode = None\<rparr>
      | Some _ \<Rightarrow>
          rbind (lib_txn lib (ds_table s) TXN_COMMIT) (\<lambda>c.
          rbind (lib_txn lib (ds_table s) TXN_RESTART) (\<lambda>r.
          rbind (lib_txn lib (ds_table s) TXN_FILENODE) (\<lambda>f.
            Ok \<lparr>rs_commit = map_option unat c, rs_restart = map_option unat r,
                rs_filenode = map_option ucast f\<rparr>))))"

section \<open>Building a batch\<close>

text \<open>\<^verbatim>\<open>col_vals!\<close>: the values of one live column, of one variant; anything else is NULL.\<close>

definition col_vals :: "nat \<Rightarrow> (Value \<Rightarrow> 'a option) \<Rightarrow> EmitRow list \<Rightarrow> 'a option list" where
  "col_vals li variant rows =
     map (\<lambda>e. case get (er_row e) li of Some (Some v) \<Rightarrow> variant v | _ \<Rightarrow> None) rows"

fun as_bool :: "Value \<Rightarrow> bool option" where "as_bool (VBool b) = Some b" | "as_bool _ = None"
fun as_i16 :: "Value \<Rightarrow> i16 option" where "as_i16 (VI16 x) = Some x" | "as_i16 _ = None"
fun as_i32 :: "Value \<Rightarrow> i32 option" where "as_i32 (VI32 x) = Some x" | "as_i32 _ = None"
fun as_i64 :: "Value \<Rightarrow> i64 option" where "as_i64 (VI64 x) = Some x" | "as_i64 _ = None"
fun as_f32 :: "Value \<Rightarrow> u32 option" where "as_f32 (VF32 x) = Some x" | "as_f32 _ = None"
fun as_f64 :: "Value \<Rightarrow> u64 option" where "as_f64 (VF64 x) = Some x" | "as_f64 _ = None"
fun as_text :: "Value \<Rightarrow> string option" where "as_text (VText s) = Some s" | "as_text _ = None"
fun as_raw :: "Value \<Rightarrow> bytes option" where "as_raw (VBytes b) = Some b" | "as_raw _ = None"

definition col_array :: "DeltaCol \<Rightarrow> EmitRow list \<Rightarrow> Array" where
  "col_array dc rows = (case dc_live dc of
       None \<Rightarrow> new_null_array (arrow_type (col_ty (dc_col dc))) (length rows)
     | Some li \<Rightarrow> (case col_ty (dc_col dc) of
           Bool \<Rightarrow> BooleanArray (col_vals li as_bool rows)
         | Int2 \<Rightarrow> Int16Array (col_vals li as_i16 rows)
         | Int4 \<Rightarrow> Int32Array (col_vals li as_i32 rows)
         | Int8 \<Rightarrow> Int64Array (col_vals li as_i64 rows)
         | Float4 \<Rightarrow> Float32Array (col_vals li as_f32 rows)
         | Float8 \<Rightarrow> Float64Array (col_vals li as_f64 rows)
         | Text \<Rightarrow> StringArray (col_vals li as_text rows)
         | Uuid \<Rightarrow> StringArray (col_vals li as_text rows)
         | Numeric \<Rightarrow> StringArray (col_vals li as_text rows)
         | Jsonb \<Rightarrow> StringArray (col_vals li as_text rows)
         | Bytea \<Rightarrow> BinaryArray (col_vals li as_raw rows)
         | Date \<Rightarrow> Date32Array (col_vals li as_i32 rows)
         | Timestamp \<Rightarrow> TimestampMicrosArray None (col_vals li as_i64 rows)
         | TimestampTz \<Rightarrow> TimestampMicrosArray (Some ''UTC'') (col_vals li as_i64 rows)))"

definition meta_arrays :: "EmitRow list \<Rightarrow> Array list" where
  "meta_arrays rows =
     [Int64Array (map (\<lambda>e. Some (word_of_nat (er_lsn e))) rows),
      Int64Array (map (\<lambda>e. Some (word_of_nat (er_seq e))) rows),
      BooleanArray (map (\<lambda>e. Some (er_deleted e)) rows),
      Int64Array (map (\<lambda>e. Some (pack_ctid (er_ctid e))) rows)]"

definition make_batch :: "'d DeltaLib \<Rightarrow> 'd DeltaSink \<Rightarrow> EmitRow list \<Rightarrow> RecordBatch result" where
  "make_batch lib s rows =
     lib_try_new lib (ds_arrow_schema s) (map (\<lambda>dc. col_array dc rows) (ds_cols s) @ meta_arrays rows)"

section \<open>Appending\<close>

text \<open>The schema commit, then the data commit with its watermarks; a failure in between keeps what was done.\<close>

definition commit_schema :: "'d DeltaLib \<Rightarrow> 'd DeltaSink \<Rightarrow> 'd DeltaSink result" where
  "commit_schema lib s =
     (if \<not> ds_dirty s then Ok s
      else rbind (lib_metadata lib (struct_fields (map dc_col (ds_cols s))) (ds_table s)) (\<lambda>t.
        Ok (s\<lparr>ds_table := t, ds_dirty := False\<rparr>)))"

definition watermarks :: "lsn \<Rightarrow> lsn \<Rightarrow> u32 \<Rightarrow> (string \<times> i64) list" where
  "watermarks commit_lsn restart_lsn filenode =
     [(TXN_COMMIT, word_of_nat commit_lsn), (TXN_RESTART, word_of_nat restart_lsn), (TXN_FILENODE, ucast filenode)]"

definition sink_append ::
  "'d DeltaLib \<Rightarrow> EmitRow list \<Rightarrow> lsn \<Rightarrow> lsn \<Rightarrow> u32 \<Rightarrow> 'd DeltaSink \<Rightarrow> i64 result \<times> 'd DeltaSink" where
  "sink_append lib rows commit_lsn restart_lsn filenode s =
     (case make_batch lib s rows of
        Inl e \<Rightarrow> (Err e, s)
      | Inr b \<Rightarrow> (case commit_schema lib s of
          Inl e \<Rightarrow> (Err e, s)
        | Inr s' \<Rightarrow> (case lib_append lib b (watermarks commit_lsn restart_lsn filenode) (ds_table s') of
            Inl e \<Rightarrow> (Err e, s')
          | Inr (v, t) \<Rightarrow> (Ok v, s'\<lparr>ds_table := t\<rparr>))))"

section \<open>Rebuilding the mirror\<close>

definition unwrap_none :: error where
  "unwrap_none = Panic ''called `Option::unwrap()` on a `None` value''"

definition column_index :: "RecordBatch \<Rightarrow> string \<Rightarrow> nat option" where
  "column_index b name = position (\<lambda>f. af_name f = name) (rb_schema b)"

definition batch_column :: "RecordBatch \<Rightarrow> string \<Rightarrow> Array result" where
  "batch_column b name =
     rbind (ok_or (column_index b name) (Bail ''no such column'')) (\<lambda>ci. index (rb_columns b) ci)"

fun downcast_i64 :: "Array \<Rightarrow> i64 option list result" where
  "downcast_i64 (Int64Array xs) = Ok xs" | "downcast_i64 _ = Err (Bail ''bad column type'')"
fun downcast_bool :: "Array \<Rightarrow> bool option list result" where
  "downcast_bool (BooleanArray xs) = Ok xs" | "downcast_bool _ = Err (Bail ''bad column type'')"

definition slot :: "'a \<Rightarrow> 'a option list \<Rightarrow> nat \<Rightarrow> 'a" where
  "slot null xs i = (case xs ! i of Some x \<Rightarrow> x | None \<Rightarrow> null)"

definition array_null :: "Array \<Rightarrow> nat \<Rightarrow> bool" where
  "array_null a i = (\<not> validity a ! i)"

text \<open>\<^verbatim>\<open>any.downcast_ref().unwrap().value(i)\<close> at a slot that is not null, by the column's type.\<close>

definition mirror_value :: "PgType \<Rightarrow> Array \<Rightarrow> nat \<Rightarrow> Value option result" where
  "mirror_value ty a i = (case (arrow_type ty, a) of
       (ABoolean, BooleanArray xs) \<Rightarrow> Ok (map_option VBool (xs ! i))
     | (AInt16, Int16Array xs) \<Rightarrow> Ok (map_option VI16 (xs ! i))
     | (AInt32, Int32Array xs) \<Rightarrow> Ok (map_option VI32 (xs ! i))
     | (AInt64, Int64Array xs) \<Rightarrow> Ok (map_option VI64 (xs ! i))
     | (AFloat32, Float32Array xs) \<Rightarrow> Ok (map_option VF32 (xs ! i))
     | (AFloat64, Float64Array xs) \<Rightarrow> Ok (map_option VF64 (xs ! i))
     | (AUtf8, StringArray xs) \<Rightarrow> Ok (map_option VText (xs ! i))
     | (ABinary, BinaryArray xs) \<Rightarrow> Ok (map_option VBytes (xs ! i))
     | (ADate32, Date32Array xs) \<Rightarrow> Ok (map_option VI32 (xs ! i))
     | (ATimestampMicros _, TimestampMicrosArray _ xs) \<Rightarrow> Ok (map_option VI64 (xs ! i))
     | _ \<Rightarrow> Err unwrap_none)"

definition mirror_cell :: "RecordBatch \<Rightarrow> nat \<Rightarrow> Col \<Rightarrow> Value option result" where
  "mirror_cell b i c = (case column_index b (col_name c) of
       None \<Rightarrow> Ok None
     | Some ci \<Rightarrow> rbind (index (rb_columns b) ci) (\<lambda>a.
         if array_null a i then Ok None else mirror_value (col_ty c) a i))"

type_synonym latest_rows = "(Ctid \<times> (int \<times> int) \<times> bool \<times> Row) list"

text \<open>The row loop over one batch: a row that is not newer than the one kept is skipped undecoded.\<close>

fun mirror_scan ::
  "TableDesc \<Rightarrow> RecordBatch \<Rightarrow> (nat \<Rightarrow> Ctid) \<Rightarrow> (nat \<Rightarrow> int \<times> int) \<Rightarrow> (nat \<Rightarrow> bool) \<Rightarrow> nat list \<Rightarrow>
   latest_rows \<Rightarrow> latest_rows result" where
  "mirror_scan desc b key ord del [] m = Ok m"
| "mirror_scan desc b key ord del (i # is) m =
     (if (case map_of m (key i) of Some (ord', _) \<Rightarrow> ord i \<le> ord' | None \<Rightarrow> False)
      then mirror_scan desc b key ord del is m
      else rbind (rmap (mirror_cell b i) (cols desc)) (\<lambda>row.
        mirror_scan desc b key ord del is (AList.update (key i) (ord i, del i, row) m)))"

definition mirror_batch :: "'d DeltaLib \<Rightarrow> TableDesc \<Rightarrow> RecordBatch \<Rightarrow> latest_rows \<Rightarrow> latest_rows result" where
  "mirror_batch lib desc b m =
     rbind (rbind (batch_column b LSN_COL) downcast_i64) (\<lambda>lsns.
     rbind (rbind (batch_column b SEQ_COL) downcast_i64) (\<lambda>seqs.
     rbind (rbind (batch_column b DELETED_COL) downcast_bool) (\<lambda>dels.
     rbind (rbind (batch_column b CTID_COL) downcast_i64) (\<lambda>ctids.
       mirror_scan desc b (\<lambda>i. unpack_ctid (slot (lib_null_i64 lib) ctids i))
         (\<lambda>i. (sint (slot (lib_null_i64 lib) lsns i), sint (slot (lib_null_i64 lib) seqs i)))
         (slot (lib_null_bool lib) dels) [0..<num_rows b] m))))"

type_synonym Mirror = "(Ctid \<times> RowVersion) list"

definition load_mirror :: "'d DeltaLib \<Rightarrow> TableDesc \<Rightarrow> 'd DeltaSink \<Rightarrow> Mirror result" where
  "load_mirror lib desc s =
     rbind (lib_files lib (ds_table s)) (\<lambda>files.
     rbind (rfold (mirror_batch lib desc) (concat files) []) (\<lambda>m.
       rmap (\<lambda>(ctid, ord, del, row).
               rbind (encode_attrs row desc) (\<lambda>attrs. Ok (ctid, \<lparr>rv_row = row, rv_attrs = attrs\<rparr>)))
            (filter (\<lambda>(ctid, ord, del, row). \<not> del) m)))"

section \<open>Compaction\<close>

definition conform_batch :: "'d DeltaLib \<Rightarrow> ArrowField list \<Rightarrow> RecordBatch \<Rightarrow> RecordBatch result" where
  "conform_batch lib schema b =
     (case lib_try_new lib schema
        (map (\<lambda>f. case result_ok (batch_column b (af_name f)) of
                    Some a \<Rightarrow> a | None \<Rightarrow> new_null_array (af_type f) (num_rows b)) schema) of
        Inl e \<Rightarrow> Err (Panic ''conform batch to schema'')
      | Inr b' \<Rightarrow> Ok b')"

definition hex_of :: "bytes \<Rightarrow> string" where
  "hex_of b = concat (map hex_byte b)"

definition show_int :: "int \<Rightarrow> string" where
  "show_int i = (if i < 0 then ''-'' @ show_nat (nat (- i)) else show_nat (nat i))"

definition arrow_cell_key :: "Array \<Rightarrow> PgType \<Rightarrow> nat \<Rightarrow> string result" where
  "arrow_cell_key a ty i =
     (if array_null a i then Ok (CHR 0x00 # ''NULL'')
      else
        (let bad = Err unwrap_none
         in case ty of
           Bool \<Rightarrow> (case a of BooleanArray xs \<Rightarrow> Ok (if the (xs ! i) then ''1'' else ''0'') | _ \<Rightarrow> bad)
         | Int2 \<Rightarrow> (case a of Int16Array xs \<Rightarrow> Ok (show_int (sint (the (xs ! i)))) | _ \<Rightarrow> bad)
         | Int4 \<Rightarrow> (case a of Int32Array xs \<Rightarrow> Ok (show_int (sint (the (xs ! i)))) | _ \<Rightarrow> bad)
         | Date \<Rightarrow> (case a of Int32Array xs \<Rightarrow> Ok (show_int (sint (the (xs ! i)))) | _ \<Rightarrow> bad)
         | Int8 \<Rightarrow> (case a of Int64Array xs \<Rightarrow> Ok (show_int (sint (the (xs ! i)))) | _ \<Rightarrow> bad)
         | Float4 \<Rightarrow> (case a of Float32Array xs \<Rightarrow> Ok (show_nat (unat (the (xs ! i)))) | _ \<Rightarrow> bad)
         | Float8 \<Rightarrow> (case a of Float64Array xs \<Rightarrow> Ok (show_nat (unat (the (xs ! i)))) | _ \<Rightarrow> bad)
         | Text \<Rightarrow> (case a of StringArray xs \<Rightarrow> Ok (the (xs ! i)) | _ \<Rightarrow> bad)
         | Uuid \<Rightarrow> (case a of StringArray xs \<Rightarrow> Ok (the (xs ! i)) | _ \<Rightarrow> bad)
         | Numeric \<Rightarrow> (case a of StringArray xs \<Rightarrow> Ok (the (xs ! i)) | _ \<Rightarrow> bad)
         | Jsonb \<Rightarrow> (case a of StringArray xs \<Rightarrow> Ok (the (xs ! i)) | _ \<Rightarrow> bad)
         | Bytea \<Rightarrow> (case a of BinaryArray xs \<Rightarrow> Ok (hex_of (the (xs ! i))) | _ \<Rightarrow> bad)
         | Timestamp \<Rightarrow> (case a of TimestampMicrosArray tz xs \<Rightarrow> Ok (show_int (sint (the (xs ! i)))) | _ \<Rightarrow> bad)
         | TimestampTz \<Rightarrow> (case a of TimestampMicrosArray tz xs \<Rightarrow> Ok (show_int (sint (the (xs ! i)))) | _ \<Rightarrow> bad)))"

definition key_types :: "TableDesc \<Rightarrow> PgType list result" where
  "key_types desc =
     rmap (\<lambda>n. ok_or (map_option col_ty (find (\<lambda>c. col_name c = n) (cols desc)))
                 unwrap_none) (pk desc)"

text \<open>The grouping key of a row: the keys of its primary-key cells, each followed by a separator.\<close>

definition row_key :: "(Array \<times> PgType) list \<Rightarrow> nat \<Rightarrow> string result" where
  "row_key ks i =
     rbind (rmap (\<lambda>(a, ty). arrow_cell_key a ty i) ks) (\<lambda>parts.
       Ok (concat (map (\<lambda>p. p @ [CHR 0x1F]) parts)))"

type_synonym best_rows = "(string \<times> (int \<times> int) \<times> u32 \<times> bool) list"

fun compact_scan ::
  "(nat \<Rightarrow> string result) \<Rightarrow> (nat \<Rightarrow> int \<times> int) \<Rightarrow> (nat \<Rightarrow> bool) \<Rightarrow> nat list \<Rightarrow> best_rows \<Rightarrow> best_rows result" where
  "compact_scan key ord del [] m = Ok m"
| "compact_scan key ord del (i # is) m =
     rbind (key i) (\<lambda>k.
       compact_scan key ord del is
         (case map_of m k of
            Some (ord', _) \<Rightarrow> if ord i \<le> ord' then m else AList.update k (ord i, word_of_nat i, del i) m
          | None \<Rightarrow> AList.update k (ord i, word_of_nat i, del i) m))"

definition survivors :: "best_rows \<Rightarrow> u32 list" where
  "survivors best = sort (map (\<lambda>(k, ord, i, del). i) (filter (\<lambda>(k, ord, i, del). \<not> del) best))"

definition best_of_batch :: "'d DeltaLib \<Rightarrow> TableDesc \<Rightarrow> nat list \<Rightarrow> RecordBatch \<Rightarrow> best_rows result" where
  "best_of_batch lib desc pk_idx all =
     rbind (rbind (batch_column all LSN_COL) downcast_i64) (\<lambda>lsns.
     rbind (rbind (batch_column all SEQ_COL) downcast_i64) (\<lambda>seqs.
     rbind (rbind (batch_column all DELETED_COL) downcast_bool) (\<lambda>dels.
     rbind (key_types desc) (\<lambda>tys.
     rbind (rmap (index (rb_columns all)) pk_idx) (\<lambda>arrs.
       compact_scan (row_key (zip arrs tys))
         (\<lambda>i. (sint (slot (lib_null_i64 lib) lsns i), sint (slot (lib_null_i64 lib) seqs i)))
         (slot (lib_null_bool lib) dels) [0..<num_rows all] [])))))"

text \<open>The rows to keep and the batch of them; \<open>None\<close> when there is nothing to gain.\<close>

definition compact_plan ::
  "'d DeltaLib \<Rightarrow> TableDesc \<Rightarrow> ArrowField list \<Rightarrow> nat list \<Rightarrow> nat \<Rightarrow> RecordBatch \<Rightarrow> (nat \<times> nat \<times> RecordBatch) option result" where
  "compact_plan lib desc schema pk_idx n_files all =
     rbind (best_of_batch lib desc pk_idx all) (\<lambda>best.
     let keep = survivors best; before = num_rows all; after = length keep in
     if after = before \<and> n_files \<le> 1 then Ok None
     else
       rbind (rmap (\<lambda>a. lib_take lib a keep) (rb_columns all)) (\<lambda>arrs.
       rbind (lib_try_new lib schema arrs) (\<lambda>compacted. Ok (Some (before, after, compacted)))))"

text \<open>The transactions of the replacing commit: the watermarks the table already carries.\<close>

definition compact_txns :: "TableDesc \<Rightarrow> ResumeState \<Rightarrow> (string \<times> i64) list" where
  "compact_txns desc r =
     (case rs_commit r of Some v \<Rightarrow> [(TXN_COMMIT, word_of_nat v)] | None \<Rightarrow> []) @
     (case rs_restart r of Some v \<Rightarrow> [(TXN_RESTART, word_of_nat v)] | None \<Rightarrow> []) @
     [(TXN_FILENODE, ucast (case rs_filenode r of Some f \<Rightarrow> f | None \<Rightarrow> rel_node desc))]"

definition compact_run :: "'d DeltaLib \<Rightarrow> TableDesc \<Rightarrow> 'd DeltaSink \<Rightarrow> nat list \<Rightarrow> (nat \<times> nat \<times> 'd) option result" where
  "compact_run lib desc s pk_idx =
     rbind (lib_files lib (ds_table s)) (\<lambda>files.
     rbind (rmap (conform_batch lib (ds_arrow_schema s)) (concat files)) (\<lambda>bs.
     if bs = [] then Ok None
     else
       rbind (lib_concat lib (ds_arrow_schema s) bs) (\<lambda>all.
       rbind (compact_plan lib desc (ds_arrow_schema s) pk_idx (length files) all) (\<lambda>plan.
       case plan of None \<Rightarrow> Ok None
       | Some (before, after, compacted) \<Rightarrow>
           rbind (resume_state lib s) (\<lambda>r.
           rbind (lib_replace lib (if num_rows compacted > 0 then Some compacted else None)
                    (compact_txns desc r) (ds_table s)) (\<lambda>t. Ok (Some (before, after, t))))))))"

definition compact :: "'d DeltaLib \<Rightarrow> TableDesc \<Rightarrow> 'd DeltaSink \<Rightarrow> (nat \<times> nat) option result \<times> 'd DeltaSink" where
  "compact lib desc s =
     (if pk desc = [] then (Ok None, s)
      else
        let pk_idx = List.map_filter (\<lambda>n. position (\<lambda>dc. col_name (dc_col dc) = n) (ds_cols s)) (pk desc) in
        if length pk_idx \<noteq> length (pk desc) then (Ok None, s)
        else (case compact_run lib desc s pk_idx of
            Inl e \<Rightarrow> (Err e, s)
          | Inr None \<Rightarrow> (Ok None, s)
          | Inr (Some (before, after, t)) \<Rightarrow> (Ok (Some (before, after)), s\<lparr>ds_table := t\<rparr>)))"

definition vacuum :: "'d DeltaLib \<Rightarrow> nat \<Rightarrow> 'd DeltaSink \<Rightarrow> nat result \<times> 'd DeltaSink" where
  "vacuum lib retention s =
     (case lib_vacuum lib retention (ds_table s) of
        Inl e \<Rightarrow> (Err e, s)
      | Inr (n, t) \<Rightarrow> (Ok n, s\<lparr>ds_table := t\<rparr>))"
section \<open>The schema of an open sink\<close>

text \<open>
  The columns of a sink have distinct names, the Arrow schema is the one of the columns, and every
  column with a source reads the live column of its own name, whose type has the same
  representation; every live column is the source of exactly one of them.
\<close>

definition col_linked :: "Col list \<Rightarrow> DeltaCol \<Rightarrow> bool" where
  "col_linked cs dc \<longleftrightarrow> dc_live dc = position (\<lambda>c. col_name c = col_name (dc_col dc)) cs \<and>
     \<not> type_conflict cs (dc_live dc) (col_ty (dc_col dc))"

definition dc_name :: "DeltaCol \<Rightarrow> string" where
  "dc_name dc = col_name (dc_col dc)"

definition sink_wf :: "Col list \<Rightarrow> 'd DeltaSink \<Rightarrow> bool" where
  "sink_wf cs s \<longleftrightarrow> distinct (map dc_name (ds_cols s)) \<and>
     ds_arrow_schema s = build_arrow_schema (ds_cols s) \<and>
     (\<forall>dc \<in> set (ds_cols s). col_linked cs dc) \<and>
     (\<forall>c \<in> set cs. \<exists>dc \<in> set (ds_cols s). dc_name dc = col_name c)"

lemma add_missing_keeps: "\<exists>extra. fst (add_missing ics dcs dirty) = dcs @ extra \<and> (extra \<noteq> [] \<longrightarrow> snd (add_missing ics dcs dirty))"
proof (induction ics dcs dirty rule: add_missing.induct)
  case (2 li c cs dcs dirty)
  have flag: "snd (add_missing ics dcs True)" for ics dcs
    by (induction ics dcs True rule: add_missing.induct) auto
  show ?case using 2 flag by (auto simp: list_ex_iff)
qed simp

lemma add_missing_distinct:
  "distinct (map dc_name dcs) \<Longrightarrow> distinct (map dc_name (fst (add_missing ics dcs dirty)))"
proof (induction ics dcs dirty rule: add_missing.induct)
  case (2 li c cs dcs dirty)
  then show ?case by (cases "list_ex (\<lambda>dc. col_name (dc_col dc) = col_name c) dcs") (force simp: list_ex_iff dc_name_def)+
qed simp

lemma add_missing_covers:
  "(li, c) \<in> set ics \<Longrightarrow> \<exists>dc \<in> set (fst (add_missing ics dcs dirty)). dc_name dc = col_name c"
proof (induction ics dcs dirty rule: add_missing.induct)
  case (2 li' c' cs dcs dirty)
  show ?case
  proof (cases "(li, c) \<in> set cs")
    case True
    then show ?thesis using 2 by auto
  next
    case False
    then have c: "li = li'" "c = c'" using 2 by auto
    let ?dcs = "if list_ex (\<lambda>dc. col_name (dc_col dc) = col_name c) dcs then dcs
        else dcs @ [\<lparr>dc_col = c, dc_live = Some li\<rparr>]"
    have "\<exists>dc \<in> set ?dcs. dc_name dc = col_name c" by (auto simp: list_ex_iff dc_name_def)
    then show ?thesis
      using add_missing_keeps [of cs dcs dirty]
        add_missing_keeps [of cs "dcs @ [\<lparr>dc_col = c, dc_live = Some li\<rparr>]" True]
      by (auto simp: c split: if_splits)
  qed
qed simp

lemma add_missing_linked:
  assumes cs: "distinct (map col_name cs)" and ics: "set ics \<subseteq> set (List.enumerate 0 cs)"
    and dcs: "\<forall>dc \<in> set dcs. col_linked cs dc"
  shows "\<forall>dc \<in> set (fst (add_missing ics dcs dirty)). col_linked cs dc"
  using ics dcs
proof (induction ics dcs dirty rule: add_missing.induct)
  case (2 li c ics dcs dirty)
  then have "(li, c) \<in> set (List.enumerate 0 cs)" by simp
  then have li: "li < length cs" "c = cs ! li" by (auto simp: in_set_enumerate_eq)
  have "col_linked cs \<lparr>dc_col = c, dc_live = Some li\<rparr>"
    using position_key [OF cs li(1)] by (simp add: col_linked_def type_conflict_def li)
  then show ?case using 2 by auto
qed simp

lemma col_linked_position:
  "\<not> type_conflict cs (position (\<lambda>c. col_name c = n) cs) ty \<Longrightarrow>
   col_linked cs \<lparr>dc_col = \<lparr>col_name = n, col_ty = ty\<rparr>, dc_live = position (\<lambda>c. col_name c = n) cs\<rparr>"
  by (simp add: col_linked_def)

lemma existing_cols_linked:
  "existing_cols cs fs = Ok dcs \<Longrightarrow>
   (\<forall>dc \<in> set dcs. col_linked cs dc) \<and> map dc_name dcs = map sf_name (filter (\<lambda>f. take 6 (sf_name f) \<noteq> ''_ltap_'') fs)"
proof (induction fs arbitrary: dcs)
  case (Cons f fs)
  show ?case
  proof (cases "take 6 (sf_name f) = ''_ltap_''")
    case True
    then show ?thesis using Cons.prems Cons.IH [of dcs] by simp
  next
    case False
    then obtain ty dcs' where ty: "\<not> type_conflict cs (position (\<lambda>c. col_name c = sf_name f) cs) ty"
      and dcs: "existing_cols cs fs = Ok dcs'"
        "dcs = \<lparr>dc_col = \<lparr>col_name = sf_name f, col_ty = ty\<rparr>, dc_live = position (\<lambda>c. col_name c = sf_name f) cs\<rparr> # dcs'"
      using Cons.prems by (auto simp: result_simps Let_def split: if_splits)
    show ?thesis using Cons.IH [OF dcs(1)] col_linked_position [OF ty] False by (simp add: dcs(2) dc_name_def)
  qed
qed simp

lemma relink_names: "map dc_col (snd (relink cs dcs)) = map dc_col dcs"
  by (induction cs dcs rule: relink.induct) (auto simp: Let_def split: prod.split if_splits)

lemma relink_Ok:
  "relink cs dcs = (Ok u, dcs') \<longleftrightarrow>
   dcs' = map (\<lambda>dc. dc\<lparr>dc_live := position (\<lambda>c. col_name c = col_name (dc_col dc)) cs\<rparr>) dcs \<and>
   (\<forall>dc \<in> set dcs. \<not> type_conflict cs (position (\<lambda>c. col_name c = col_name (dc_col dc)) cs) (col_ty (dc_col dc)))"
proof (induction dcs arbitrary: dcs')
  case (Cons dc dcs)
  show ?case using Cons [of "tl dcs'"] by (cases "relink cs dcs") (auto simp: Let_def)
qed auto

lemma link_sink_cols:
  "ds_cols (link_sink t cs dcs dirty) = fst (add_missing (List.enumerate 0 cs) dcs dirty)"
  "ds_arrow_schema (link_sink t cs dcs dirty) = build_arrow_schema (ds_cols (link_sink t cs dcs dirty))"
  by (simp_all add: link_sink_def split: prod.split)

lemma link_sink_wf:
  assumes "distinct (map col_name cs)" "\<forall>dc \<in> set dcs. col_linked cs dc" "distinct (map dc_name dcs)"
  shows "sink_wf cs (link_sink t cs dcs dirty)"
proof -
  let ?s = "link_sink t cs dcs dirty"
  note s = link_sink_cols [of t cs dcs dirty]
  have "\<exists>dc \<in> set (ds_cols ?s). dc_name dc = col_name c" if c: "c \<in> set cs" for c
  proof -
    obtain i where "i < length cs" "cs ! i = c" using c by (metis in_set_conv_nth)
    then have "(i, c) \<in> set (List.enumerate 0 cs)" by (simp add: in_set_enumerate_eq)
    then show ?thesis unfolding s(1) by (rule add_missing_covers)
  qed
  then show ?thesis
    using add_missing_linked [OF assms(1) subset_refl assms(2), of dirty] add_missing_distinct [OF assms(3)]
    unfolding sink_wf_def by (simp add: s)
qed

lemma open_or_create_wf:
  assumes "open_or_create lib uri desc = Ok s" and "distinct (map col_name (cols desc))"
    and "\<And>t fs. lib_fields lib t = Some fs \<Longrightarrow> distinct (map sf_name fs)"
  shows "sink_wf (cols desc) s"
proof -
  obtain t dcs where s: "s = link_sink t (cols desc) dcs False"
    and dcs: "(case lib_fields lib t of Some fs \<Rightarrow> existing_cols (cols desc) fs | None \<Rightarrow> Ok []) = Ok dcs"
    using assms(1) by (auto simp: open_or_create_def result_simps)
  have "(\<forall>dc \<in> set dcs. col_linked (cols desc) dc) \<and> distinct (map dc_name dcs)"
  proof (cases "lib_fields lib t")
    case (Some fs)
    then show ?thesis
      using dcs existing_cols_linked [of "cols desc" fs dcs] assms(3) [OF Some] by (simp add: distinct_map_filter)
  qed (use dcs in simp)
  then show ?thesis unfolding s using link_sink_wf [OF assms(2), of dcs t False] by (elim conjE)
qed

lemma evolve_Ok:
  "evolve cs s = (Ok (), s') \<longleftrightarrow>
   (\<forall>dc \<in> set (ds_cols s). \<not> type_conflict cs (position (\<lambda>c. col_name c = dc_name dc) cs) (col_ty (dc_col dc))) \<and>
   s' = link_sink (ds_table s) cs
     (map (\<lambda>dc. dc\<lparr>dc_live := position (\<lambda>c. col_name c = dc_name dc) cs\<rparr>) (ds_cols s)) (ds_dirty s)"
proof (cases "relink cs (ds_cols s)")
  case (Pair r dcs)
  show ?thesis
  proof (cases r)
    case (Inl e)
    then show ?thesis using Pair relink_Ok [of cs "ds_cols s" "()"] by (auto simp: evolve_def dc_name_def)
  next
    case (Inr u)
    then show ?thesis using Pair relink_Ok [of cs "ds_cols s" "()" dcs] by (auto simp: evolve_def dc_name_def)
  qed
qed

lemma evolve_wf:
  assumes "sink_wf cs0 s" and "evolve cs s = (Ok (), s')" and "distinct (map col_name cs)"
  shows "sink_wf cs s'" "take (length (ds_cols s)) (map dc_col (ds_cols s')) = map dc_col (ds_cols s)"
proof -
  let ?dcs = "map (\<lambda>dc. dc\<lparr>dc_live := position (\<lambda>c. col_name c = dc_name dc) cs\<rparr>) (ds_cols s)"
  have ok: "\<forall>dc \<in> set (ds_cols s). \<not> type_conflict cs (position (\<lambda>c. col_name c = dc_name dc) cs) (col_ty (dc_col dc))"
    and s': "s' = link_sink (ds_table s) cs ?dcs (ds_dirty s)"
    using evolve_Ok [of cs s s'] assms(2) by simp_all
  have "map dc_name ?dcs = map dc_name (ds_cols s)" by (simp add: dc_name_def)
  then have d: "distinct (map dc_name ?dcs)" using assms(1) unfolding sink_wf_def by metis
  have l: "\<forall>dc \<in> set ?dcs. col_linked cs dc" using ok by (auto simp: col_linked_def dc_name_def)
  show "sink_wf cs s'" using link_sink_wf [OF assms(3) l d] by (simp add: s')
  obtain extra where "fst (add_missing (List.enumerate 0 cs) ?dcs (ds_dirty s)) = ?dcs @ extra"
    using add_missing_keeps [of "List.enumerate 0 cs" ?dcs "ds_dirty s"] by auto
  then have "ds_cols s' = ?dcs @ extra" by (simp add: s' link_sink_cols)
  then show "take (length (ds_cols s)) (map dc_col (ds_cols s')) = map dc_col (ds_cols s)"
    by (simp add: comp_def)
qed

lemma append_wf: "sink_wf cs s \<Longrightarrow> sink_wf cs (snd (sink_append lib rows c r f s))"
  by (auto simp: sink_append_def commit_schema_def result_simps sink_wf_def split: sum.split prod.split if_splits)

lemma compact_wf: "sink_wf cs s \<Longrightarrow> sink_wf cs (snd (compact lib desc s))"
  by (auto simp: compact_def Let_def sink_wf_def split: sum.split prod.split option.split)
section \<open>Batches fit their schema\<close>

text \<open>The cells of an array as values.\<close>

fun array_cells :: "Array \<Rightarrow> Value option list" where
  "array_cells (BooleanArray xs) = map (map_option VBool) xs"
| "array_cells (Int16Array xs) = map (map_option VI16) xs"
| "array_cells (Int32Array xs) = map (map_option VI32) xs"
| "array_cells (Int64Array xs) = map (map_option VI64) xs"
| "array_cells (Float32Array xs) = map (map_option VF32) xs"
| "array_cells (Float64Array xs) = map (map_option VF64) xs"
| "array_cells (StringArray xs) = map (map_option VText) xs"
| "array_cells (BinaryArray xs) = map (map_option VBytes) xs"
| "array_cells (Date32Array xs) = map (map_option VI32) xs"
| "array_cells (TimestampMicrosArray tz xs) = map (map_option VI64) xs"

text \<open>
  What \<^verbatim>\<open>RecordBatch::try_new\<close> documents: it builds the batch when there is one array per
  field, of the field's type, all of one length, without nulls where the field forbids them.
\<close>

definition array_fits :: "nat \<Rightarrow> ArrowField \<Rightarrow> Array \<Rightarrow> bool" where
  "array_fits n f a \<longleftrightarrow> array_type a = af_type f \<and> length (validity a) = n \<and> (af_nullable f \<or> list_all id (validity a))"

definition arrow_builds :: "'d DeltaLib \<Rightarrow> bool" where
  "arrow_builds lib \<longleftrightarrow> (\<forall>n schema arrays. list_all2 (array_fits n) schema arrays \<longrightarrow>
     lib_try_new lib schema arrays = Ok \<lparr>rb_schema = schema, rb_columns = arrays\<rparr>)"

definition batch_of :: "'d DeltaSink \<Rightarrow> EmitRow list \<Rightarrow> RecordBatch" where
  "batch_of s rows =
     \<lparr>rb_schema = ds_arrow_schema s, rb_columns = map (\<lambda>dc. col_array dc rows) (ds_cols s) @ meta_arrays rows\<rparr>"

lemma validity_cells: "validity a = map (\<lambda>c. c \<noteq> None) (array_cells a)"
  by (cases a) auto

lemma new_null_cells [simp]:
  "array_type (new_null_array ty n) = ty" "array_cells (new_null_array ty n) = replicate n None"
  by (cases ty; simp)+

lemma col_array_type: "array_type (col_array dc rows) = arrow_type (col_ty (dc_col dc))"
  by (cases "col_ty (dc_col dc)") (simp_all add: col_array_def arrow_type_def split: option.split)

lemma length_col_vals [simp]: "length (col_vals li f rows) = length rows"
  by (simp add: col_vals_def)

lemma length_col_array: "length (array_cells (col_array dc rows)) = length rows"
  by (cases "col_ty (dc_col dc)") (simp_all add: col_array_def split: option.split)

lemma length_validity: "length (validity a) = length (array_cells a)"
  by (simp add: validity_cells)

lemma columns_fit:
  "list_all2 (array_fits (length rows)) (build_arrow_schema dcs) (map (\<lambda>dc. col_array dc rows) dcs @ meta_arrays rows)"
proof -
  have "list_all2 (array_fits (length rows))
     (map (\<lambda>dc. \<lparr>af_name = col_name (dc_col dc), af_type = arrow_type (col_ty (dc_col dc)), af_nullable = True\<rparr>) dcs)
     (map (\<lambda>dc. col_array dc rows) dcs)"
    by (induction dcs) (simp_all add: array_fits_def col_array_type length_validity length_col_array)
  moreover have "list_all2 (array_fits (length rows)) meta_arrow_fields (meta_arrays rows)"
    by (simp add: meta_arrow_fields_def meta_arrays_def array_fits_def list_all_iff)
  ultimately show ?thesis by (simp add: build_arrow_schema_def list_all2_appendI)
qed

lemma make_batch_Ok:
  assumes "arrow_builds lib" "sink_wf cs s"
  shows "make_batch lib s rows = Ok (batch_of s rows)"
proof -
  have "ds_arrow_schema s = build_arrow_schema (ds_cols s)" using assms(2) by (simp add: sink_wf_def)
  then show ?thesis using assms(1) columns_fit [of rows "ds_cols s"]
    unfolding arrow_builds_def make_batch_def batch_of_def by metis
qed

text \<open>The sinks a run reaches, with the live columns they serve.\<close>

inductive sink_reach :: "'d DeltaLib \<Rightarrow> Col list \<Rightarrow> 'd DeltaSink \<Rightarrow> bool" for lib where
  reach_open: "open_or_create lib uri desc = Ok s \<Longrightarrow> distinct (map col_name (cols desc)) \<Longrightarrow> sink_reach lib (cols desc) s"
| reach_evolve: "sink_reach lib cs s \<Longrightarrow> evolve cs' s = (Ok (), s') \<Longrightarrow> distinct (map col_name cs') \<Longrightarrow> sink_reach lib cs' s'"
| reach_append: "sink_reach lib cs s \<Longrightarrow> sink_append lib rows c r f s = (v, s') \<Longrightarrow> sink_reach lib cs s'"
| reach_compact: "sink_reach lib cs s \<Longrightarrow> compact lib desc s = (v, s') \<Longrightarrow> sink_reach lib cs s'"
| reach_vacuum: "sink_reach lib cs s \<Longrightarrow> vacuum lib n s = (v', s') \<Longrightarrow> sink_reach lib cs s'"

definition fields_named_apart :: "'d DeltaLib \<Rightarrow> bool" where
  "fields_named_apart lib \<longleftrightarrow> (\<forall>t fs. lib_fields lib t = Some fs \<longrightarrow> distinct (map sf_name fs))"

lemma sink_reach_wf:
  assumes lib: "fields_named_apart lib" and reach: "sink_reach lib cs s"
  shows "sink_wf cs s"
  using reach
proof induction
  case (reach_open uri desc s)
  then show ?case using open_or_create_wf [of lib uri desc s] lib unfolding fields_named_apart_def by blast
next
  case (reach_evolve cs s cs' s')
  then show ?case by (blast intro: evolve_wf(1))
next
  case (reach_append cs s rows c r f v s')
  then show ?case using append_wf [of cs s lib rows c r f] by simp
next
  case (reach_compact cs s desc v s')
  then show ?case using compact_wf [of cs s lib desc] by simp
next
  case (reach_vacuum cs s n v' s')
  then show ?case by (auto simp: vacuum_def sink_wf_def split: sum.splits prod.splits)
qed

section \<open>The mirror of a change log\<close>

definition value_fits :: "PgType \<Rightarrow> Value \<Rightarrow> bool" where
  "value_fits ty v = (case arrow_type ty of
       ABoolean \<Rightarrow> as_bool v \<noteq> None | AInt16 \<Rightarrow> as_i16 v \<noteq> None | AInt32 \<Rightarrow> as_i32 v \<noteq> None
     | AInt64 \<Rightarrow> as_i64 v \<noteq> None | AFloat32 \<Rightarrow> as_f32 v \<noteq> None | AFloat64 \<Rightarrow> as_f64 v \<noteq> None
     | AUtf8 \<Rightarrow> as_text v \<noteq> None | ABinary \<Rightarrow> as_raw v \<noteq> None | ADate32 \<Rightarrow> as_i32 v \<noteq> None
     | ATimestampMicros _ \<Rightarrow> as_i64 v \<noteq> None)"

definition row_typed :: "Col list \<Rightarrow> Row \<Rightarrow> bool" where
  "row_typed cs row \<longleftrightarrow> length row = length cs \<and>
     (\<forall>i < length cs. \<forall>v. row ! i = Some v \<longrightarrow> value_fits (col_ty (cs ! i)) v)"

lemma col_vals_fit:
  assumes "i < length rows" "row_typed cs (er_row (rows ! i))" "li < length cs"
    and "\<And>v. value_fits (col_ty (cs ! li)) v \<Longrightarrow> map_option g (f v) = Some v"
  shows "map_option g (col_vals li f rows ! i) = er_row (rows ! i) ! li"
  using assms by (auto simp: col_vals_def row_typed_def get_def split: option.split)

lemma delta_arrow: "delta_type a = delta_type b \<Longrightarrow> arrow_type a = arrow_type b"
  by (cases a; cases b; simp add: delta_type_def arrow_type_def)

lemma value_fits_variant:
  "value_fits ty v \<Longrightarrow> arrow_type ty = ABoolean \<Longrightarrow> map_option VBool (as_bool v) = Some v"
  "value_fits ty v \<Longrightarrow> arrow_type ty = AInt16 \<Longrightarrow> map_option VI16 (as_i16 v) = Some v"
  "value_fits ty v \<Longrightarrow> arrow_type ty = AInt32 \<Longrightarrow> map_option VI32 (as_i32 v) = Some v"
  "value_fits ty v \<Longrightarrow> arrow_type ty = AInt64 \<Longrightarrow> map_option VI64 (as_i64 v) = Some v"
  "value_fits ty v \<Longrightarrow> arrow_type ty = AFloat32 \<Longrightarrow> map_option VF32 (as_f32 v) = Some v"
  "value_fits ty v \<Longrightarrow> arrow_type ty = AFloat64 \<Longrightarrow> map_option VF64 (as_f64 v) = Some v"
  "value_fits ty v \<Longrightarrow> arrow_type ty = AUtf8 \<Longrightarrow> map_option VText (as_text v) = Some v"
  "value_fits ty v \<Longrightarrow> arrow_type ty = ABinary \<Longrightarrow> map_option VBytes (as_raw v) = Some v"
  "value_fits ty v \<Longrightarrow> arrow_type ty = ADate32 \<Longrightarrow> map_option VI32 (as_i32 v) = Some v"
  "value_fits ty v \<Longrightarrow> arrow_type ty = ATimestampMicros tz \<Longrightarrow> map_option VI64 (as_i64 v) = Some v"
  by (cases v; simp add: value_fits_def)+

lemma col_array_cell:
  assumes dc: "dc_live dc = Some li" "delta_type (col_ty (cs ! li)) = delta_type (col_ty (dc_col dc))"
    and row: "i < length rows" "row_typed cs (er_row (rows ! i))" "li < length cs"
  shows "array_cells (col_array dc rows) ! i = er_row (rows ! i) ! li"
proof -
  have ty: "arrow_type (col_ty (cs ! li)) = arrow_type (col_ty (dc_col dc))" using dc(2) by (rule delta_arrow)
  note fit = col_vals_fit [OF row] value_fits_variant [where ty = "col_ty (cs ! li)"]
  show ?thesis
    using dc(1) ty row(1)
    by (cases "col_ty (dc_col dc)") (simp_all add: col_array_def fit arrow_type_def)
qed

lemma mirror_value_cells:
  "arrow_type ty = array_type a \<Longrightarrow> i < length (array_cells a) \<Longrightarrow> mirror_value ty a i = Ok (array_cells a ! i)"
  by (cases a; simp add: mirror_value_def)

text \<open>A batch written by the sink, read back: its columns by name, its rows cell by cell.\<close>

definition meta_names :: "string list" where
  "meta_names = [LSN_COL, SEQ_COL, DELETED_COL, CTID_COL]"

definition user_columns_apart :: "'d DeltaSink \<Rightarrow> bool" where
  "user_columns_apart s \<longleftrightarrow> list_all (\<lambda>dc. dc_name dc \<notin> set meta_names) (ds_cols s)"

lemma schema_position:
  "position (\<lambda>f. af_name f = n) (build_arrow_schema dcs) =
     (case position (\<lambda>dc. dc_name dc = n) dcs of Some i \<Rightarrow> Some i
      | None \<Rightarrow> map_option (\<lambda>i. i + length dcs) (position (\<lambda>f. af_name f = n) meta_arrow_fields))"
  by (simp add: build_arrow_schema_def position_append position_map dc_name_def split: option.split)

lemma meta_columns:
  assumes "sink_wf cs s" "user_columns_apart s"
  shows "batch_column (batch_of s rows) LSN_COL = Ok (Int64Array (map (\<lambda>e. Some (word_of_nat (er_lsn e))) rows))"
    and "batch_column (batch_of s rows) SEQ_COL = Ok (Int64Array (map (\<lambda>e. Some (word_of_nat (er_seq e))) rows))"
    and "batch_column (batch_of s rows) DELETED_COL = Ok (BooleanArray (map (\<lambda>e. Some (er_deleted e)) rows))"
    and "batch_column (batch_of s rows) CTID_COL = Ok (Int64Array (map (\<lambda>e. Some (pack_ctid (er_ctid e))) rows))"
proof -
  have none: "position (\<lambda>dc. dc_name dc = n) (ds_cols s) = None" if "n \<in> set meta_names" for n
    using that assms(2) by (auto simp: position_None user_columns_apart_def list_all_iff)
  note simps = batch_column_def column_index_def batch_of_def schema_position none meta_names_def
    meta_arrow_fields_def meta_arrays_def index_Ok nth_append LSN_COL_def SEQ_COL_def DELETED_COL_def CTID_COL_def
  have sch: "ds_arrow_schema s = build_arrow_schema (ds_cols s)" using assms(1) by (simp add: sink_wf_def)
  show "batch_column (batch_of s rows) LSN_COL = Ok (Int64Array (map (\<lambda>e. Some (word_of_nat (er_lsn e))) rows))"
    by (simp add: simps sch)
  show "batch_column (batch_of s rows) SEQ_COL = Ok (Int64Array (map (\<lambda>e. Some (word_of_nat (er_seq e))) rows))"
    by (simp add: simps sch)
  show "batch_column (batch_of s rows) DELETED_COL = Ok (BooleanArray (map (\<lambda>e. Some (er_deleted e)) rows))"
    by (simp add: simps sch)
  show "batch_column (batch_of s rows) CTID_COL = Ok (Int64Array (map (\<lambda>e. Some (pack_ctid (er_ctid e))) rows))"
    by (simp add: simps sch)
qed

lemma num_rows_batch_of: "num_rows (batch_of s rows) = length rows"
  by (cases "ds_cols s") (simp_all add: num_rows_def batch_of_def meta_arrays_def length_validity length_col_array)

lemma mirror_cell_batch_of:
  assumes wf: "sink_wf cs s" and cs: "distinct (map col_name cs)" and li: "li < length cs"
    and i: "i < length rows" "row_typed cs (er_row (rows ! i))"
  shows "mirror_cell (batch_of s rows) i (cs ! li) = Ok (er_row (rows ! i) ! li)"
proof -
  have "cs ! li \<in> set cs" using li by simp
  then obtain dc where dc0: "dc \<in> set (ds_cols s)" "dc_name dc = col_name (cs ! li)"
    using wf unfolding sink_wf_def by blast
  obtain k where k: "k < length (ds_cols s)" "ds_cols s ! k = dc" using dc0(1) by (metis in_set_conv_nth)
  have pos: "position (\<lambda>dc. dc_name dc = col_name (cs ! li)) (ds_cols s) = Some k"
    using position_key [of dc_name "ds_cols s" k] wf k dc0(2) by (simp add: sink_wf_def)
  have live: "dc_live dc = Some li" and ty: "delta_type (col_ty (cs ! li)) = delta_type (col_ty (dc_col dc))"
    using wf dc0 position_key [OF cs li] by (auto simp: sink_wf_def col_linked_def dc_name_def type_conflict_def)
  let ?a = "col_array dc rows"
  have cell: "array_cells ?a ! i = er_row (rows ! i) ! li"
    by (rule col_array_cell [OF live ty i li])
  have "arrow_type (col_ty (cs ! li)) = array_type ?a" using delta_arrow [OF ty] by (simp add: col_array_type)
  then have "mirror_value (col_ty (cs ! li)) ?a i = Ok (array_cells ?a ! i)"
    using i(1) by (simp add: mirror_value_cells length_col_array)
  moreover have "column_index (batch_of s rows) (col_name (cs ! li)) = Some k"
    using wf by (simp add: column_index_def batch_of_def sink_wf_def schema_position pos)
  moreover have "index (rb_columns (batch_of s rows)) k = Ok ?a"
    using k by (simp add: index_Ok batch_of_def nth_append)
  moreover have "array_null ?a i \<longleftrightarrow> array_cells ?a ! i = None"
    using i(1) by (simp add: array_null_def validity_cells length_col_array)
  ultimately show ?thesis by (simp add: mirror_cell_def cell)
qed

lemma mirror_row_batch_of:
  assumes "sink_wf (cols desc) s" "distinct (map col_name (cols desc))" "i < length rows"
    "row_typed (cols desc) (er_row (rows ! i))"
  shows "rmap (mirror_cell (batch_of s rows) i) (cols desc) = Ok (er_row (rows ! i))"
proof -
  let ?r = "er_row (rows ! i)"
  have "rmap (mirror_cell (batch_of s rows) i) (map (nth (cols desc)) is) = Ok (map (nth ?r) is)"
    if "\<forall>k \<in> set is. k < length (cols desc)" for "is"
    using that by (induction "is") (simp_all add: mirror_cell_batch_of [OF assms(1,2) _ assms(3,4)])
  from this [of "[0..<length (cols desc)]"] show ?thesis
    using assms(4) by (simp add: map_nth row_typed_def) (metis map_nth)
qed

text \<open>The entry of a change-log row: its address, its position in the log, its tombstone flag and content.\<close>

definition log_entry :: "EmitRow \<Rightarrow> Ctid \<times> (int \<times> int) \<times> bool \<times> Row" where
  "log_entry e = (er_ctid e, (int (er_lsn e), int (er_seq e)), er_deleted e, er_row e)"

definition entry_typed :: "Col list \<Rightarrow> EmitRow \<Rightarrow> bool" where
  "entry_typed cs e \<longleftrightarrow> row_typed cs (er_row e) \<and> er_lsn e < 2 ^ 63 \<and> er_seq e < 2 ^ 63"

lemma mirror_scan_fold:
  assumes "\<And>i. i \<in> set is \<Longrightarrow> rmap (mirror_cell b i) (cols desc) = Ok (row i)"
  shows "mirror_scan desc b key ord del is m = Ok (fold keep_latest (map (\<lambda>i. (key i, ord i, del i, row i)) is) m)"
  using assms
  by (induction "is" arbitrary: m) (auto simp: keep_latest_def split: option.split)

lemma sint_of_small: "n < 2 ^ 63 \<Longrightarrow> sint (word_of_nat n :: i64) = int n"
  by (simp add: signed_of_nat signed_take_bit_int_eq_self)

lemma mirror_batch_of:
  assumes wf: "sink_wf (cols desc) s" "distinct (map col_name (cols desc))" "user_columns_apart s"
    and rows: "list_all (entry_typed (cols desc)) rows"
  shows "mirror_batch lib desc (batch_of s rows) m = Ok (fold keep_latest (map log_entry rows) m)"
proof -
  let ?b = "batch_of s rows"
  have typed: "entry_typed (cols desc) (rows ! i)" if "i < length rows" for i
    using rows that by (simp add: list_all_length)
  then have row: "rmap (mirror_cell ?b i) (cols desc) = Ok (er_row (rows ! i))" if "i \<in> set [0..<length rows]" for i
    using that mirror_row_batch_of [OF wf(1,2)] by (simp add: entry_typed_def)
  have scan: "mirror_scan desc ?b key ord del [0..<length rows] m =
      Ok (fold keep_latest (map (\<lambda>i. (key i, ord i, del i, er_row (rows ! i))) [0..<length rows]) m)" for key ord del
    by (rule mirror_scan_fold) (rule row)
  have "map (\<lambda>i. log_entry (rows ! i)) [0..<length rows] = map log_entry rows"
    by (simp add: map_nth flip: map_map [unfolded comp_def])
  moreover have "map (\<lambda>i. (unpack_ctid (slot n (map (\<lambda>e. Some (pack_ctid (er_ctid e))) rows) i),
        (sint (slot n (map (\<lambda>e. Some (word_of_nat (er_lsn e))) rows) i), sint (slot n (map (\<lambda>e. Some (word_of_nat (er_seq e))) rows) i)),
        slot d (map (\<lambda>e. Some (er_deleted e)) rows) i, er_row (rows ! i))) [0..<length rows] =
      map (\<lambda>i. log_entry (rows ! i)) [0..<length rows]" for n d
    using typed by (auto simp: slot_def log_entry_def pack_unpack sint_of_small entry_typed_def)
  ultimately show ?thesis
    by (simp add: mirror_batch_def meta_columns [OF wf(1,3)] scan num_rows_batch_of)
qed

lemma rmap_rfold_batches:
  assumes "\<And>rows m. rows \<in> set gs \<Longrightarrow> f (g rows) m = Ok (fold h (k rows) m)"
  shows "rfold f (map g gs) m = Ok (fold h (concat (map k gs)) m)"
  using assms by (induction gs arbitrary: m) auto

lemma latest_at_unique: "latest_at es k i \<Longrightarrow> latest_at es k j \<Longrightarrow> i = j"
  unfolding latest_at_def by (metis linorder_neqE_nat order.strict_iff_not)

lemma keep_latest_iff:
  "map_of (fold keep_latest es []) k = Some oa \<longleftrightarrow> (\<exists>i. latest_at es k i \<and> es ! i = (k, oa))"
proof
  assume "\<exists>i. latest_at es k i \<and> es ! i = (k, oa)"
  then obtain i where i: "latest_at es k i" "es ! i = (k, oa)" by blast
  then have "k \<in> fst ` set es" using nth_mem [of i es] by (force simp: latest_at_def)
  then obtain oa' where oa': "map_of (fold keep_latest es []) k = Some oa'"
    using fold_keep_latest_None [of es k] by auto
  then show "map_of (fold keep_latest es []) k = Some oa"
    using fold_keep_latest [OF oa'] latest_at_unique [OF i(1)] i(2) by auto
qed (rule fold_keep_latest)

lemma map_of_filter_map:
  "distinct (map fst m) \<Longrightarrow> (\<And>k v. f (k, v) = (k, g v)) \<Longrightarrow>
   map_of (map f (filter (\<lambda>(k, v). P v) m)) k = (case map_of m k of Some v \<Rightarrow> if P v then Some (g v) else None | None \<Rightarrow> None)"
proof (induction m)
  case (Cons a m)
  obtain k' v where a: "a = (k', v)" by (cases a)
  have "map_of (map f (filter (\<lambda>(k, v). P v) m)) k' = None" if "k' \<notin> fst ` set m"
    using that Cons.prems(2) by (force simp: map_of_eq_None_iff)
  then show ?case using Cons by (auto simp: a split: option.split)
qed simp

lemma load_mirror_latest:
  assumes wf: "sink_wf (cols desc) s" "distinct (map col_name (cols desc))" "user_columns_apart s"
    and files: "lib_files lib (ds_table s) = Ok files" "concat files = map (batch_of s) gs"
    and rows: "list_all (entry_typed (cols desc)) (concat gs)"
    and enc: "\<forall>e \<in> set (concat gs). encode_attrs (er_row e) desc = Ok (attrs (er_row e))"
  shows "\<exists>m. load_mirror lib desc s = Ok m \<and>
     (\<forall>c. map_of m c = (case map_of (fold keep_latest (map log_entry (concat gs)) []) c of
        Some (ord, del, row) \<Rightarrow> if del then None else Some \<lparr>rv_row = row, rv_attrs = attrs row\<rparr> | None \<Rightarrow> None))"
proof -
  let ?es = "map log_entry (concat gs)" and ?g = "\<lambda>(ord, del, row). \<lparr>rv_row = row, rv_attrs = attrs row\<rparr>"
  let ?m = "fold keep_latest ?es []" and ?f = "\<lambda>(c, v). (c, ?g v)"
  have fold: "rfold (mirror_batch lib desc) (concat files) [] = Ok ?m"
    unfolding files(2) map_concat
    using rows by (intro rmap_rfold_batches) (auto simp: mirror_batch_of [OF wf] list_all_iff)
  have d: "distinct (map fst ?m)" by (rule fold_keep_latest_distinct) simp
  have "encode_attrs row desc = Ok (attrs row)" if "(c, ord, del, row) \<in> set ?m" for c ord del row
  proof -
    have "map_of ?m c = Some (ord, del, row)" using that d by simp
    then have "\<exists>i. latest_at ?es c i \<and> ?es ! i = (c, ord, del, row)" by (rule fold_keep_latest)
    then obtain i where i: "latest_at ?es c i" "?es ! i = (c, ord, del, row)" by (elim exE conjE)
    then have len: "i < length (concat gs)" by (simp add: latest_at_def)
    then have "row = er_row (concat gs ! i)" using i(2) by (simp add: log_entry_def)
    then show ?thesis using bspec [OF enc nth_mem [OF len]] by simp
  qed
  then have "rmap (\<lambda>(ctid, ord, del, row). rbind (encode_attrs row desc) (\<lambda>attrs. Ok (ctid, \<lparr>rv_row = row, rv_attrs = attrs\<rparr>)))
      (filter (\<lambda>(ctid, ord, del, row). \<not> del) ?m) = Ok (map ?f (filter (\<lambda>(ctid, ord, del, row). \<not> del) ?m))"
    by (intro rmap_all_Ok) auto
  then have "load_mirror lib desc s = Ok (map ?f (filter (\<lambda>(c, v). \<not> fst (snd v)) ?m))"
    by (simp add: load_mirror_def files(1) fold case_prod_beta')
  moreover have "map_of (map ?f (filter (\<lambda>(c, v). \<not> fst (snd v)) ?m)) c =
      (case map_of ?m c of Some v \<Rightarrow> if \<not> fst (snd v) then Some (?g v) else None | None \<Rightarrow> None)" for c
    by (rule map_of_filter_map [OF d]) simp
  ultimately show ?thesis by (intro exI conjI) (auto split: option.split)
qed

section \<open>Compaction keeps the current state\<close>

text \<open>
  The change rows of a batch: key, position in the log and tombstone flag. The current state is
  the set of rows that are the latest of their key and no tombstone.
\<close>

definition change_entries ::
  "'d DeltaLib \<Rightarrow> TableDesc \<Rightarrow> nat list \<Rightarrow> RecordBatch \<Rightarrow> (string \<times> (int \<times> int) \<times> bool) list result" where
  "change_entries lib desc pk_idx b =
     rbind (rbind (batch_column b LSN_COL) downcast_i64) (\<lambda>lsns.
     rbind (rbind (batch_column b SEQ_COL) downcast_i64) (\<lambda>seqs.
     rbind (rbind (batch_column b DELETED_COL) downcast_bool) (\<lambda>dels.
     rbind (key_types desc) (\<lambda>tys.
     rbind (rmap (index (rb_columns b)) pk_idx) (\<lambda>arrs.
       rmap (\<lambda>i. rbind (row_key (zip arrs tys) i) (\<lambda>k.
         Ok (k, (sint (slot (lib_null_i64 lib) lsns i), sint (slot (lib_null_i64 lib) seqs i)),
             slot (lib_null_bool lib) dels i))) [0..<num_rows b])))))"

definition batch_row :: "RecordBatch \<Rightarrow> nat \<Rightarrow> Value option list" where
  "batch_row b i = map (\<lambda>a. array_cells a ! i) (rb_columns b)"

definition current_rows :: "(string \<times> (int \<times> int) \<times> bool) list \<Rightarrow> RecordBatch \<Rightarrow> Value option list set" where
  "current_rows es b = {batch_row b i | i k. latest_at es k i \<and> \<not> snd (snd (es ! i))}"

lemma compact_scan_fold:
  "compact_scan key ord del is m = Ok best \<longleftrightarrow>
   (\<exists>ks. rmap key is = Ok ks \<and>
      best = fold keep_latest (map2 (\<lambda>k i. (k, ord i, word_of_nat i, del i)) ks is) m)"
proof (induction "is" arbitrary: m)
  case (Cons i "is")
  show ?case by (auto simp: result_simps Cons keep_latest_def)
qed auto

lemma best_of_entries:
  assumes "best_of_batch lib desc pk_idx all = Ok best"
  shows "\<exists>es. change_entries lib desc pk_idx all = Ok es \<and> length es = num_rows all \<and>
     best = fold keep_latest (map (\<lambda>i. (fst (es ! i), fst (snd (es ! i)), word_of_nat i, snd (snd (es ! i)))) [0..<num_rows all]) []"
proof -
  obtain lsns seqs dels tys arrs ks where r:
    "rbind (batch_column all LSN_COL) downcast_i64 = Ok lsns" "rbind (batch_column all SEQ_COL) downcast_i64 = Ok seqs"
    "rbind (batch_column all DELETED_COL) downcast_bool = Ok dels" "key_types desc = Ok tys"
    "rmap (index (rb_columns all)) pk_idx = Ok arrs"
    and ks: "rmap (row_key (zip arrs tys)) [0..<num_rows all] = Ok ks"
    and best: "best = fold keep_latest (map2 (\<lambda>k i. (k,
        (sint (slot (lib_null_i64 lib) lsns i), sint (slot (lib_null_i64 lib) seqs i)),
        word_of_nat i, slot (lib_null_bool lib) dels i)) ks [0..<num_rows all]) []"
    using assms unfolding best_of_batch_def rbind_eq_Ok compact_scan_fold by blast
  let ?n = "num_rows all"
  let ?e = "\<lambda>i. (ks ! i, (sint (slot (lib_null_i64 lib) lsns i), sint (slot (lib_null_i64 lib) seqs i)), slot (lib_null_bool lib) dels i)"
  have len: "length ks = ?n" using rmap_Ok_length [OF ks] by simp
  have "row_key (zip arrs tys) i = Ok (ks ! i)" if "i < ?n" for i
    using rmap_Ok_nth [OF ks, of i] that by simp
  then have es: "change_entries lib desc pk_idx all = Ok (map ?e [0..<?n])"
    unfolding change_entries_def r rbind.simps by (intro rmap_all_Ok) simp
  have "map2 (\<lambda>k i. (k, (sint (slot (lib_null_i64 lib) lsns i), sint (slot (lib_null_i64 lib) seqs i)),
        word_of_nat i :: u32, slot (lib_null_bool lib) dels i)) ks [0..<?n] =
      map (\<lambda>i. (fst (map ?e [0..<?n] ! i), fst (snd (map ?e [0..<?n] ! i)), word_of_nat i, snd (snd (map ?e [0..<?n] ! i)))) [0..<?n]"
    by (rule nth_equalityI) (simp_all add: len)
  then show ?thesis using es best by (intro exI [of _ "map ?e [0..<?n]"]) simp
qed

lemma survivors_latest:
  fixes es :: "(string \<times> (int \<times> int) \<times> bool) list"
  assumes n: "length es \<le> 2 ^ 32"
    and best: "best = fold keep_latest (map (\<lambda>i. (fst (es ! i), fst (snd (es ! i)), word_of_nat i, snd (snd (es ! i)))) [0..<length es]) []"
  shows "map unat (survivors best) = filter (\<lambda>i. latest_at es (fst (es ! i)) i \<and> \<not> snd (snd (es ! i))) [0..<length es]"
proof -
  let ?xs = "map (\<lambda>i. (fst (es ! i), fst (snd (es ! i)), word_of_nat i :: u32, snd (snd (es ! i)))) [0..<length es]"
  have lat: "latest_at ?xs k i \<longleftrightarrow> latest_at es k i" for k i by (auto simp: latest_at_def)
  have d: "distinct (map fst best)" unfolding best by (rule fold_keep_latest_distinct) simp
  have mem: "(k, ord, w, del) \<in> set best \<longleftrightarrow> (\<exists>i. latest_at es k i \<and> w = word_of_nat i \<and> es ! i = (k, ord, del))" for k ord w del
  proof -
    have "(k, ord, w, del) \<in> set best \<longleftrightarrow> map_of best k = Some (ord, w, del)" using d by simp
    also have "\<dots> \<longleftrightarrow> (\<exists>i. latest_at es k i \<and> ?xs ! i = (k, ord, w, del))"
      by (simp only: best keep_latest_iff lat)
    also have "\<dots> \<longleftrightarrow> (\<exists>i. latest_at es k i \<and> w = word_of_nat i \<and> es ! i = (k, ord, del))"
      by (auto simp: latest_at_def prod_eq_iff)
    finally show ?thesis .
  qed
  have small: "unat (word_of_nat i :: u32) = i" if "i < length es" for i
    using that n by (simp add: unat_u32)
  let ?ws = "map (\<lambda>(k, ord, i, del). i) (filter (\<lambda>(k, ord, i, del). \<not> del) best)"
  have "inj_on (\<lambda>(k, ord, i, del). i) (set best)"
  proof (rule inj_onI)
    fix x y assume xy: "x \<in> set best" "y \<in> set best" "(\<lambda>(k, ord, i, del). i) x = (\<lambda>(k, ord, i, del). i) y"
    obtain k1 o1 w d1 k2 o2 d2 where x: "x = (k1, o1, w, d1)" and y: "y = (k2, o2, w, d2)"
      using xy(3) by (cases x; cases y) auto
    obtain a where a: "latest_at es k1 a" "w = word_of_nat a" "es ! a = (k1, o1, d1)" using xy(1) unfolding x mem by blast
    obtain b where b: "latest_at es k2 b" "w = word_of_nat b" "es ! b = (k2, o2, d2)" using xy(2) unfolding y mem by blast
    have "a = b" using small [of a] small [of b] a(1,2) b(1,2) by (simp add: latest_at_def)
    then show "x = y" using a(3) b(3) by (simp add: x y)
  qed
  then have dw: "distinct ?ws"
    using d by (simp add: distinct_map distinct_filter inj_on_subset [of _ "set best"])
  have "set (map unat (survivors best)) = {i. i < length es \<and> latest_at es (fst (es ! i)) i \<and> \<not> snd (snd (es ! i))}"
  proof (intro set_eqI iffI)
    fix j assume "j \<in> set (map unat (survivors best))"
    then obtain k ord w where "(k, ord, w, False) \<in> set best" "j = unat w" by (auto simp: survivors_def)
    then obtain i where "latest_at es k i" "w = word_of_nat i" "es ! i = (k, ord, False)" unfolding mem by blast
    then show "j \<in> {i. i < length es \<and> latest_at es (fst (es ! i)) i \<and> \<not> snd (snd (es ! i))}"
      using small [of i] \<open>j = unat w\<close> by (simp add: latest_at_def)
  next
    fix j assume j: "j \<in> {i. i < length es \<and> latest_at es (fst (es ! i)) i \<and> \<not> snd (snd (es ! i))}"
    then have "(fst (es ! j), fst (snd (es ! j)), word_of_nat j, False) \<in> set best"
      unfolding mem by (intro exI [of _ j]) (simp add: prod_eq_iff)
    then have "word_of_nat j \<in> set (survivors best)" by (force simp: survivors_def)
    then show "j \<in> set (map unat (survivors best))" using small [of j] j by (force simp: image_iff)
  qed
  moreover have "sorted (map unat (survivors best))" "distinct (map unat (survivors best))"
    using dw unfolding survivors_def
    by (simp_all add: sorted_map word_le_nat_alt [symmetric] distinct_map [of unat] inj_on_def word_unat_eq_iff)
  ultimately show ?thesis
    by (intro sorted_distinct_set_unique) (auto simp: sorted_wrt_filter)
qed

text \<open>
  What Arrow documents of \<^verbatim>\<open>take\<close>, which gathers the cells at the given indices, and
  that a batch that was built has the arrays it was built from.
\<close>

definition gathers :: "Array \<Rightarrow> u32 list \<Rightarrow> Array \<Rightarrow> bool" where
  "gathers a idx a' \<longleftrightarrow> array_type a' = array_type a \<and> array_cells a' = map (\<lambda>i. array_cells a ! unat i) idx"

definition arrow_gathers :: "'d DeltaLib \<Rightarrow> bool" where
  "arrow_gathers lib \<longleftrightarrow>
     (\<forall>a idx a'. (\<forall>i \<in> set idx. unat i < length (validity a)) \<longrightarrow> lib_take lib a idx = Ok a' \<longrightarrow> gathers a idx a') \<and>
     (\<forall>schema arrays b. lib_try_new lib schema arrays = Ok b \<longrightarrow> b = \<lparr>rb_schema = schema, rb_columns = arrays\<rparr>)"

definition batch_wf :: "RecordBatch \<Rightarrow> bool" where
  "batch_wf b \<longleftrightarrow> length (rb_columns b) = length (rb_schema b) \<and>
     list_all (\<lambda>a. length (validity a) = num_rows b) (rb_columns b)"

lemma map_option_ctor_inj:
  "map_option VI64 x = map_option VI64 y \<longleftrightarrow> x = y" "map_option VBool x1 = map_option VBool y1 \<longleftrightarrow> x1 = y1"
  "map_option VI16 x2 = map_option VI16 y2 \<longleftrightarrow> x2 = y2" "map_option VI32 x3 = map_option VI32 y3 \<longleftrightarrow> x3 = y3"
  "map_option VF32 x4 = map_option VF32 y4 \<longleftrightarrow> x4 = y4" "map_option VF64 x5 = map_option VF64 y5 \<longleftrightarrow> x5 = y5"
  "map_option VText x6 = map_option VText y6 \<longleftrightarrow> x6 = y6" "map_option VBytes x7 = map_option VBytes y7 \<longleftrightarrow> x7 = y7"
  by (auto dest: injD [OF option.inj_map, rotated] simp: inj_def)

lemma arrow_cell_key_cells:
  assumes "array_type a' = array_type a" "i < length (array_cells a)" "j < length (array_cells a')"
    "array_cells a' ! j = array_cells a ! i"
  shows "arrow_cell_key a' ty j = arrow_cell_key a ty i"
proof -
  have "array_null a' j = array_null a i" using assms by (simp add: array_null_def validity_cells)
  then show ?thesis
    using assms by (cases a; cases a'; simp add: arrow_cell_key_def Let_def map_option_ctor_inj split: PgType.split)
qed

lemma gathers_i64: "downcast_i64 a = Ok xs \<Longrightarrow> gathers a idx a' \<Longrightarrow> \<forall>i \<in> set idx. unat i < length (validity a) \<Longrightarrow>
   downcast_i64 a' = Ok (map (\<lambda>i. xs ! unat i) idx)"
  by (cases a; cases a')
    (auto simp: gathers_def list_eq_iff_nth_eq map_option_ctor_inj)

lemma gathers_bool: "downcast_bool a = Ok xs \<Longrightarrow> gathers a idx a' \<Longrightarrow> \<forall>i \<in> set idx. unat i < length (validity a) \<Longrightarrow>
   downcast_bool a' = Ok (map (\<lambda>i. xs ! unat i) idx)"
  by (cases a; cases a')
    (auto simp: gathers_def list_eq_iff_nth_eq map_option_ctor_inj)

lemma gathered_entries:
  assumes wf: "batch_wf b" and es: "change_entries lib desc pk_idx b = Ok es"
    and keep: "\<forall>w \<in> set keep. unat w < num_rows b"
    and b': "rb_schema b' = rb_schema b" "list_all2 (\<lambda>a a'. gathers a keep a') (rb_columns b) (rb_columns b')"
  shows "change_entries lib desc pk_idx b' = Ok (map (\<lambda>w. es ! unat w) keep)" "num_rows b' = length keep"
proof -
  have len: "length (validity a) = num_rows b" if "a \<in> set (rb_columns b)" for a
    using wf that by (simp add: batch_wf_def list_all_iff)
  have col: "index (rb_columns b') i = Ok (rb_columns b' ! i) \<and> gathers a keep (rb_columns b' ! i) \<and> a \<in> set (rb_columns b)"
    if "index (rb_columns b) i = Ok a" for i a
    using that b'(2) by (auto simp: index_def get_eq_Some result_simps list_all2_conv_all_nth)
  have by_name: "\<exists>a'. batch_column b' n = Ok a' \<and> gathers a keep a' \<and> a \<in> set (rb_columns b)" if "batch_column b n = Ok a" for n a
    using that col by (auto simp: batch_column_def column_index_def b'(1) result_simps)
  obtain lsns seqs dels tys arrs where r:
    "rbind (batch_column b LSN_COL) downcast_i64 = Ok lsns" "rbind (batch_column b SEQ_COL) downcast_i64 = Ok seqs"
    "rbind (batch_column b DELETED_COL) downcast_bool = Ok dels" "key_types desc = Ok tys"
    "rmap (index (rb_columns b)) pk_idx = Ok arrs"
    and e: "rmap (\<lambda>i. rbind (row_key (zip arrs tys) i) (\<lambda>k.
         Ok (k, (sint (slot (lib_null_i64 lib) lsns i), sint (slot (lib_null_i64 lib) seqs i)),
             slot (lib_null_bool lib) dels i))) [0..<num_rows b] = Ok es"
    using es unfolding change_entries_def rbind_eq_Ok [of _ _ es] by blast
  let ?g = "\<lambda>xs. map (\<lambda>w. xs ! unat w) keep"
  have i64: "rbind (batch_column b' n) downcast_i64 = Ok (?g xs)" if "rbind (batch_column b n) downcast_i64 = Ok xs" for n xs
  proof -
    obtain a where a: "batch_column b n = Ok a" "downcast_i64 a = Ok xs" using \<open>rbind _ _ = Ok xs\<close> by (auto simp: rbind_eq_Ok)
    then show ?thesis using by_name [OF a(1)] gathers_i64 [OF a(2)] keep len by auto
  qed
  have bl: "rbind (batch_column b' n) downcast_bool = Ok (?g xs)" if "rbind (batch_column b n) downcast_bool = Ok xs" for n xs
  proof -
    obtain a where a: "batch_column b n = Ok a" "downcast_bool a = Ok xs" using \<open>rbind _ _ = Ok xs\<close> by (auto simp: rbind_eq_Ok)
    then show ?thesis using by_name [OF a(1)] gathers_bool [OF a(2)] keep len by auto
  qed
  let ?arrs = "map (\<lambda>i. rb_columns b' ! i) pk_idx"
  have arrs: "length arrs = length pk_idx" "index (rb_columns b) (pk_idx ! k) = Ok (arrs ! k)" if "k < length pk_idx" for k
    using r(5) that by (simp_all add: rmap_nth_iff)
  have r5: "rmap (index (rb_columns b')) pk_idx = Ok ?arrs"
    using arrs(2) col by (auto simp: rmap_nth_iff)
  have nr: "num_rows b' = length keep"
  proof -
    obtain a where "a \<in> set (rb_columns b)" "gathers a keep (hd (rb_columns b'))" "rb_columns b' \<noteq> []"
      using r(1) b'(2) by (cases "rb_columns b"; cases "rb_columns b'") (auto simp: batch_column_def index_def get_def result_simps split: if_splits)
    then show ?thesis by (cases "rb_columns b'") (simp_all add: num_rows_def gathers_def validity_cells)
  qed
  have key: "row_key (zip ?arrs tys) j = row_key (zip arrs tys) (unat (keep ! j))" if j: "j < length keep" for j
  proof -
    have cell: "arrow_cell_key (rb_columns b' ! (pk_idx ! k)) ty j = arrow_cell_key (arrs ! k) ty (unat (keep ! j))" if "k < length pk_idx" for k ty
    proof -
      have g: "gathers (arrs ! k) keep (rb_columns b' ! (pk_idx ! k))" "length (array_cells (arrs ! k)) = num_rows b"
        using col [OF arrs(2) [OF that]] len that by (auto simp: length_validity)
      then show ?thesis using j keep
        by (intro arrow_cell_key_cells) (auto simp: gathers_def)
    qed
    have "map (\<lambda>(a, ty). arrow_cell_key a ty j) (zip ?arrs tys) = map (\<lambda>(a, ty). arrow_cell_key a ty (unat (keep ! j))) (zip arrs tys)"
      by (rule nth_equalityI) (simp_all add: rmap_Ok_length [OF r(5)] cell)
    from rmap_same [OF this] show ?thesis unfolding row_key_def by simp
  qed
  show "num_rows b' = length keep" by (rule nr)
  have "rmap (\<lambda>i. rbind (row_key (zip ?arrs tys) i) (\<lambda>k.
         Ok (k, (sint (slot (lib_null_i64 lib) (?g lsns) i), sint (slot (lib_null_i64 lib) (?g seqs) i)),
             slot (lib_null_bool lib) (?g dels) i))) [0..<num_rows b'] = Ok (map (\<lambda>w. es ! unat w) keep)"
  proof (unfold rmap_nth_iff, intro conjI allI impI)
    fix j assume "j < length [0..<num_rows b']"
    then have j: "j < length keep" by (simp add: nr)
    then have w: "unat (keep ! j) < num_rows b" using keep by simp
    show "rbind (row_key (zip ?arrs tys) ([0..<num_rows b'] ! j)) (\<lambda>k.
         Ok (k, (sint (slot (lib_null_i64 lib) (?g lsns) ([0..<num_rows b'] ! j)), sint (slot (lib_null_i64 lib) (?g seqs) ([0..<num_rows b'] ! j))),
             slot (lib_null_bool lib) (?g dels) ([0..<num_rows b'] ! j))) = Ok (map (\<lambda>w. es ! unat w) keep ! j)"
      using rmap_Ok_nth [OF e, of "unat (keep ! j)"] w j by (simp add: key [OF j] nr slot_def)
  qed (simp add: nr)
  then show "change_entries lib desc pk_idx b' = Ok (map (\<lambda>w. es ! unat w) keep)"
    unfolding change_entries_def i64 [OF r(1)] i64 [OF r(2)] bl [OF r(3)] r(4) r5 rbind.simps .
qed

lemma latest_survive:
  fixes es :: "(string \<times> (int \<times> int) \<times> bool) list"
  assumes keep: "ks = filter (\<lambda>i. latest_at es (fst (es ! i)) i \<and> \<not> snd (snd (es ! i))) [0..<length es]"
  shows "distinct (map (\<lambda>i. fst (es ! i)) ks)"
    and "latest_at (map (nth es) ks) k j \<longleftrightarrow> j < length ks \<and> fst (es ! (ks ! j)) = k"
proof -
  have inj: "i = j" if "i \<in> set ks" "j \<in> set ks" "fst (es ! i) = fst (es ! j)" for i j
    using that latest_at_unique [of es "fst (es ! i)" i j] by (simp add: keep)
  show d: "distinct (map (\<lambda>i. fst (es ! i)) ks)"
  proof (unfold distinct_map, intro conjI inj_onI)
    show "distinct ks" by (simp add: keep)
  qed (rule inj)
  have "fst (es ! (ks ! i)) \<noteq> fst (es ! (ks ! j))" if "i < length ks" "j < length ks" "i \<noteq> j" for i j
    using that d nth_eq_iff_index_eq [OF d, of i j] by simp
  then show "latest_at (map (nth es) ks) k j \<longleftrightarrow> j < length ks \<and> fst (es ! (ks ! j)) = k"
    unfolding latest_at_def by (auto, metis order.refl)
qed

lemma compact_plan_keeps:
  assumes lib: "arrow_gathers lib" and wf: "batch_wf all" "rb_schema all = schema" "num_rows all \<le> 2 ^ 32"
    and plan: "compact_plan lib desc schema pk_idx n all = Ok (Some (before, after, compacted))"
  shows "\<exists>es es'. change_entries lib desc pk_idx all = Ok es \<and> change_entries lib desc pk_idx compacted = Ok es' \<and>
     current_rows es' compacted = current_rows es all \<and>
     distinct (map fst es') \<and> list_all (\<lambda>e. \<not> snd (snd e)) es' \<and>
     before = num_rows all \<and> after = num_rows compacted"
proof -
  obtain best arrs where best: "best_of_batch lib desc pk_idx all = Ok best"
    and arrs: "rmap (\<lambda>a. lib_take lib a (survivors best)) (rb_columns all) = Ok arrs"
    and c0: "lib_try_new lib schema arrs = Ok compacted" "before = num_rows all" "after = length (survivors best)"
    using plan by (auto simp: compact_plan_def Let_def result_simps split: if_splits)
  let ?keep = "survivors best"
  obtain es where es: "change_entries lib desc pk_idx all = Ok es" "length es = num_rows all"
    and b: "best = fold keep_latest (map (\<lambda>i. (fst (es ! i), fst (snd (es ! i)), word_of_nat i, snd (snd (es ! i)))) [0..<num_rows all]) []"
    using best_of_entries [OF best] by (elim exE conjE)
  define ks where "ks = filter (\<lambda>i. latest_at es (fst (es ! i)) i \<and> \<not> snd (snd (es ! i))) [0..<length es]"
  have ks: "map unat ?keep = ks"
    unfolding ks_def by (rule survivors_latest) (use wf(3) b es(2) in simp_all)
  have lk: "length ?keep = length ks" using ks by (metis length_map)
  have "set (map unat ?keep) \<subseteq> {..<num_rows all}" unfolding ks by (auto simp: ks_def es(2))
  then have small: "\<forall>w \<in> set ?keep. unat w < num_rows all" by auto
  have comp: "compacted = \<lparr>rb_schema = schema, rb_columns = arrs\<rparr>"
    using lib c0(1) unfolding arrow_gathers_def by blast
  have "gathers (rb_columns all ! i) ?keep (arrs ! i)" if "i < length (rb_columns all)" for i
  proof -
    have "length (validity (rb_columns all ! i)) = num_rows all" using wf(1) that by (simp add: batch_wf_def list_all_length)
    moreover have "lib_take lib (rb_columns all ! i) ?keep = Ok (arrs ! i)" using rmap_Ok_nth [OF arrs that] .
    ultimately show ?thesis using lib small unfolding arrow_gathers_def by metis
  qed
  then have cols: "list_all2 (\<lambda>a a'. gathers a ?keep a') (rb_columns all) (rb_columns compacted)"
    using rmap_Ok_length [OF arrs] by (simp add: comp list_all2_conv_all_nth)
  have sch: "rb_schema compacted = rb_schema all" by (simp add: comp wf(2))
  note ge = gathered_entries [OF wf(1) es(1) small sch cols]
  have es': "map (\<lambda>w. es ! unat w) ?keep = map (nth es) ks" by (simp flip: ks)
  have row: "batch_row compacted j = batch_row all (ks ! j)" if j: "j < length ks" for j
  proof (rule nth_equalityI)
    fix i assume "i < length (batch_row compacted j)"
    then have i: "i < length (rb_columns compacted)" by (simp add: batch_row_def)
    then have "array_cells (rb_columns compacted ! i) = map (\<lambda>w. array_cells (rb_columns all ! i) ! unat w) ?keep"
      using cols by (simp add: list_all2_conv_all_nth gathers_def)
    moreover have "ks ! j = unat (?keep ! j)" using ks lk j by (metis nth_map)
    moreover have "i < length (rb_columns all)" using i list_all2_lengthD [OF cols] by simp
    ultimately show "batch_row compacted j ! i = batch_row all (ks ! j) ! i"
      using i j lk by (simp add: batch_row_def)
  qed (use cols in \<open>simp add: batch_row_def list_all2_lengthD\<close>)
  have live: "\<not> snd (snd (es ! (ks ! j)))" "latest_at es (fst (es ! (ks ! j))) (ks ! j)" if "j < length ks" for j
    using nth_mem [OF that] by (simp_all add: ks_def)
  have "current_rows (map (nth es) ks) compacted = current_rows es all"
  proof (intro set_eqI iffI)
    fix r assume "r \<in> current_rows (map (nth es) ks) compacted"
    then obtain j where "j < length ks" "r = batch_row compacted j"
      unfolding current_rows_def latest_survive(2) [OF ks_def] by blast
    then show "r \<in> current_rows es all" using live row unfolding current_rows_def by blast
  next
    fix r assume "r \<in> current_rows es all"
    then obtain i k where i: "latest_at es k i" "\<not> snd (snd (es ! i))" "r = batch_row all i" unfolding current_rows_def by blast
    then have "i \<in> set ks" by (auto simp: ks_def latest_at_def)
    then obtain j where j: "j < length ks" "ks ! j = i" by (metis in_set_conv_nth)
    then show "r \<in> current_rows (map (nth es) ks) compacted"
      unfolding current_rows_def latest_survive(2) [OF ks_def] using i row [of j]
      by (intro CollectI exI [of _ j] exI [of _ "fst (es ! i)"]) simp
  qed
  moreover have "list_all (\<lambda>e. \<not> snd (snd e)) (map (nth es) ks)" by (simp add: list_all_length live)
  moreover have "distinct (map fst (map (nth es) ks))" using latest_survive(1) [OF ks_def] by (simp add: comp_def)
  ultimately show ?thesis
    using es(1) ge c0 unfolding es' by (intro exI [of _ es] exI [of _ "map (nth es) ks"]) simp
qed

section \<open>An in-memory table\<close>

text \<open>
  A Delta table kept in memory: its fields, its transactions, newest first, and its batches. It
  shows that what the theorems assume of the libraries can hold.
\<close>

type_synonym mem_table = "StructField list \<times> (string \<times> i64) list \<times> RecordBatch list"

fun gather :: "u32 list \<Rightarrow> Array \<Rightarrow> Array" where
  "gather idx (BooleanArray xs) = BooleanArray (map (\<lambda>i. xs ! unat i) idx)"
| "gather idx (Int16Array xs) = Int16Array (map (\<lambda>i. xs ! unat i) idx)"
| "gather idx (Int32Array xs) = Int32Array (map (\<lambda>i. xs ! unat i) idx)"
| "gather idx (Int64Array xs) = Int64Array (map (\<lambda>i. xs ! unat i) idx)"
| "gather idx (Float32Array xs) = Float32Array (map (\<lambda>i. xs ! unat i) idx)"
| "gather idx (Float64Array xs) = Float64Array (map (\<lambda>i. xs ! unat i) idx)"
| "gather idx (StringArray xs) = StringArray (map (\<lambda>i. xs ! unat i) idx)"
| "gather idx (BinaryArray xs) = BinaryArray (map (\<lambda>i. xs ! unat i) idx)"
| "gather idx (Date32Array xs) = Date32Array (map (\<lambda>i. xs ! unat i) idx)"
| "gather idx (TimestampMicrosArray tz xs) = TimestampMicrosArray tz (map (\<lambda>i. xs ! unat i) idx)"

definition mem_lib :: "mem_table DeltaLib" where
  "mem_lib =
     \<lparr>lib_open = \<lambda>_. Ok None,
      lib_create = \<lambda>_ _ fs. Ok (fs, [], []),
      lib_fields = \<lambda>t. if distinct (map sf_name (fst t)) then Some (fst t) else None,
      lib_txn = \<lambda>t k. Ok (map_of (fst (snd t)) k),
      lib_metadata = \<lambda>fs t. Ok (fs, snd t),
      lib_append = \<lambda>b txns t. if distinct (map sf_name (fst t)) then Ok (1, fst t, txns @ fst (snd t), snd (snd t) @ [b])
                                else Err (Bail ''not a table''),
      lib_files = \<lambda>t. Ok (map (\<lambda>b. [b]) (snd (snd t))),
      lib_replace = \<lambda>b txns t. Ok (fst t, txns @ fst (snd t), case b of Some b' \<Rightarrow> [b'] | None \<Rightarrow> []),
      lib_vacuum = \<lambda>_ t. Ok (0, t),
      lib_try_new = \<lambda>sch arrs. Ok \<lparr>rb_schema = sch, rb_columns = arrs\<rparr>,
      lib_concat = \<lambda>sch bs. (case bs of b # _ \<Rightarrow> Ok b | [] \<Rightarrow> Err (Bail ''no batches'')),
      lib_take = \<lambda>a idx. Ok (gather idx a),
      lib_null_i64 = 0,
      lib_null_bool = False\<rparr>"

lemma mem_lib_laws: "arrow_builds mem_lib" "arrow_gathers mem_lib" "fields_named_apart mem_lib"
proof -
  show "arrow_builds mem_lib" by (simp add: arrow_builds_def mem_lib_def)
  have "gathers a idx (gather idx a)" if "\<forall>i \<in> set idx. unat i < length (validity a)" for a idx
    using that by (cases a) (simp_all add: gathers_def)
  then show "arrow_gathers mem_lib" by (simp add: arrow_gathers_def mem_lib_def)
  show "fields_named_apart mem_lib" by (simp add: fields_named_apart_def mem_lib_def)
qed

definition notes_desc :: TableDesc where
  "notes_desc = \<lparr>td_name = ''notes'', td_oid = 16384, db_oid = 5, rel_node = 16384, toast_rel_node = None,
     cols = [\<lparr>col_name = ''id'', col_ty = Text\<rparr>], phys = [Live \<lparr>col_name = ''id'', col_ty = Text\<rparr>],
     has_fast_defaults = False, pk = [''id'']\<rparr>"

definition note_row :: "lsn \<Rightarrow> nat \<Rightarrow> bool \<Rightarrow> u16 \<Rightarrow> string \<Rightarrow> EmitRow" where
  "note_row l n del off name = \<lparr>er_lsn = l, er_seq = n, er_deleted = del, er_ctid = (0, off), er_row = [Some (VText name)]\<rparr>"

definition note_groups :: "EmitRow list list" where
  "note_groups = [[note_row 100 1 False 1 ''a'', note_row 100 2 False 2 ''b''], [note_row 200 1 True 1 ''a'']]"

definition notes_cols :: "DeltaCol list" where
  "notes_cols = [\<lparr>dc_col = \<lparr>col_name = ''id'', col_ty = Text\<rparr>, dc_live = Some 0\<rparr>]"

definition notes_sink :: "RecordBatch list \<Rightarrow> mem_table DeltaSink" where
  "notes_sink bs = \<lparr>ds_table = (struct_fields (cols notes_desc), [], bs),
     ds_arrow_schema = build_arrow_schema notes_cols, ds_cols = notes_cols, ds_dirty = False\<rparr>"

lemma notes_open: "open_or_create mem_lib ''lake'' notes_desc = Ok (notes_sink [])"
  by (simp add: open_or_create_def mem_lib_def notes_desc_def notes_sink_def notes_cols_def struct_fields_def
      LSN_COL_def SEQ_COL_def DELETED_COL_def CTID_COL_def pg_from_delta_def delta_type_def type_conflict_def link_sink_def Let_def)

lemma notes_wf: "sink_wf (cols notes_desc) (notes_sink bs)" "user_columns_apart (notes_sink bs)"
  "distinct (map col_name (cols notes_desc))"
  by (simp_all add: sink_wf_def notes_desc_def notes_sink_def notes_cols_def dc_name_def col_linked_def type_conflict_def
      user_columns_apart_def meta_names_def LSN_COL_def SEQ_COL_def DELETED_COL_def CTID_COL_def)

section \<open>Properties of the sink\<close>

text \<open>
  C31 (invariant): whatever sequence of opening, schema changes, appends, compactions and vacuums
  led to a sink, its columns are named apart, its Arrow schema is the one of its columns, each
  column reads the live column of its own name (of a type with the same representation) or, when
  that column was dropped, nothing, and every live column has one; and the arrays built for any rows fit
  that schema, so a batch is always built.
\<close>

theorem sink_schema_invariant:
  assumes "fields_named_apart lib" and "arrow_builds lib" and "sink_reach lib cs s"
  shows "sink_wf cs s \<and> make_batch lib s rows = Ok (batch_of s rows)"
  using sink_reach_wf [OF assms(1,3)] make_batch_Ok [OF assms(2)] by blast

theorem sink_schema_invariant_witness:
  "sink_wf (cols notes_desc) (notes_sink []) \<and> make_batch mem_lib (notes_sink []) [note_row 100 1 False 1 ''a''] =
     Ok (batch_of (notes_sink []) [note_row 100 1 False 1 ''a''])"
proof (rule sink_schema_invariant)
  show "sink_reach mem_lib (cols notes_desc) (notes_sink [])"
    by (rule reach_open [OF notes_open notes_wf(3)])
qed (rule mem_lib_laws)+

text \<open>
  C32 (roundtrip): when the files of a table hold the batches the sink made of some change rows, in
  any grouping, reloading succeeds and the mirror holds at an address exactly the row of the latest
  entry (by commit LSN, then sequence number) of that address, unless that entry is a tombstone.
\<close>

theorem mirror_rebuilt_from_log:
  assumes wf: "sink_wf (cols desc) s" "distinct (map col_name (cols desc))" "user_columns_apart s" "arrow_builds lib"
    and files: "lib_files lib (ds_table s) = Ok files" "rmap (make_batch lib s) groups = Ok (concat files)"
    and rows: "list_all (entry_typed (cols desc)) (concat groups)"
    and enc: "\<forall>e \<in> set (concat groups). encode_attrs (er_row e) desc = Ok (attrs (er_row e))"
  shows "\<exists>m. load_mirror lib desc s = Ok m \<and>
     (\<forall>c v. map_of m c = Some v \<longleftrightarrow>
        (\<exists>i. latest_at (map log_entry (concat groups)) c i \<and> \<not> er_deleted (concat groups ! i) \<and>
             v = \<lparr>rv_row = er_row (concat groups ! i), rv_attrs = attrs (er_row (concat groups ! i))\<rparr>))"
proof -
  let ?es = "map log_entry (concat groups)"
  have "rmap (make_batch lib s) groups = Ok (map (batch_of s) groups)"
    by (rule rmap_all_Ok) (rule make_batch_Ok [OF wf(4,1)])
  then have batches: "concat files = map (batch_of s) groups" using files(2) by simp
  obtain m where m: "load_mirror lib desc s = Ok m"
    and look: "\<forall>c. map_of m c = (case map_of (fold keep_latest ?es []) c of
        Some (ord, del, row) \<Rightarrow> if del then None else Some \<lparr>rv_row = row, rv_attrs = attrs row\<rparr> | None \<Rightarrow> None)"
    using load_mirror_latest [OF wf(1-3) files(1) batches rows enc] by (elim exE conjE)
  have "map_of m c = Some v \<longleftrightarrow>
      (\<exists>ord del row. map_of (fold keep_latest ?es []) c = Some (ord, del, row) \<and> \<not> del \<and> v = \<lparr>rv_row = row, rv_attrs = attrs row\<rparr>)" for c v
    using spec [OF look, of c] by (auto split: option.splits)
  also have "\<dots> c v \<longleftrightarrow> (\<exists>i. latest_at ?es c i \<and> \<not> er_deleted (concat groups ! i) \<and>
      v = \<lparr>rv_row = er_row (concat groups ! i), rv_attrs = attrs (er_row (concat groups ! i))\<rparr>)" for c v
  proof -
    have ent: "?es ! i = (c, (int (er_lsn (concat groups ! i)), int (er_seq (concat groups ! i))), er_deleted (concat groups ! i), er_row (concat groups ! i))"
      if "latest_at ?es c i" for i
      using that by (auto simp: latest_at_def log_entry_def)
    show ?thesis unfolding keep_latest_iff
    proof
      assume "\<exists>i. latest_at ?es c i \<and> \<not> er_deleted (concat groups ! i) \<and>
        v = \<lparr>rv_row = er_row (concat groups ! i), rv_attrs = attrs (er_row (concat groups ! i))\<rparr>"
      then obtain i where "latest_at ?es c i" "\<not> er_deleted (concat groups ! i)"
        "v = \<lparr>rv_row = er_row (concat groups ! i), rv_attrs = attrs (er_row (concat groups ! i))\<rparr>" by (elim exE conjE)
      then show "\<exists>ord del row. (\<exists>i. latest_at ?es c i \<and> ?es ! i = (c, ord, del, row)) \<and> \<not> del \<and> v = \<lparr>rv_row = row, rv_attrs = attrs row\<rparr>"
        using ent by metis
    qed (use ent in auto)
  qed
  finally show ?thesis using m by blast
qed

lemma notes_encode: "encode_attrs [Some (VText [c])] notes_desc = Ok (Some [5, word_of_nat (of_char c)])"
  by (simp add: encode_attrs_def notes_desc_def encode_short_varlena_def as_bytes_def pad_put_def)

theorem mirror_rebuilt_from_log_witness:
  "\<exists>m. load_mirror mem_lib notes_desc (notes_sink (map (batch_of (notes_sink [])) note_groups)) = Ok m \<and>
     map_of m (0, 1) = None \<and>
     map_of m (0, 2) = Some \<lparr>rv_row = [Some (VText ''b'')], rv_attrs = Some [5, 98]\<rparr>"
proof -
  let ?s = "notes_sink (map (batch_of (notes_sink [])) note_groups)"
  define attrs :: "Row \<Rightarrow> bytes option" where
    "attrs row = (case row of [Some (VText s)] \<Rightarrow> Some (5 # as_bytes s) | _ \<Rightarrow> None)" for row
  have b: "batch_of ?s = batch_of (notes_sink [])" by (simp add: fun_eq_iff batch_of_def notes_sink_def)
  have typed: "list_all (entry_typed (cols notes_desc)) (concat note_groups)"
    by (simp add: note_groups_def note_row_def entry_typed_def row_typed_def notes_desc_def value_fits_def arrow_type_def)
  have enc: "\<forall>e \<in> set (concat note_groups). encode_attrs (er_row e) notes_desc = Ok (attrs (er_row e))"
    by (auto simp: note_groups_def note_row_def notes_encode attrs_def as_bytes_def)
  have files: "lib_files mem_lib (ds_table ?s) = Ok (map (\<lambda>b. [b]) (map (batch_of (notes_sink [])) note_groups))"
    by (simp add: mem_lib_def notes_sink_def)
  have "rmap (make_batch mem_lib ?s) note_groups = Ok (map (batch_of ?s) note_groups)"
    by (rule rmap_all_Ok) (rule make_batch_Ok [OF mem_lib_laws(1) notes_wf(1)])
  then have made: "rmap (make_batch mem_lib ?s) note_groups = Ok (concat (map (\<lambda>b. [b]) (map (batch_of (notes_sink [])) note_groups)))"
    by (simp add: b comp_def)
  obtain m where m: "load_mirror mem_lib notes_desc ?s = Ok m"
    and look: "\<And>c v. map_of m c = Some v \<longleftrightarrow>
        (\<exists>i. latest_at (map log_entry (concat note_groups)) c i \<and> \<not> er_deleted (concat note_groups ! i) \<and>
             v = \<lparr>rv_row = er_row (concat note_groups ! i), rv_attrs = attrs (er_row (concat note_groups ! i))\<rparr>)"
    using mirror_rebuilt_from_log [OF notes_wf(1,3,2) mem_lib_laws(1) files made typed enc] by blast
  have one: "latest_at (map log_entry (concat note_groups)) (0, 1) i \<longleftrightarrow> i = 2" for i
    by (auto simp: latest_at_def note_groups_def note_row_def log_entry_def less_Suc_eq numeral_3_eq_3 All_less_Suc)
  have two: "latest_at (map log_entry (concat note_groups)) (0, 2) i \<longleftrightarrow> i = 1" for i
    by (auto simp: latest_at_def note_groups_def note_row_def log_entry_def less_Suc_eq numeral_3_eq_3 All_less_Suc)
  have "\<nexists>v. map_of m (0, 1) = Some v" unfolding look one by (simp add: note_groups_def note_row_def)
  then have "map_of m (0, 1) = None" by (metis not_Some_eq)
  moreover have "map_of m (0, 2) = Some \<lparr>rv_row = [Some (VText ''b'')], rv_attrs = Some [5, 98]\<rparr>"
    unfolding look two by (simp add: note_groups_def note_row_def attrs_def as_bytes_def)
  ultimately show ?thesis using m by blast
qed


definition notes_log :: RecordBatch where
  "notes_log = batch_of (notes_sink []) [note_row 100 1 False 1 ''a'', note_row 100 2 False 2 ''b'', note_row 200 1 False 3 ''a'']"

lemma notes_best:
  "best_of_batch mem_lib notes_desc [0] notes_log =
     Ok [(''a'' @ [CHR 0x1F], (200, 1), 2, False), (''b'' @ [CHR 0x1F], (100, 2), 1, False)]"
proof -
  have "key_types notes_desc = Ok [Text]" by (simp add: key_types_def notes_desc_def)
  moreover have "index (rb_columns notes_log) 0 = Ok (StringArray [Some ''a'', Some ''b'', Some ''a''])"
    by (simp add: index_def get_def notes_log_def batch_of_def notes_sink_def notes_cols_def col_array_def col_vals_def note_row_def)
  moreover have "row_key [(StringArray [Some ''a'', Some ''b'', Some ''a''], Text)] i = Ok ([''a'', ''b'', ''a''] ! i @ [CHR 0x1F])"
    if "i \<in> {0, 1, 2}" for i
    using that by (auto simp: row_key_def arrow_cell_key_def array_null_def Let_def)
  ultimately show ?thesis
    by (simp add: best_of_batch_def notes_log_def meta_columns [OF notes_wf(1,2)] num_rows_batch_of
        note_row_def slot_def upt_rec)
qed

lemma notes_plan:
  "compact_plan mem_lib notes_desc (rb_schema notes_log) [0] 1 notes_log =
     Ok (Some (3, 2, batch_of (notes_sink []) [note_row 100 2 False 2 ''b'', note_row 200 1 False 3 ''a'']))"
  unfolding compact_plan_def notes_best rbind.simps
  by (simp add: Let_def survivors_def mem_lib_def notes_log_def num_rows_def batch_of_def
      notes_sink_def notes_cols_def col_array_def col_vals_def meta_arrays_def note_row_def get_def word_le_nat_alt)


end
