(* ===== verification/Walrecord.thy ===== *)
theory Walrecord
  imports Compression
begin

text \<open>
  The record half of \<^verbatim>\<open>src/wal/mod.rs\<close>: full-page images and their restoration, and the
  parser of a reassembled record (header, checksum, block references, payloads). The checksum
  \<^verbatim>\<open>crc32c\<close> and the LZ4 and Zstandard decompressors are third-party code and parameters here.
\<close>

section \<open>Data\<close>

record RelTag =
  spc :: u32
  db :: u32
  rel :: u32

record PageImage =
  img_data :: bytes
  hole_offset :: u16
  hole_len :: u16
  bimg_info :: u8

record BlockRef =
  blk_id :: u8
  blk_rel :: RelTag
  blkno :: u32
  image :: "PageImage option"
  blk_data :: bytes

record Record =
  xid :: u32
  rmid :: u8
  info :: u8
  blocks :: "BlockRef list"
  main_data :: bytes

definition XLOG_BLCKSZ :: nat where "XLOG_BLCKSZ = 8192"
definition HDR_LEN :: nat where "HDR_LEN = 24"
definition BKPBLOCK_HAS_IMAGE :: u8 where "BKPBLOCK_HAS_IMAGE = 0x10"
definition BKPBLOCK_HAS_DATA :: u8 where "BKPBLOCK_HAS_DATA = 0x20"
definition BKPBLOCK_SAME_REL :: u8 where "BKPBLOCK_SAME_REL = 0x80"
definition BKPIMAGE_HAS_HOLE :: u8 where "BKPIMAGE_HAS_HOLE = 0x01"
definition BKPIMAGE_COMPRESS_PGLZ :: u8 where "BKPIMAGE_COMPRESS_PGLZ = 0x04"
definition BKPIMAGE_COMPRESS_LZ4 :: u8 where "BKPIMAGE_COMPRESS_LZ4 = 0x08"
definition BKPIMAGE_COMPRESS_ZSTD :: u8 where "BKPIMAGE_COMPRESS_ZSTD = 0x10"
definition BKPIMAGE_COMPRESS_MASK :: u8 where "BKPIMAGE_COMPRESS_MASK = 0x04 OR 0x08 OR 0x10"
definition XLR_BLOCK_ID_DATA_SHORT :: u8 where "XLR_BLOCK_ID_DATA_SHORT = 255"
definition XLR_BLOCK_ID_DATA_LONG :: u8 where "XLR_BLOCK_ID_DATA_LONG = 254"
definition XLR_BLOCK_ID_ORIGIN :: u8 where "XLR_BLOCK_ID_ORIGIN = 253"
definition XLR_BLOCK_ID_TOPLEVEL_XID :: u8 where "XLR_BLOCK_ID_TOPLEVEL_XID = 252"
definition XLR_MAX_BLOCK_ID :: u8 where "XLR_MAX_BLOCK_ID = 32"

lemmas walrecord_consts = XLOG_BLCKSZ_def HDR_LEN_def BKPBLOCK_HAS_IMAGE_def BKPBLOCK_HAS_DATA_def
  BKPBLOCK_SAME_REL_def BKPIMAGE_HAS_HOLE_def BKPIMAGE_COMPRESS_PGLZ_def BKPIMAGE_COMPRESS_LZ4_def
  BKPIMAGE_COMPRESS_ZSTD_def BKPIMAGE_COMPRESS_MASK_def XLR_BLOCK_ID_DATA_SHORT_def
  XLR_BLOCK_ID_DATA_LONG_def XLR_BLOCK_ID_ORIGIN_def XLR_BLOCK_ID_TOPLEVEL_XID_def XLR_MAX_BLOCK_ID_def

section \<open>Restoring a page image\<close>

definition restore :: "decompressor \<Rightarrow> decompressor \<Rightarrow> PageImage \<Rightarrow> bytes result" where
  "restore lz4 zstd im =
     (if unat (hole_len im) > XLOG_BLCKSZ then Err (Panic ''attempt to subtract with overflow'')
      else
        let raw = XLOG_BLCKSZ - unat (hole_len im);
            m = bimg_info im AND BKPIMAGE_COMPRESS_MASK
        in rbind
          (if m = 0 then Ok (img_data im)
           else if m = BKPIMAGE_COMPRESS_PGLZ then pglz_decompress (img_data im) raw
           else if m = BKPIMAGE_COMPRESS_LZ4 then lz4_decompress lz4 (img_data im) raw
           else if m = BKPIMAGE_COMPRESS_ZSTD then ok_or (zstd (img_data im) raw) (Bail ''zstd page image'')
           else Err (Bail ''unsupported page-image compression''))
          (\<lambda>body.
             let hole_off = unat (hole_offset im); hlen = unat (hole_len im) in
             if length body + hlen \<noteq> XLOG_BLCKSZ \<or> hole_off + hlen > XLOG_BLCKSZ
             then Err (Bail ''bad page image geometry'')
             else
               rbind (slice body 0 hole_off) (\<lambda>a.
               rbind (slice body hole_off (length body)) (\<lambda>b.
                 Ok (a @ replicate hlen 0 @ b)))))"

section \<open>Parsing a record\<close>

record Cursor =
  buf :: bytes
  off :: nat

definition cursor_take :: "nat \<Rightarrow> Cursor \<Rightarrow> (bytes \<times> Cursor) result" where
  "cursor_take n c =
     (if off c + n > length (buf c) then Err (Bail ''record truncated'')
      else Ok (take n (drop (off c) (buf c)), c\<lparr>off := off c + n\<rparr>))"

definition cursor_u8 :: "Cursor \<Rightarrow> (u8 \<times> Cursor) result" where
  "cursor_u8 c = rbind (cursor_take 1 c) (\<lambda>(b, c). Ok (hd b, c))"

definition cursor_u16 :: "Cursor \<Rightarrow> (u16 \<times> Cursor) result" where
  "cursor_u16 c = rbind (cursor_take 2 c) (\<lambda>(b, c). Ok (from_le b, c))"

definition cursor_u32 :: "Cursor \<Rightarrow> (u32 \<times> Cursor) result" where
  "cursor_u32 c = rbind (cursor_take 4 c) (\<lambda>(b, c). Ok (from_le b, c))"

definition remaining :: "Cursor \<Rightarrow> nat" where
  "remaining c = length (buf c) - off c"

record HdrBlock =
  hb_id :: u8
  hb_rel :: RelTag
  hb_blkno :: u32
  has_image :: bool
  image_len :: nat
  hb_hole_offset :: u16
  hb_hole_len :: u16
  hb_bimg_info :: u8
  has_data :: bool
  data_len :: nat

record ParseState =
  cur :: Cursor
  hdr_blocks :: "HdrBlock list"
  main_len :: nat
  datatotal :: nat
  prev_rel :: "RelTag option"

text \<open>The image part of a block header: length, hole offset, flags and hole length.\<close>

definition parse_image_header :: "Cursor \<Rightarrow> ((nat \<times> u16 \<times> u16 \<times> u8) \<times> Cursor) result" where
  "parse_image_header c =
     rbind (cursor_u16 c) (\<lambda>(ilen, c).
     rbind (cursor_u16 c) (\<lambda>(hoff, c).
     rbind (cursor_u8 c) (\<lambda>(bimg, c).
       if bimg AND BKPIMAGE_HAS_HOLE \<noteq> 0 then
         if bimg AND BKPIMAGE_COMPRESS_MASK \<noteq> 0 then
           rbind (cursor_u16 c) (\<lambda>(hlen, c). Ok ((unat ilen, hoff, hlen, bimg), c))
         else if unat ilen > XLOG_BLCKSZ then Err (Panic ''attempt to subtract with overflow'')
         else Ok ((unat ilen, hoff, word_of_nat (XLOG_BLCKSZ - unat ilen), bimg), c)
       else Ok ((unat ilen, hoff, 0, bimg), c))))"

definition parse_rel :: "Cursor \<Rightarrow> (RelTag \<times> Cursor) result" where
  "parse_rel c =
     rbind (cursor_u32 c) (\<lambda>(s, c). rbind (cursor_u32 c) (\<lambda>(d, c). rbind (cursor_u32 c) (\<lambda>(r, c).
       Ok (\<lparr>spc = s, db = d, rel = r\<rparr>, c))))"

definition parse_block_header :: "u8 \<Rightarrow> ParseState \<Rightarrow> ParseState result" where
  "parse_block_header bid s =
     rbind (cursor_u8 (cur s)) (\<lambda>(fork_flags, c).
     rbind (cursor_u16 c) (\<lambda>(dlen, c).
       let himg = fork_flags AND BKPBLOCK_HAS_IMAGE \<noteq> 0; hdata = fork_flags AND BKPBLOCK_HAS_DATA \<noteq> 0 in
     rbind (if himg then parse_image_header c else Ok ((0, 0, 0, 0), c)) (\<lambda>((ilen, hoff, hlen, bimg), c).
     rbind (if fork_flags AND BKPBLOCK_SAME_REL \<noteq> 0
            then rbind (ok_or (prev_rel s) (Bail ''SAME_REL with no previous block'')) (\<lambda>r. Ok (r, c))
            else parse_rel c) (\<lambda>(r, c).
     rbind (cursor_u32 c) (\<lambda>(blk, c).
       Ok (s\<lparr>cur := c, prev_rel := Some r,
             datatotal := datatotal s + ilen + (if hdata then unat dlen else 0),
             hdr_blocks := hdr_blocks s @
               [\<lparr>hb_id = bid, hb_rel = r, hb_blkno = blk, has_image = himg, image_len = ilen,
                 hb_hole_offset = hoff, hb_hole_len = hlen, hb_bimg_info = bimg,
                 has_data = hdata, data_len = unat dlen\<rparr>]\<rparr>))))))"

definition parse_header :: "ParseState \<Rightarrow> ParseState result" where
  "parse_header s =
     rbind (cursor_u8 (cur s)) (\<lambda>(bid, c).
       if bid = XLR_BLOCK_ID_DATA_SHORT then
         rbind (cursor_u8 c) (\<lambda>(n, c). Ok (s\<lparr>cur := c, main_len := unat n, datatotal := datatotal s + unat n\<rparr>))
       else if bid = XLR_BLOCK_ID_DATA_LONG then
         rbind (cursor_u32 c) (\<lambda>(n, c). Ok (s\<lparr>cur := c, main_len := unat n, datatotal := datatotal s + unat n\<rparr>))
       else if bid = XLR_BLOCK_ID_ORIGIN then
         rbind (cursor_take 2 c) (\<lambda>(x, c). Ok (s\<lparr>cur := c\<rparr>))
       else if bid = XLR_BLOCK_ID_TOPLEVEL_XID then
         rbind (cursor_take 4 c) (\<lambda>(x, c). Ok (s\<lparr>cur := c\<rparr>))
       else if bid \<le> XLR_MAX_BLOCK_ID then parse_block_header bid (s\<lparr>cur := c\<rparr>)
       else Err (Bail ''invalid block_id in record''))"

lemma cursor_take_remaining:
  "cursor_take n c = Ok (b, c') \<Longrightarrow> remaining c' = remaining c - n \<and> n \<le> remaining c"
  by (auto simp: cursor_take_def remaining_def split: if_splits)

lemma cursor_word_remaining:
  "cursor_u8 c = Ok (b, c') \<Longrightarrow> remaining c' < remaining c"
  "cursor_u16 c = Ok (h, c') \<Longrightarrow> remaining c' < remaining c"
  "cursor_u32 c = Ok (w, c') \<Longrightarrow> remaining c' < remaining c"
  by (auto simp: cursor_u8_def cursor_u16_def cursor_u32_def result_simps dest!: cursor_take_remaining)

lemma parse_image_header_remaining: "parse_image_header c = Ok (x, c') \<Longrightarrow> remaining c' < remaining c"
  by (auto simp: parse_image_header_def result_simps split: if_splits dest!: cursor_word_remaining)

lemma parse_rel_remaining: "parse_rel c = Ok (r, c') \<Longrightarrow> remaining c' < remaining c"
  by (auto simp: parse_rel_def result_simps dest!: cursor_word_remaining)

lemma parse_block_header_remaining:
  "parse_block_header bid s = Ok s' \<Longrightarrow> remaining (cur s') < remaining (cur s)"
  by (auto simp: parse_block_header_def result_simps Let_def split: if_splits
      dest!: cursor_word_remaining parse_image_header_remaining parse_rel_remaining)

lemma parse_header_remaining: "parse_header s = Ok s' \<Longrightarrow> remaining (cur s') < remaining (cur s)"
  by (fastforce simp: parse_header_def result_simps split: if_splits
      dest!: cursor_word_remaining cursor_take_remaining parse_block_header_remaining)

function parse_headers :: "ParseState \<Rightarrow> ParseState result" where
  "parse_headers s =
     (if remaining (cur s) > datatotal s then rbind (parse_header s) parse_headers else Ok s)"
  by pat_completeness auto
termination
  by (relation "measure (\<lambda>s. remaining (cur s))") (auto dest: parse_header_remaining)

declare parse_headers.simps [simp del]

text \<open>The data section: per block the image, then the data.\<close>

definition parse_block_data :: "HdrBlock \<Rightarrow> Cursor \<Rightarrow> (BlockRef \<times> Cursor) result" where
  "parse_block_data hb c =
     rbind (if has_image hb
            then rbind (cursor_take (image_len hb) c) (\<lambda>(d, c).
              Ok (Some \<lparr>img_data = d, hole_offset = hb_hole_offset hb, hole_len = hb_hole_len hb,
                        bimg_info = hb_bimg_info hb\<rparr>, c))
            else Ok (None, c)) (\<lambda>(img, c).
     rbind (if has_data hb then cursor_take (data_len hb) c else Ok ([], c)) (\<lambda>(d, c).
       Ok (\<lparr>blk_id = hb_id hb, blk_rel = hb_rel hb, blkno = hb_blkno hb, image = img, blk_data = d\<rparr>, c)))"

fun parse_blocks :: "HdrBlock list \<Rightarrow> Cursor \<Rightarrow> (BlockRef list \<times> Cursor) result" where
  "parse_blocks [] c = Ok ([], c)"
| "parse_blocks (hb # hbs) c =
     rbind (parse_block_data hb c) (\<lambda>(b, c). rbind (parse_blocks hbs c) (\<lambda>(bs, c). Ok (b # bs, c)))"

text \<open>\<open>crc32c\<close> and \<open>crc32c_append\<close> are the two functions of the checksum package the parser calls.\<close>

definition parse_record :: "(bytes \<Rightarrow> u32) \<Rightarrow> (u32 \<Rightarrow> bytes \<Rightarrow> u32) \<Rightarrow> bytes \<Rightarrow> Record result" where
  "parse_record crc32c crc32c_append r =
     (if length r < HDR_LEN then Err (Bail ''record shorter than header'')
      else if crc32c_append (crc32c (drop HDR_LEN r)) (take 20 r) \<noteq> from_le (take 4 (drop 20 r))
      then Err (Bail ''CRC mismatch'')
      else
        rbind (parse_headers \<lparr>cur = \<lparr>buf = r, off = HDR_LEN\<rparr>, hdr_blocks = [], main_len = 0,
                              datatotal = 0, prev_rel = None\<rparr>) (\<lambda>s.
        rbind (parse_blocks (hdr_blocks s) (cur s)) (\<lambda>(bs, c).
        rbind (cursor_take (main_len s) c) (\<lambda>(m, c).
          Ok \<lparr>xid = from_le (take 4 (drop 4 r)), rmid = r ! 17, info = r ! 16, blocks = bs, main_data = m\<rparr>))))"

section \<open>The records PostgreSQL writes\<close>

definition enc_image :: "PageImage \<Rightarrow> bytes" where
  "enc_image im =
     to_le (word_of_nat (length (img_data im)) :: u16) @ to_le (hole_offset im) @ [bimg_info im] @
     (if bimg_info im AND BKPIMAGE_HAS_HOLE \<noteq> 0 \<and> bimg_info im AND BKPIMAGE_COMPRESS_MASK \<noteq> 0
      then to_le (hole_len im) else [])"

definition enc_rel :: "RelTag \<Rightarrow> bytes" where
  "enc_rel r = to_le (spc r) @ to_le (db r) @ to_le (rel r)"

definition block_flags :: "RelTag option \<Rightarrow> BlockRef \<Rightarrow> u8" where
  "block_flags prev b =
     (if image b \<noteq> None then 0x10 else 0) OR (if blk_data b \<noteq> [] then 0x20 else 0) OR
     (if prev = Some (blk_rel b) then 0x80 else 0)"

definition enc_block :: "RelTag option \<Rightarrow> BlockRef \<Rightarrow> bytes" where
  "enc_block prev b =
     [blk_id b, block_flags prev b] @ to_le (word_of_nat (length (blk_data b)) :: u16) @
     (case image b of None \<Rightarrow> [] | Some im \<Rightarrow> enc_image im) @
     (if prev = Some (blk_rel b) then [] else enc_rel (blk_rel b)) @ to_le (blkno b)"

fun enc_blocks :: "RelTag option \<Rightarrow> BlockRef list \<Rightarrow> bytes" where
  "enc_blocks prev [] = []"
| "enc_blocks prev (b # bs) = enc_block prev b @ enc_blocks (Some (blk_rel b)) bs"

definition enc_origin :: "u16 option \<Rightarrow> u32 option \<Rightarrow> bytes" where
  "enc_origin origin topxid =
     (case origin of None \<Rightarrow> [] | Some x \<Rightarrow> 253 # to_le x) @ (case topxid of None \<Rightarrow> [] | Some x \<Rightarrow> 252 # to_le x)"

definition enc_main :: "bytes \<Rightarrow> bytes" where
  "enc_main m =
     (if m = [] then [] else if length m \<le> 255 then [255, word_of_nat (length m)]
      else 254 # to_le (word_of_nat (length m) :: u32))"

definition image_bytes :: "BlockRef \<Rightarrow> bytes" where
  "image_bytes b = (case image b of None \<Rightarrow> [] | Some im \<Rightarrow> img_data im)"

definition enc_payload :: "BlockRef \<Rightarrow> bytes" where
  "enc_payload b = image_bytes b @ blk_data b"

definition enc_body :: "u16 option \<Rightarrow> u32 option \<Rightarrow> Record \<Rightarrow> bytes" where
  "enc_body origin topxid r =
     enc_blocks None (blocks r) @ enc_origin origin topxid @ enc_main (main_data r) @
     concat (map enc_payload (blocks r)) @ main_data r"

definition encode_record ::
  "(bytes \<Rightarrow> u32) \<Rightarrow> (u32 \<Rightarrow> bytes \<Rightarrow> u32) \<Rightarrow> u64 \<Rightarrow> u16 option \<Rightarrow> u32 option \<Rightarrow> Record \<Rightarrow> bytes" where
  "encode_record crc32c crc32c_append prev origin topxid r =
     (let body = enc_body origin topxid r;
          head = to_le (word_of_nat (24 + length body) :: u32) @ to_le (xid r) @ to_le prev @
                 [info r, rmid r, 0, 0]
      in head @ to_le (crc32c_append (crc32c body) head) @ body)"

definition wf_image :: "PageImage \<Rightarrow> bool" where
  "wf_image im \<longleftrightarrow> length (img_data im) < 65536 \<and>
     (if bimg_info im AND BKPIMAGE_HAS_HOLE = 0 then hole_len im = 0
      else bimg_info im AND BKPIMAGE_COMPRESS_MASK = 0 \<longrightarrow>
        length (img_data im) \<le> XLOG_BLCKSZ \<and> hole_len im = word_of_nat (XLOG_BLCKSZ - length (img_data im)))"

definition wf_block :: "BlockRef \<Rightarrow> bool" where
  "wf_block b \<longleftrightarrow> blk_id b \<le> XLR_MAX_BLOCK_ID \<and> length (blk_data b) < 65536 \<and>
     (\<forall>im. image b = Some im \<longrightarrow> wf_image im)"

definition wf_record :: "Record \<Rightarrow> bool" where
  "wf_record r \<longleftrightarrow> (\<forall>b \<in> set (blocks r). wf_block b) \<and> length (main_data r) < 2 ^ 32"

section \<open>Reading back\<close>

definition cursor_at :: "Cursor \<Rightarrow> bytes \<Rightarrow> bool" where
  "cursor_at c bs \<longleftrightarrow> off c \<le> length (buf c) \<and> drop (off c) (buf c) = bs"

lemma take_at:
  assumes "cursor_at c (xs @ bs)" and "length xs = n"
  shows "\<exists>c'. cursor_take n c = Ok (xs, c') \<and> cursor_at c' bs"
proof -
  have "off c + n \<le> length (buf c)"
  proof -
    have "length (buf c) - off c = length xs + length bs" and "off c \<le> length (buf c)"
      using assms(1) by (auto simp: cursor_at_def simp flip: length_append length_drop)
    with assms(2) show ?thesis by linarith
  qed
  with assms show ?thesis
    by (auto simp: cursor_take_def cursor_at_def intro: drop_past)
qed

lemma u8_at: "cursor_at c (b # bs) \<Longrightarrow> \<exists>c'. cursor_u8 c = Ok (b, c') \<and> cursor_at c' bs"
  using take_at [of c "[b]" bs 1] by (auto simp: cursor_u8_def)

lemma u16_at: "cursor_at c (to_le w @ bs) \<Longrightarrow> \<exists>c'. cursor_u16 c = Ok (w, c') \<and> cursor_at c' bs"
  using take_at [of c "to_le w" bs 2] by (auto simp: cursor_u16_def)

lemma u32_at: "cursor_at c (to_le w @ bs) \<Longrightarrow> \<exists>c'. cursor_u32 c = Ok (w, c') \<and> cursor_at c' bs"
  using take_at [of c "to_le w" bs 4] by (auto simp: cursor_u32_def)

lemma image_header_at:
  assumes "cursor_at c (enc_image im @ bs)" and "wf_image im"
  shows "\<exists>c'. parse_image_header c =
      Ok ((length (img_data im), hole_offset im, hole_len im, bimg_info im), c') \<and> cursor_at c' bs"
proof -
  let ?n = "length (img_data im)"
  have n: "unat (word_of_nat ?n :: u16) = ?n" using assms(2) by (simp add: wf_image_def unat_u16)
  obtain c1 where 1: "cursor_u16 c = Ok (word_of_nat ?n, c1)" "cursor_at c1 (drop 2 (enc_image im) @ bs)"
    using u16_at [of c "word_of_nat ?n" "drop 2 (enc_image im) @ bs"] assms(1) by (auto simp: enc_image_def)
  obtain c2 where 2: "cursor_u16 c1 = Ok (hole_offset im, c2)" "cursor_at c2 (drop 4 (enc_image im) @ bs)"
    using u16_at [of c1 "hole_offset im" "drop 4 (enc_image im) @ bs"] 1 by (auto simp: enc_image_def)
  obtain c3 where 3: "cursor_u8 c2 = Ok (bimg_info im, c3)" "cursor_at c3 (drop 5 (enc_image im) @ bs)"
    using u8_at [of c2 "bimg_info im" "drop 5 (enc_image im) @ bs"] 2 by (auto simp: enc_image_def)
  show ?thesis
  proof (cases "bimg_info im AND BKPIMAGE_HAS_HOLE \<noteq> 0 \<and> bimg_info im AND BKPIMAGE_COMPRESS_MASK \<noteq> 0")
    case True
    then obtain c4 where "cursor_u16 c3 = Ok (hole_len im, c4)" "cursor_at c4 bs"
      using u16_at [of c3 "hole_len im" bs] 3 by (auto simp: enc_image_def)
    with 1 2 3 True n show ?thesis by (simp add: parse_image_header_def)
  next
    case False
    then have "cursor_at c3 bs" using 3 by (auto simp: enc_image_def)
    with 1 2 3 False n assms(2) show ?thesis
      by (cases "bimg_info im AND BKPIMAGE_HAS_HOLE = 0") (auto simp: parse_image_header_def wf_image_def)
  qed
qed

lemma rel_at: "cursor_at c (enc_rel r @ bs) \<Longrightarrow> \<exists>c'. parse_rel c = Ok (r, c') \<and> cursor_at c' bs"
proof -
  assume "cursor_at c (enc_rel r @ bs)"
  then obtain c1 where 1: "cursor_u32 c = Ok (spc r, c1)" "cursor_at c1 (to_le (db r) @ to_le (rel r) @ bs)"
    using u32_at [of c "spc r" "to_le (db r) @ to_le (rel r) @ bs"] by (auto simp: enc_rel_def)
  then obtain c2 where 2: "cursor_u32 c1 = Ok (db r, c2)" "cursor_at c2 (to_le (rel r) @ bs)"
    using u32_at by blast
  then obtain c3 where "cursor_u32 c2 = Ok (rel r, c3)" "cursor_at c3 bs" using u32_at by blast
  with 1 2 show ?thesis by (simp add: parse_rel_def)
qed

lemma block_flags_bits:
  "block_flags prev b AND BKPBLOCK_HAS_IMAGE \<noteq> 0 \<longleftrightarrow> image b \<noteq> None"
  "block_flags prev b AND BKPBLOCK_HAS_DATA \<noteq> 0 \<longleftrightarrow> blk_data b \<noteq> []"
  "block_flags prev b AND BKPBLOCK_SAME_REL \<noteq> 0 \<longleftrightarrow> prev = Some (blk_rel b)"
  by (simp_all add: block_flags_def walrecord_consts)

text \<open>What the header of a block leaves for the data section.\<close>

definition hdr_of :: "BlockRef \<Rightarrow> HdrBlock" where
  "hdr_of b =
     \<lparr>hb_id = blk_id b, hb_rel = blk_rel b, hb_blkno = blkno b, has_image = (image b \<noteq> None),
      image_len = length (image_bytes b),
      hb_hole_offset = (case image b of None \<Rightarrow> 0 | Some im \<Rightarrow> hole_offset im),
      hb_hole_len = (case image b of None \<Rightarrow> 0 | Some im \<Rightarrow> hole_len im),
      hb_bimg_info = (case image b of None \<Rightarrow> 0 | Some im \<Rightarrow> bimg_info im),
      has_data = (blk_data b \<noteq> []), data_len = length (blk_data b)\<rparr>"

lemma block_header_at:
  assumes "cursor_at (cur s) (drop 1 (enc_block (prev_rel s) b) @ bs)" and "wf_block b"
  shows "\<exists>c'. parse_block_header (blk_id b) s =
      Ok (s\<lparr>cur := c', prev_rel := Some (blk_rel b), datatotal := datatotal s + length (enc_payload b),
            hdr_blocks := hdr_blocks s @ [hdr_of b]\<rparr>) \<and> cursor_at c' bs"
proof -
  let ?f = "block_flags (prev_rel s) b" and ?n = "length (blk_data b)"
  let ?rel = "if prev_rel s = Some (blk_rel b) then [] else enc_rel (blk_rel b)"
  let ?img = "case image b of None \<Rightarrow> [] | Some im \<Rightarrow> enc_image im"
  have n: "unat (word_of_nat ?n :: u16) = ?n" using assms(2) by (simp add: wf_block_def unat_u16)
  obtain c1 where 1: "cursor_u8 (cur s) = Ok (?f, c1)" "cursor_at c1 (to_le (word_of_nat ?n :: u16) @ ?img @ ?rel @ to_le (blkno b) @ bs)"
    using u8_at [of "cur s" ?f "to_le (word_of_nat ?n :: u16) @ ?img @ ?rel @ to_le (blkno b) @ bs"] assms(1)
    by (auto simp: enc_block_def)
  obtain c2 where 2: "cursor_u16 c1 = Ok (word_of_nat ?n, c2)" "cursor_at c2 (?img @ ?rel @ to_le (blkno b) @ bs)"
    using u16_at [OF 1(2)] by blast
  have "\<exists>c3. (if image b \<noteq> None then parse_image_header c2 else Ok ((0, 0, 0, 0), c2)) =
      Ok ((image_len (hdr_of b), hb_hole_offset (hdr_of b), hb_hole_len (hdr_of b), hb_bimg_info (hdr_of b)), c3) \<and>
      cursor_at c3 (?rel @ to_le (blkno b) @ bs)"
    using 2(2) image_header_at [of c2] assms(2)
    by (cases "image b") (auto simp: hdr_of_def image_bytes_def wf_block_def)
  then obtain c3 where 3: "(if image b \<noteq> None then parse_image_header c2 else Ok ((0, 0, 0, 0), c2)) =
      Ok ((image_len (hdr_of b), hb_hole_offset (hdr_of b), hb_hole_len (hdr_of b), hb_bimg_info (hdr_of b)), c3)"
    "cursor_at c3 (?rel @ to_le (blkno b) @ bs)" by blast
  obtain c4 where 4: "(if prev_rel s = Some (blk_rel b)
            then rbind (ok_or (prev_rel s) (Bail ''SAME_REL with no previous block'')) (\<lambda>r. Ok (r, c3))
            else parse_rel c3) = Ok (blk_rel b, c4)" "cursor_at c4 (to_le (blkno b) @ bs)"
    using 3(2) rel_at [of c3 "blk_rel b" "to_le (blkno b) @ bs"] by (cases "prev_rel s = Some (blk_rel b)") auto
  obtain c5 where 5: "cursor_u32 c4 = Ok (blkno b, c5)" "cursor_at c5 bs"
    using u32_at [OF 4(2)] by blast
  have "parse_block_header (blk_id b) s =
      Ok (s\<lparr>cur := c5, prev_rel := Some (blk_rel b), datatotal := datatotal s + length (enc_payload b),
            hdr_blocks := hdr_blocks s @ [hdr_of b]\<rparr>)"
    unfolding parse_block_header_def Let_def 1(1) 2(1) rbind.simps prod.case block_flags_bits 3(1) 4(1) 5(1) n
    by (simp add: hdr_of_def enc_payload_def)
  with 5(2) show ?thesis by blast
qed


definition with_blocks :: "ParseState \<Rightarrow> BlockRef list \<Rightarrow> Cursor \<Rightarrow> ParseState" where
  "with_blocks s bs c =
     s\<lparr>cur := c, prev_rel := (if bs = [] then prev_rel s else Some (blk_rel (last bs))),
       datatotal := datatotal s + length (concat (map enc_payload bs)),
       hdr_blocks := hdr_blocks s @ map hdr_of bs\<rparr>"

lemma remaining_at: "cursor_at c bs \<Longrightarrow> remaining c = length bs"
  by (auto simp: cursor_at_def remaining_def)

lemma small_id: "b \<le> XLR_MAX_BLOCK_ID \<Longrightarrow> b \<noteq> 255 \<and> b \<noteq> 254 \<and> b \<noteq> 253 \<and> b \<noteq> 252"
  by (auto simp: XLR_MAX_BLOCK_ID_def)

lemma header_block_at:
  assumes "cursor_at (cur s) (enc_block (prev_rel s) b @ bs)" and "wf_block b"
    and "datatotal s \<le> length bs"
  shows "\<exists>c'. parse_headers s = parse_headers (with_blocks s [b] c') \<and> cursor_at c' bs"
proof -
  obtain c1 where 1: "cursor_u8 (cur s) = Ok (blk_id b, c1)" "cursor_at c1 (drop 1 (enc_block (prev_rel s) b) @ bs)"
    using u8_at [of "cur s" "blk_id b" "drop 1 (enc_block (prev_rel s) b) @ bs"] assms(1)
    by (auto simp: enc_block_def)
  let ?s = "s\<lparr>cur := c1\<rparr>"
  obtain c2 where 2: "parse_block_header (blk_id b) ?s = Ok (with_blocks s [b] c2)" "cursor_at c2 bs"
    using block_header_at [of ?s b bs] 1(2) assms(2) by (auto simp: with_blocks_def)
  have "parse_header s = Ok (with_blocks s [b] c2)"
    using 1(1) 2(1) assms(2) small_id [of "blk_id b"]
    by (simp add: parse_header_def wf_block_def walrecord_consts)
  moreover have "datatotal s < remaining (cur s)"
    using assms(3) remaining_at [OF assms(1)] by (simp add: enc_block_def)
  ultimately show ?thesis
    using 2(2) by (subst parse_headers.simps) auto
qed

lemma headers_blocks_at:
  assumes "cursor_at (cur s) (enc_blocks (prev_rel s) bs @ rest)" and "\<forall>b \<in> set bs. wf_block b"
    and "datatotal s + length (concat (map enc_payload bs)) \<le> length rest"
  shows "\<exists>c'. parse_headers s = parse_headers (with_blocks s bs c') \<and> cursor_at c' rest"
  using assms
proof (induction bs arbitrary: s)
  case Nil
  then show ?case by (intro exI [of _ "cur s"]) (auto simp: with_blocks_def)
next
  case (Cons b bs)
  have "datatotal s \<le> length (enc_blocks (Some (blk_rel b)) bs @ rest)" using Cons.prems(3) by simp
  with header_block_at [of s b "enc_blocks (Some (blk_rel b)) bs @ rest"] Cons.prems obtain c1 where
    1: "parse_headers s = parse_headers (with_blocks s [b] c1)" "cursor_at c1 (enc_blocks (Some (blk_rel b)) bs @ rest)"
    by auto
  let ?s = "with_blocks s [b] c1"
  have "\<exists>c'. parse_headers ?s = parse_headers (with_blocks ?s bs c') \<and> cursor_at c' rest"
    using 1(2) Cons.prems by (intro Cons.IH) (auto simp: with_blocks_def)
  moreover have "with_blocks ?s bs c' = with_blocks s (b # bs) c'" for c'
    by (simp add: with_blocks_def)
  ultimately show ?case using 1(1) by auto
qed

lemma header_origin_at:
  assumes "cursor_at (cur s) (enc_origin origin topxid @ rest)" and "datatotal s \<le> length rest"
  shows "\<exists>c'. parse_headers s = parse_headers (s\<lparr>cur := c'\<rparr>) \<and> cursor_at c' rest"
proof -
  have skip: "\<exists>c'. parse_headers s = parse_headers (s\<lparr>cur := c'\<rparr>) \<and> cursor_at c' rest'"
    if at: "cursor_at (cur s) (i # xs @ rest')" and i: "i = 253 \<and> length xs = 2 \<or> i = 252 \<and> length xs = 4"
      and le: "datatotal s \<le> length rest'" for s i xs rest'
  proof -
    obtain c1 where 1: "cursor_u8 (cur s) = Ok (i, c1)" "cursor_at c1 (xs @ rest')"
      using u8_at [OF at] by blast
    obtain c2 where 2: "cursor_take (length xs) c1 = Ok (xs, c2)" "cursor_at c2 rest'"
      using take_at [OF 1(2) refl] by blast
    have "parse_header s = Ok (s\<lparr>cur := c2\<rparr>)"
      using 1(1) 2(1) i by (auto simp: parse_header_def walrecord_consts)
    moreover have "datatotal s < remaining (cur s)"
      using le remaining_at [OF at] by simp
    ultimately show ?thesis using 2(2) by (subst parse_headers.simps) auto
  qed
  let ?t = "case topxid of None \<Rightarrow> [] | Some x \<Rightarrow> 252 # to_le x"
  have "\<exists>c'. parse_headers s = parse_headers (s\<lparr>cur := c'\<rparr>) \<and> cursor_at c' (?t @ rest)"
  proof (cases origin)
    case None
    with assms(1) show ?thesis by (intro exI [of _ "cur s"]) (simp add: enc_origin_def)
  next
    case (Some x)
    with assms skip [of s 253 "to_le x" "?t @ rest"] show ?thesis by (simp add: enc_origin_def)
  qed
  then obtain c1 where 1: "parse_headers s = parse_headers (s\<lparr>cur := c1\<rparr>)" "cursor_at c1 (?t @ rest)" by blast
  show ?thesis
  proof (cases topxid)
    case None
    with 1 show ?thesis by auto
  next
    case (Some x)
    with 1 assms(2) skip [of "s\<lparr>cur := c1\<rparr>" 252 "to_le x" rest] show ?thesis by simp
  qed
qed

lemma header_main_at:
  assumes "cursor_at (cur s) (enc_main m @ rest)" and "datatotal s + length m = length rest"
    and "length m < 2 ^ 32" and "main_len s = 0"
  shows "\<exists>c'. parse_headers s = Ok (s\<lparr>cur := c', main_len := length m, datatotal := length rest\<rparr>) \<and> cursor_at c' rest"
proof (cases "m = []")
  case True
  then have "remaining (cur s) = length rest" using remaining_at [OF assms(1)] by (simp add: enc_main_def)
  with True assms show ?thesis
    by (subst parse_headers.simps) (auto simp: enc_main_def intro!: exI [of _ "cur s"])
next
  case False
  have ne: "datatotal s < remaining (cur s)"
    using False remaining_at [OF assms(1)] assms(2) by (auto simp: enc_main_def)
  have "\<exists>c'. parse_header s = Ok (s\<lparr>cur := c', main_len := length m, datatotal := length rest\<rparr>) \<and> cursor_at c' rest"
  proof (cases "length m \<le> 255")
    case True
    then have at: "cursor_at (cur s) (255 # word_of_nat (length m) # rest)"
      using assms(1) False by (simp add: enc_main_def)
    obtain c1 where 1: "cursor_u8 (cur s) = Ok (255, c1)" "cursor_at c1 (word_of_nat (length m) # rest)"
      using u8_at [OF at] by blast
    obtain c2 where 2: "cursor_u8 c1 = Ok (word_of_nat (length m), c2)" "cursor_at c2 rest"
      using u8_at [OF 1(2)] by blast
    have "unat (word_of_nat (length m) :: u8) = length m" using True by (intro unat_u8) simp
    with 1 2 assms(2) show ?thesis
      by (intro exI [of _ c2]) (simp add: parse_header_def walrecord_consts)
  next
    case F2: False
    then have at: "cursor_at (cur s) (254 # to_le (word_of_nat (length m) :: u32) @ rest)"
      using assms(1) False by (simp add: enc_main_def)
    obtain c1 where 1: "cursor_u8 (cur s) = Ok (254, c1)" "cursor_at c1 (to_le (word_of_nat (length m) :: u32) @ rest)"
      using u8_at [OF at] by blast
    obtain c2 where 2: "cursor_u32 c1 = Ok (word_of_nat (length m), c2)" "cursor_at c2 rest"
      using u32_at [OF 1(2)] by blast
    have "unat (word_of_nat (length m) :: u32) = length m" using assms(3) by (rule unat_u32)
    with 1 2 assms(2) show ?thesis
      by (intro exI [of _ c2]) (simp add: parse_header_def walrecord_consts)
  qed
  then obtain c' where c: "parse_header s = Ok (s\<lparr>cur := c', main_len := length m, datatotal := length rest\<rparr>)"
    "cursor_at c' rest" by blast
  have "parse_headers (s\<lparr>cur := c', main_len := length m, datatotal := length rest\<rparr>) =
      Ok (s\<lparr>cur := c', main_len := length m, datatotal := length rest\<rparr>)"
    using remaining_at [OF c(2)] by (subst parse_headers.simps) simp
  with ne c show ?thesis by (subst parse_headers.simps) auto
qed

lemma block_data_at:
  assumes "cursor_at c (enc_payload b @ rest)"
  shows "\<exists>c'. parse_block_data (hdr_of b) c = Ok (b, c') \<and> cursor_at c' rest"
proof -
  have "\<exists>c1. (if has_image (hdr_of b)
            then rbind (cursor_take (image_len (hdr_of b)) c) (\<lambda>(d, c).
              Ok (Some \<lparr>img_data = d, hole_offset = hb_hole_offset (hdr_of b), hole_len = hb_hole_len (hdr_of b),
                        bimg_info = hb_bimg_info (hdr_of b)\<rparr>, c))
            else Ok (None, c)) = Ok (image b, c1) \<and> cursor_at c1 (blk_data b @ rest)"
  proof (cases "image b")
    case None
    with assms show ?thesis by (simp add: hdr_of_def enc_payload_def image_bytes_def)
  next
    case (Some im)
    with assms take_at [of c "img_data im" "blk_data b @ rest"] show ?thesis
      by (auto simp: hdr_of_def enc_payload_def image_bytes_def)
  qed
  then obtain c1 where 1: "(if has_image (hdr_of b)
            then rbind (cursor_take (image_len (hdr_of b)) c) (\<lambda>(d, c).
              Ok (Some \<lparr>img_data = d, hole_offset = hb_hole_offset (hdr_of b), hole_len = hb_hole_len (hdr_of b),
                        bimg_info = hb_bimg_info (hdr_of b)\<rparr>, c))
            else Ok (None, c)) = Ok (image b, c1)" "cursor_at c1 (blk_data b @ rest)" by blast
  obtain c2 where 2: "(if has_data (hdr_of b) then cursor_take (data_len (hdr_of b)) c1 else Ok ([], c1)) = Ok (blk_data b, c2)"
    "cursor_at c2 rest"
    using take_at [OF 1(2) refl] 1(2) by (cases "blk_data b = []") (auto simp: hdr_of_def)
  show ?thesis
    unfolding parse_block_data_def 1(1) using 2 by (simp) (simp add: hdr_of_def)
qed

lemma blocks_at:
  assumes "cursor_at c (concat (map enc_payload bs) @ rest)"
  shows "\<exists>c'. parse_blocks (map hdr_of bs) c = Ok (bs, c') \<and> cursor_at c' rest"
  using assms
proof (induction bs arbitrary: c)
  case (Cons b bs)
  then obtain c1 where 1: "parse_block_data (hdr_of b) c = Ok (b, c1)" "cursor_at c1 (concat (map enc_payload bs) @ rest)"
    using block_data_at [of c b "concat (map enc_payload bs) @ rest"] by auto
  with Cons.IH [OF 1(2)] show ?case by auto
qed simp


lemma parse_body:
  assumes "wf_record r" and "cursor_at c (enc_body origin topxid r)"
  shows "\<exists>s c' c''. parse_headers \<lparr>cur = c, hdr_blocks = [], main_len = 0, datatotal = 0, prev_rel = None\<rparr> = Ok s \<and>
    parse_blocks (hdr_blocks s) (cur s) = Ok (blocks r, c') \<and>
    cursor_take (main_len s) c' = Ok (main_data r, c'')"
proof -
  let ?s = "\<lparr>cur = c, hdr_blocks = [], main_len = 0, datatotal = 0, prev_rel = None\<rparr>"
  let ?pay = "concat (map enc_payload (blocks r))"
  let ?r2 = "enc_main (main_data r) @ ?pay @ main_data r"
  obtain c1 where 1: "parse_headers ?s = parse_headers (with_blocks ?s (blocks r) c1)"
    "cursor_at c1 (enc_origin origin topxid @ ?r2)"
    using headers_blocks_at [of ?s "blocks r" "enc_origin origin topxid @ ?r2"] assms
    by (auto simp: enc_body_def wf_record_def)
  let ?s1 = "with_blocks ?s (blocks r) c1"
  obtain c2 where 2: "parse_headers ?s1 = parse_headers (?s1\<lparr>cur := c2\<rparr>)" "cursor_at c2 ?r2"
    using header_origin_at [of ?s1 origin topxid ?r2] 1(2) by (auto simp: with_blocks_def)
  let ?s2 = "?s1\<lparr>cur := c2\<rparr>"
  obtain c3 where 3: "parse_headers ?s2 =
      Ok (?s2\<lparr>cur := c3, main_len := length (main_data r), datatotal := length (?pay @ main_data r)\<rparr>)"
    "cursor_at c3 (?pay @ main_data r)"
    using header_main_at [of ?s2 "main_data r" "?pay @ main_data r"] 2(2) assms(1)
    by (auto simp: with_blocks_def wf_record_def)
  obtain c4 where 4: "parse_blocks (map hdr_of (blocks r)) c3 = Ok (blocks r, c4)" "cursor_at c4 (main_data r)"
    using blocks_at [OF 3(2)] by blast
  obtain c5 where 5: "cursor_take (length (main_data r)) c4 = Ok (main_data r, c5)"
    using take_at [of c4 "main_data r" "[]"] 4(2) by auto
  show ?thesis
    using 1(1) 2(1) 3(1) 4(1) 5 by (auto simp: with_blocks_def)
qed

section \<open>Properties\<close>

text \<open>
  C8 (roundtrip): parsing recovers an encoded record. For every record whose block ids, lengths and
  page-image holes are representable, the parser applied to the record as PostgreSQL lays it out
  (24-byte header with its checksum, block headers that reuse the previous relation where it is the
  same, optional origin and top-level xid, short or long main data, then the payloads) returns that
  record, whatever the checksum functions are.
\<close>
theorem parse_record_roundtrip:
  assumes "wf_record r"
  shows "parse_record crc32c crc32c_append (encode_record crc32c crc32c_append prev origin topxid r) = Ok r"
proof -
  let ?e = "encode_record crc32c crc32c_append prev origin topxid r"
  let ?body = "enc_body origin topxid r"
  let ?head = "to_le (word_of_nat (24 + length ?body) :: u32) @ to_le (xid r) @ to_le prev @ [info r, rmid r, 0, 0]"
  have e: "?e = ?head @ to_le (crc32c_append (crc32c ?body) ?head) @ ?body"
    by (simp add: encode_record_def Let_def)
  have len: "length ?head = 20" by simp
  have parts: "drop 24 ?e = ?body" "take 20 ?e = ?head"
    "take 4 (drop 20 ?e) = to_le (crc32c_append (crc32c ?body) ?head)"
    "take 4 (drop 4 ?e) = to_le (xid r)" "?e ! 16 = info r" "?e ! 17 = rmid r" "24 \<le> length ?e"
    unfolding e by (simp_all add: nth_append)
  have "cursor_at \<lparr>buf = ?e, off = HDR_LEN\<rparr> ?body"
    using parts(1,7) by (simp add: cursor_at_def HDR_LEN_def)
  from parse_body [OF assms this] parts show ?thesis
    by (auto simp: parse_record_def HDR_LEN_def)
qed

theorem parse_record_roundtrip_witness:
  "parse_record (\<lambda>b. word_of_nat (length b)) (\<lambda>c b. c + word_of_nat (length b))
     (encode_record (\<lambda>b. word_of_nat (length b)) (\<lambda>c b. c + word_of_nat (length b)) 0 None (Some 700)
       \<lparr>xid = 701, rmid = 10, info = 0,
        blocks = [\<lparr>blk_id = 0, blk_rel = \<lparr>spc = 1663, db = 5, rel = 16384\<rparr>, blkno = 3, image = None,
                   blk_data = [1, 2, 3]\<rparr>],
        main_data = [9, 0, 0]\<rparr>) =
   Ok \<lparr>xid = 701, rmid = 10, info = 0,
       blocks = [\<lparr>blk_id = 0, blk_rel = \<lparr>spc = 1663, db = 5, rel = 16384\<rparr>, blkno = 3, image = None,
                  blk_data = [1, 2, 3]\<rparr>],
       main_data = [9, 0, 0]\<rparr>"
  by (rule parse_record_roundtrip) (simp add: wf_record_def wf_block_def walrecord_consts)

text \<open>
  restoring a full-page image. Eliding a zero-filled hole from a page and restoring
  the image gives the page back, for every hole inside the page and for raw, PGLZ, LZ4 and Zstandard
  bodies alike, provided the decompressor named by the image's flags recovers the elided body.
\<close>
theorem restore_hole_roundtrip:
  assumes "length page = XLOG_BLCKSZ" and "unat (hole_offset im) + unat (hole_len im) \<le> XLOG_BLCKSZ"
    and "take (unat (hole_len im)) (drop (unat (hole_offset im)) page) = replicate (unat (hole_len im)) 0"
    and "body = take (unat (hole_offset im)) page @ drop (unat (hole_offset im) + unat (hole_len im)) page"
    and "bimg_info im AND BKPIMAGE_COMPRESS_MASK = 0 \<and> img_data im = body \<or>
      bimg_info im AND BKPIMAGE_COMPRESS_MASK = BKPIMAGE_COMPRESS_PGLZ \<and>
        pglz_decompress (img_data im) (length body) = Ok body \<or>
      bimg_info im AND BKPIMAGE_COMPRESS_MASK = BKPIMAGE_COMPRESS_LZ4 \<and> lz4 (img_data im) (length body) = Some body \<or>
      bimg_info im AND BKPIMAGE_COMPRESS_MASK = BKPIMAGE_COMPRESS_ZSTD \<and> zstd (img_data im) (length body) = Some body"
  shows "restore lz4 zstd im = Ok page"
proof -
  let ?o = "unat (hole_offset im)" and ?h = "unat (hole_len im)"
  have len: "length body = XLOG_BLCKSZ - ?h" using assms(1,2,4) by simp
  have page: "take ?o page @ replicate ?h 0 @ drop (?o + ?h) page = page"
    unfolding assms(3) [symmetric] by (metis append_take_drop_id drop_drop add.commute)
  have o: "?o \<le> length body" "take ?o body = take ?o page" "drop ?o body = drop (?o + ?h) page"
    using assms(1,2,4) len by (simp_all add: min_def)
  have "(if bimg_info im AND BKPIMAGE_COMPRESS_MASK = 0 then Ok (img_data im)
       else if bimg_info im AND BKPIMAGE_COMPRESS_MASK = BKPIMAGE_COMPRESS_PGLZ
         then pglz_decompress (img_data im) (XLOG_BLCKSZ - ?h)
       else if bimg_info im AND BKPIMAGE_COMPRESS_MASK = BKPIMAGE_COMPRESS_LZ4
         then lz4_decompress lz4 (img_data im) (XLOG_BLCKSZ - ?h)
       else if bimg_info im AND BKPIMAGE_COMPRESS_MASK = BKPIMAGE_COMPRESS_ZSTD
         then ok_or (zstd (img_data im) (XLOG_BLCKSZ - ?h)) (Bail ''zstd page image'')
       else Err (Bail ''unsupported page-image compression'')) = Ok body"
    using assms(5) unfolding len
    by (elim disjE) (auto simp: lz4_decompress_def len BKPIMAGE_COMPRESS_PGLZ_def BKPIMAGE_COMPRESS_LZ4_def
        BKPIMAGE_COMPRESS_ZSTD_def)
  moreover have "take (XLOG_BLCKSZ - (?h + ?o)) (drop (?o + ?h) page) = drop (?o + ?h) page"
    using assms(1) by simp
  ultimately show ?thesis
    using assms(2) len o page by (simp add: restore_def Let_def slice_Ok)
qed

theorem restore_hole_roundtrip_witness:
  "restore (\<lambda>b n. None) (\<lambda>b n. None)
     \<lparr>img_data = replicate 24 1 @ replicate 168 7, hole_offset = 24, hole_len = 8000, bimg_info = 1\<rparr> =
   Ok (replicate 24 1 @ replicate 8000 0 @ replicate 168 7)"
  by (rule restore_hole_roundtrip [where body = "replicate 24 1 @ replicate 168 7"])
    (simp_all add: walrecord_consts)

end
