(* ===== verification/Engine.thy ===== *)
theory Engine
  imports Sink Walrecord
begin

text \<open>
  \<^verbatim>\<open>src/engine.rs\<close>: the transcoding engine. Records are decoded into changes of open
  transactions; a commit applies them, in WAL order, to the mirror and the pending batch of each
  table, unless the table's lake already holds that commit; a flush appends the pending rows with
  the position to resume the WAL from. The environment (checksums, decompression, Delta library,
  clock, pageserver) and the SQL connection are arguments. Configuration from environment variables
  and logging are left out.
\<close>

section \<open>State\<close>

record PendingBatch =
  pb_rows :: "EmitRow list"
  first_at :: "nat option"
  max_commit_lsn :: lsn
  pb_seq :: nat

definition pending_default :: PendingBatch where
  "pending_default = \<lparr>pb_rows = [], first_at = None, max_commit_lsn = 0, pb_seq = 0\<rparr>"

text \<open>\<open>now\<close> is the clock reading \<^verbatim>\<open>emit\<close> takes when the batch is empty.\<close>

definition emit :: "nat \<Rightarrow> lsn \<Rightarrow> bool \<Rightarrow> Ctid \<Rightarrow> Row \<Rightarrow> PendingBatch \<Rightarrow> PendingBatch" where
  "emit now lsn deleted ctid row p =
     p\<lparr>first_at := (case first_at p of None \<Rightarrow> Some now | Some t \<Rightarrow> Some t),
       max_commit_lsn := max (max_commit_lsn p) lsn,
       pb_seq := pb_seq p + 1,
       pb_rows := pb_rows p @ [\<lparr>er_lsn = lsn, er_seq = pb_seq p + 1, er_deleted = deleted, er_ctid = ctid, er_row = row\<rparr>]\<rparr>"

record 'd Table =
  t_desc :: TableDesc
  t_sink :: "'d DeltaSink"
  mirror :: Mirror
  dedupe_below :: lsn
  pending :: PendingBatch
  needs_resnapshot :: bool
  rows_since_compaction :: nat

record 'c Oracle =
  o_conn :: "'c option"
  o_disabled :: bool

record ('d, 'c) Engine =
  e_tables :: "'d Table list"
  rel_to_table :: "u32 \<rightharpoonup> nat"
  toast_rels :: "u32 set"
  e_txbuf :: TxBuffer
  e_toast :: ToastCache
  last_commit_lsn :: lsn
  catalog_rels :: "u32 set"
  smgr_suspects :: "u32 set"
  remap_at :: "lsn option"
  attach_failed :: "string set"
  e_tail :: "RecordBatch TailStore"
  tail_retain :: nat
  tail_max_rows :: nat
  compact_rows :: nat
  vacuum_after :: "nat option"
  e_db_oid :: u32
  e_oracle :: "'c Oracle option"

text \<open>
  What the outside answers while the engine handles one record or runs one flush: the checksum and
  decompression packages, the Delta library, the clock, and the pageserver.
\<close>

record ('d, 'c) Env =
  env_crc :: "bytes \<Rightarrow> u32"
  env_crc_append :: "u32 \<Rightarrow> bytes \<Rightarrow> u32"
  env_lz4 :: decompressor
  env_zstd :: decompressor
  env_lib :: "'d DeltaLib"
  env_now :: nat
  env_later :: "nat \<Rightarrow> nat"
  env_connect :: "'c result"
  env_get_page :: "'c \<Rightarrow> RelTag \<Rightarrow> u32 \<Rightarrow> lsn \<Rightarrow> ('c \<times> bytes) result"

definition set_table :: "nat \<Rightarrow> 'd Table \<Rightarrow> ('d, 'c) Engine \<Rightarrow> ('d, 'c) Engine" where
  "set_table ti t e = e\<lparr>e_tables := (e_tables e)[ti := t]\<rparr>"

section \<open>The page oracle\<close>

text \<open>
  A failed connection disables the oracle; a failed request drops the connection, so that the next
  need reconnects.
\<close>

definition oracle_page :: "('d, 'c) Env \<Rightarrow> RelTag \<Rightarrow> u32 \<Rightarrow> lsn \<Rightarrow> 'c Oracle \<Rightarrow> bytes option \<times> 'c Oracle" where
  "oracle_page env tag blk lsn orc =
     (if o_disabled orc then (None, orc)
      else
        (case (case o_conn orc of Some c \<Rightarrow> Ok c | None \<Rightarrow> env_connect env) of
           Inl e \<Rightarrow> (None, orc\<lparr>o_disabled := True\<rparr>)
         | Inr c \<Rightarrow> (case env_get_page env c tag blk lsn of
             Inl e \<Rightarrow> (None, orc\<lparr>o_conn := None\<rparr>)
           | Inr (c', page) \<Rightarrow> (Some page, orc\<lparr>o_conn := Some c'\<rparr>))))"

definition ask_oracle :: "('d, 'c) Env \<Rightarrow> RelTag \<Rightarrow> u32 \<Rightarrow> lsn \<Rightarrow> ('d, 'c) Engine \<Rightarrow> bytes option \<times> ('d, 'c) Engine" where
  "ask_oracle env tag blk lsn e =
     (case e_oracle e of None \<Rightarrow> (None, e)
      | Some orc \<Rightarrow> (case oracle_page env tag blk lsn orc of (p, orc') \<Rightarrow> (p, e\<lparr>e_oracle := Some orc'\<rparr>)))"

section \<open>Queries\<close>

definition pending_total :: "('d, 'c) Engine \<Rightarrow> nat" where
  "pending_total e = sum_list (map (\<lambda>t. length (pb_rows (pending t))) (e_tables e))"

definition oldest_batch_age :: "nat \<Rightarrow> ('d, 'c) Engine \<Rightarrow> nat option" where
  "oldest_batch_age now e =
     (case List.map_filter (\<lambda>t. map_option (\<lambda>at. now - at) (first_at (pending t))) (e_tables e) of
        [] \<Rightarrow> None | a # as \<Rightarrow> Some (fold max as a))"

definition restart_lsn :: "('d, 'c) Engine \<Rightarrow> lsn" where
  "restart_lsn e = (case oldest_first_lsn (e_txbuf e) of Some l \<Rightarrow> l | None \<Rightarrow> last_commit_lsn e)"

definition preimage :: "('d, 'c) Engine \<Rightarrow> nat \<Rightarrow> Ctid \<Rightarrow> RowVersion option result" where
  "preimage e ti ctid =
     (case lookup (e_txbuf e) ti ctid of
        Some v \<Rightarrow> Ok (Some v)
      | None \<Rightarrow> rbind (index (e_tables e) ti) (\<lambda>t. Ok (map_of (mirror t) ctid)))"

definition rebuild_routing :: "('d, 'c) Engine \<Rightarrow> ('d, 'c) Engine" where
  "rebuild_routing e =
     e\<lparr>rel_to_table := map_of (rev (zip (map (\<lambda>t. rel_node (t_desc t)) (e_tables e)) [0..<length (e_tables e)])),
       toast_rels := {n. \<exists>t \<in> set (e_tables e). toast_rel_node (t_desc t) = Some n}\<rparr>"

section \<open>Commits and aborts\<close>

text \<open>
  \<^verbatim>\<open>remove(&xid) || subxids.iter().any(|x| remove(x))\<close> stops at the first transaction that was
  suspect.
\<close>

fun remove_suspect :: "u32 list \<Rightarrow> u32 set \<Rightarrow> bool \<times> u32 set" where
  "remove_suspect [] S = (False, S)"
| "remove_suspect (x # xs) S = (if x \<in> S then (True, S - {x}) else remove_suspect xs S)"

fun commit_change :: "nat \<Rightarrow> lsn \<Rightarrow> Op \<Rightarrow> 'd Table \<Rightarrow> 'd Table" where
  "commit_change now lsn (Insert ctid ver) t =
     t\<lparr>pending := emit now lsn False ctid (rv_row ver) (pending t), mirror := AList.update ctid ver (mirror t)\<rparr>"
| "commit_change now lsn (Update old ctid ver) t =
     t\<lparr>pending := emit now lsn False ctid (rv_row ver) (pending t),
       mirror := AList.update ctid ver (AList.delete old (mirror t))\<rparr>"
| "commit_change now lsn (Delete ctid old) t =
     (let row = (case old of Some r \<Rightarrow> r
                 | None \<Rightarrow> (case map_of (mirror t) ctid of
                     Some v \<Rightarrow> rv_row v
                   | None \<Rightarrow> replicate (length (cols (t_desc t))) None))
      in t\<lparr>mirror := AList.delete ctid (mirror t), pending := emit now lsn True ctid row (pending t)\<rparr>)"

text \<open>
  The loop over the committed changes; \<open>emitted\<close> is the map from a table to where this commit's
  rows start in its pending batch.
\<close>

fun commit_ops ::
  "nat \<Rightarrow> lsn \<Rightarrow> PendingOp list \<Rightarrow> 'd Table list \<times> (nat \<times> nat) list \<Rightarrow> ('d Table list \<times> (nat \<times> nat) list) result" where
  "commit_ops now lsn [] (ts, emitted) = Ok (ts, emitted)"
| "commit_ops now lsn (p # ps) (ts, emitted) =
     rbind (index ts (po_table p)) (\<lambda>t.
       if lsn \<le> dedupe_below t then commit_ops now lsn ps (ts, emitted)
       else commit_ops now lsn ps
         (ts[po_table p := commit_change now lsn (po_op p) t],
          if map_of emitted (po_table p) = None then emitted @ [(po_table p, length (pb_rows (pending t)))] else emitted))"

definition publish :: "('d, 'c) Env \<Rightarrow> nat \<times> nat \<Rightarrow> ('d, 'c) Engine \<Rightarrow> ('d, 'c) Engine" where
  "publish env en e = (case en of (ti, start) \<Rightarrow>
     (let t = e_tables e ! ti in
      if length (pb_rows (pending t)) > start then
        (case make_batch (env_lib env) (t_sink t) (drop start (pb_rows (pending t))) of
           Inl err \<Rightarrow> e
         | Inr b \<Rightarrow> e\<lparr>e_tail := enforce_cap num_rows (td_name (t_desc t)) (tail_max_rows e)
                                (tail_push (td_name (t_desc t)) b (e_tail e))\<rparr>)
      else e))"

definition handle_commit :: "('d, 'c) Env \<Rightarrow> lsn \<Rightarrow> u32 \<Rightarrow> u32 list \<Rightarrow> ('d, 'c) Engine \<Rightarrow> ('d, 'c) Engine result" where
  "handle_commit env lsn x subs e0 =
     (let (hit, suspects) = remove_suspect (x # subs) (smgr_suspects e0);
          (ops, buf') = tx_commit x subs (e_txbuf e0);
          e = e0\<lparr>last_commit_lsn := lsn, smgr_suspects := suspects,
                 remap_at := (if hit then Some lsn else remap_at e0),
                 e_txbuf := buf', e_toast := fold gc_xid (x # subs) (e_toast e0)\<rparr>
      in rbind (commit_ops (env_now env) lsn ops (e_tables e, [])) (\<lambda>(ts, emitted).
           Ok (fold (publish env) emitted (e\<lparr>e_tables := ts\<rparr>))))"

definition handle_abort :: "lsn \<Rightarrow> u32 \<Rightarrow> u32 list \<Rightarrow> ('d, 'c) Engine \<Rightarrow> ('d, 'c) Engine" where
  "handle_abort lsn x subs e =
     e\<lparr>smgr_suspects := smgr_suspects e - set (x # subs),
       e_toast := fold gc_xid (x # subs) (e_toast e),
       e_txbuf := snd (tx_abort x subs (e_txbuf e))\<rparr>"

definition handle_smgr_create :: "u32 \<Rightarrow> u32 \<Rightarrow> ('d, 'c) Engine \<Rightarrow> ('d, 'c) Engine" where
  "handle_smgr_create x d e =
     (if d = e_db_oid e \<and> x \<noteq> 0 then e\<lparr>smgr_suspects := insert x (smgr_suspects e)\<rparr> else e)"

section \<open>Decoding records\<close>

text \<open>A panic unwinds through the handlers; any other error is a value they look at.\<close>

fun catch :: "'a result \<Rightarrow> 'a result result" where
  "catch (Inl (Panic s)) = Err (Panic s)"
| "catch (Inl e) = Ok (Err e)"
| "catch (Inr x) = Ok (Ok x)"

definition note_decode_error :: "nat \<Rightarrow> lsn \<Rightarrow> error \<Rightarrow> ('d, 'c) Engine \<Rightarrow> ('d, 'c) Engine result" where
  "note_decode_error ti lsn err e =
     rbind (index (e_tables e) ti) (\<lambda>t.
       if err = SchemaDrift
       then Ok (set_table ti (t\<lparr>needs_resnapshot := True\<rparr>)
                 (e\<lparr>remap_at := (case remap_at e of None \<Rightarrow> Some lsn | Some l \<Rightarrow> Some l)\<rparr>))
       else Ok e)"

definition block_by_id :: "u8 \<Rightarrow> Record \<Rightarrow> BlockRef option" where
  "block_by_id i r = find (\<lambda>b. blk_id b = i) (blocks r)"

definition restored :: "('d, 'c) Env \<Rightarrow> BlockRef \<Rightarrow> (bytes \<Rightarrow> 'a result) \<Rightarrow> string \<Rightarrow> 'a result" where
  "restored env b f msg = (case image b of
       Some img \<Rightarrow> rbind (restore (env_lz4 env) (env_zstd env) img) f
     | None \<Rightarrow> Err (Bail msg))"

definition toast_insert :: "('d, 'c) Env \<Rightarrow> Record \<Rightarrow> BlockRef \<Rightarrow> HeapFmt \<Rightarrow> ('d, 'c) Engine \<Rightarrow> ('d, 'c) Engine result" where
  "toast_insert env r b fmt e =
     rbind (catch (if blk_data b \<noteq> [] then decode_toast_chunk_from_wal (env_lz4 env) (blk_data b) fmt
                   else restored env b (\<lambda>page. rbind (insert_offnum (main_data r)) (\<lambda>ofs.
                          decode_toast_chunk_from_page (env_lz4 env) page ofs)) ''toast insert with neither data nor image'')) (\<lambda>chunk.
       case chunk of
         Inr (valueid, sq, d) \<Rightarrow> Ok (e\<lparr>e_toast := add_chunk (xid r) valueid sq d (e_toast e)\<rparr>)
       | Inl err \<Rightarrow> Ok e)"

definition heap_insert ::
  "('d, 'c) Env \<Rightarrow> lsn \<Rightarrow> Record \<Rightarrow> BlockRef \<Rightarrow> nat \<Rightarrow> HeapFmt \<Rightarrow> ('d, 'c) Engine \<Rightarrow> ('d, 'c) Engine result" where
  "heap_insert env lsn r b ti fmt e =
     rbind (index (e_tables e) ti) (\<lambda>t.
     rbind (catch (if blk_data b \<noteq> [] then decode_insert_tuple (env_lz4 env) (blk_data b) (t_desc t) (e_toast e) fmt
                   else restored env b (\<lambda>page. rbind (insert_offnum (main_data r)) (\<lambda>ofs.
                          decode_tuple_from_page (env_lz4 env) page ofs (t_desc t) (e_toast e))) ''insert with neither data nor image'')) (\<lambda>decoded.
       case (decoded, insert_offnum (main_data r)) of
         (Inr (row, attrs), Inr ofs) \<Rightarrow>
           Ok (e\<lparr>e_txbuf := add_op (xid r) lsn ti (Insert (blkno b, ofs) \<lparr>rv_row = row, rv_attrs = Some attrs\<rparr>) (e_txbuf e)\<rparr>)
       | (Inl err, _) \<Rightarrow> note_decode_error ti lsn err e
       | (_, Inl err) \<Rightarrow> note_decode_error ti lsn err e))"

definition heap_delete ::
  "('d, 'c) Env \<Rightarrow> lsn \<Rightarrow> Record \<Rightarrow> BlockRef \<Rightarrow> nat \<Rightarrow> ('d, 'c) Engine \<Rightarrow> ('d, 'c) Engine result" where
  "heap_delete env lsn r b ti e =
     (case delete_offnum (main_data r) of
        Inl err \<Rightarrow> Ok e
      | Inr ofs \<Rightarrow>
          let ctid = (blkno b, ofs) in
          rbind (preimage e ti ctid) (\<lambda>pre.
          let old = map_option rv_row pre;
              (page, e') = (if old = None then ask_oracle env (blk_rel b) (blkno b) lsn e else (None, e))
          in rbind (case page of
                      None \<Rightarrow> Ok old
                    | Some p \<Rightarrow>
                        rbind (index (e_tables e) ti) (\<lambda>t.
                        rbind (catch (decode_tuple_from_page (env_lz4 env) p ofs (t_desc t) (e_toast e)))
                              (\<lambda>d. Ok (map_option fst (result_ok d))))) (\<lambda>old'.
               Ok (e'\<lparr>e_txbuf := add_op (xid r) lsn ti (Delete ctid old') (e_txbuf e')\<rparr>))))"

text \<open>The pre-image of an update: attribute bytes and row, from the mirror or else the oracle's page.\<close>

definition update_preimage ::
  "('d, 'c) Env \<Rightarrow> lsn \<Rightarrow> BlockRef \<Rightarrow> u16 \<Rightarrow> nat \<Rightarrow> ('d, 'c) Engine \<Rightarrow>
   ((bytes option \<times> Row option) \<times> ('d, 'c) Engine) result" where
  "update_preimage env lsn old_block ofs ti e =
     rbind (preimage e ti (blkno old_block, ofs)) (\<lambda>pre.
     let attrs = Option.bind pre rv_attrs; row = map_option rv_row pre;
         (page, e') = (if attrs = None \<or> row = None then ask_oracle env (blk_rel old_block) (blkno old_block) lsn e else (None, e))
     in case page of
          None \<Rightarrow> Ok ((attrs, row), e')
        | Some p \<Rightarrow>
            rbind (if attrs = None
                   then rbind (catch (raw_attrs_from_page p ofs)) (\<lambda>a. Ok (result_ok a))
                   else Ok attrs) (\<lambda>attrs'.
            rbind (if row = None
                   then rbind (index (e_tables e) ti) (\<lambda>t.
                        rbind (catch (decode_tuple_from_page (env_lz4 env) p ofs (t_desc t) (e_toast e))) (\<lambda>d.
                          Ok (map_option fst (result_ok d))))
                   else Ok row) (\<lambda>row'.
              Ok ((attrs', row'), e'))))"

text \<open>The engine and, when the update could not be decoded, the error.\<close>

definition handle_update ::
  "('d, 'c) Env \<Rightarrow> lsn \<Rightarrow> Record \<Rightarrow> BlockRef \<Rightarrow> nat \<Rightarrow> HeapFmt \<Rightarrow> ('d, 'c) Engine \<Rightarrow> (error option \<times> ('d, 'c) Engine) result" where
  "handle_update env lsn r b ti fmt e =
     (case parse_update_main (main_data r) fmt of
        Inl err \<Rightarrow> Ok (Some err, e)
      | Inr upd \<Rightarrow>
          let old_block = (case block_by_id 1 r of Some ob \<Rightarrow> ob | None \<Rightarrow> b) in
          rbind (update_preimage env lsn old_block (old_offnum upd) ti e) (\<lambda>((old_attrs, old), e').
          rbind (index (e_tables e') ti) (\<lambda>t.
          rbind (catch (if blk_data b \<noteq> []
                        then decode_update_new_tuple (env_lz4 env) (blk_data b) (uflags upd) old_attrs old (t_desc t) (e_toast e') fmt
                        else restored env b (\<lambda>page. decode_tuple_from_page (env_lz4 env) page (new_offnum upd) (t_desc t) (e_toast e'))
                               ''update with neither data nor image'')) (\<lambda>decoded.
            case decoded of
              Inl err \<Rightarrow> Ok (Some err, e')
            | Inr (row, attrs) \<Rightarrow>
                Ok (None, e'\<lparr>e_txbuf := add_op (xid r) lsn ti
                      (Update (blkno old_block, old_offnum upd) (blkno b, new_offnum upd) \<lparr>rv_row = row, rv_attrs = Some attrs\<rparr>)
                      (e_txbuf e')\<rparr>)))))"

definition suspect_write :: "Record \<Rightarrow> BlockRef \<Rightarrow> ('d, 'c) Engine \<Rightarrow> bool" where
  "suspect_write r b e \<longleftrightarrow> db (blk_rel b) = e_db_oid e \<and> rel (blk_rel b) \<in> catalog_rels e"

definition mark_suspect :: "Record \<Rightarrow> ('d, 'c) Engine \<Rightarrow> ('d, 'c) Engine" where
  "mark_suspect r e = (if xid r \<noteq> 0 then e\<lparr>smgr_suspects := insert (xid r) (smgr_suspects e)\<rparr> else e)"

definition handle_heap ::
  "('d, 'c) Env \<Rightarrow> lsn \<Rightarrow> Record \<Rightarrow> u8 \<Rightarrow> HeapFmt \<Rightarrow> ('d, 'c) Engine \<Rightarrow> ('d, 'c) Engine result" where
  "handle_heap env lsn r op fmt e =
     (case block_by_id 0 r of None \<Rightarrow> Ok e
      | Some b \<Rightarrow>
          if suspect_write r b e then Ok (mark_suspect r e)
          else
            let main = rel_to_table e (rel (blk_rel b)); is_toast = (rel (blk_rel b) \<in> toast_rels e) in
            if main = None \<and> \<not> is_toast then Ok e
            else if op = XLOG_HEAP_INSERT \<and> is_toast then toast_insert env r b fmt e
            else (case main of
                None \<Rightarrow> Ok e
              | Some ti \<Rightarrow>
                  if op = XLOG_HEAP_INSERT then heap_insert env lsn r b ti fmt e
                  else if op = XLOG_HEAP_DELETE then heap_delete env lsn r b ti e
                  else if op = XLOG_HEAP_UPDATE \<or> op = XLOG_HEAP_HOT_UPDATE then
                    rbind (handle_update env lsn r b ti fmt e) (\<lambda>(err, e').
                      case err of None \<Rightarrow> Ok e' | Some er \<Rightarrow> note_decode_error ti lsn er e')
                  else Ok e))"

text \<open>One buffered insert per decoded tuple.\<close>

definition add_inserts :: "u32 \<Rightarrow> lsn \<Rightarrow> nat \<Rightarrow> u32 \<Rightarrow> ((Row \<times> bytes) \<times> u16) list \<Rightarrow> TxBuffer \<Rightarrow> TxBuffer" where
  "add_inserts x lsn ti blk rs =
     fold (\<lambda>((row, attrs), ofs). add_op x lsn ti (Insert (blk, ofs) \<lparr>rv_row = row, rv_attrs = Some attrs\<rparr>)) rs"

definition handle_multi_insert ::
  "('d, 'c) Env \<Rightarrow> lsn \<Rightarrow> Record \<Rightarrow> HeapFmt \<Rightarrow> ('d, 'c) Engine \<Rightarrow> ('d, 'c) Engine result" where
  "handle_multi_insert env lsn r fmt e =
     (case block_by_id 0 r of None \<Rightarrow> Ok e
      | Some b \<Rightarrow>
          if suspect_write r b e then Ok (mark_suspect r e)
          else
            (case rel_to_table e (rel (blk_rel b)) of None \<Rightarrow> Ok e
             | Some ti \<Rightarrow>
                 rbind (index (e_tables e) ti) (\<lambda>t.
                 rbind (catch (if blk_data b \<noteq> [] then decode_multi_insert (env_lz4 env) (blk_data b) (main_data r) (t_desc t) (e_toast e)
                               else restored env b (\<lambda>page. rbind (multi_insert_offsets (main_data r) (info r) fmt) (\<lambda>offs.
                                      rmap (\<lambda>ofs. decode_tuple_from_page (env_lz4 env) page ofs (t_desc t) (e_toast e)) offs))
                                      ''multi-insert with neither data nor image'')) (\<lambda>rows.
                   case (rows, multi_insert_offsets (main_data r) (info r) fmt) of
                     (Inr rs, Inr offs) \<Rightarrow>
                       if length rs = length offs
                       then Ok (e\<lparr>e_txbuf := add_inserts (xid r) lsn ti (blkno b) (zip rs offs) (e_txbuf e)\<rparr>)
                       else Ok e
                   | (Inl err, _) \<Rightarrow> note_decode_error ti lsn err e
                   | (_, Inl err) \<Rightarrow> note_decode_error ti lsn err e))))"

definition XLOG_SMGR_CREATE :: u8 where "XLOG_SMGR_CREATE = 0x10"
definition XLOG_XACT_OPMASK :: u8 where "XLOG_XACT_OPMASK = 0x70"
definition XLOG_XACT_COMMIT :: u8 where "XLOG_XACT_COMMIT = 0x00"
definition XLOG_XACT_ABORT :: u8 where "XLOG_XACT_ABORT = 0x20"

definition handle_xact :: "('d, 'c) Env \<Rightarrow> lsn \<Rightarrow> Record \<Rightarrow> ('d, 'c) Engine \<Rightarrow> ('d, 'c) Engine result" where
  "handle_xact env lsn r e =
     (let op = info r AND XLOG_XACT_OPMASK in
      rbind (if op = XLOG_XACT_COMMIT \<or> op = XLOG_XACT_ABORT
             then rbind (catch (parse_xact_subxacts (info r) (main_data r))) (\<lambda>s.
                    Ok (case s of Inr subs \<Rightarrow> subs | Inl err \<Rightarrow> []))
             else Ok []) (\<lambda>subs.
        if op = XLOG_XACT_COMMIT then handle_commit env lsn (xid r) subs e
        else if op = XLOG_XACT_ABORT then Ok (handle_abort lsn (xid r) subs e)
        else Ok e))"

definition handle_record :: "('d, 'c) Env \<Rightarrow> lsn \<Rightarrow> bytes \<Rightarrow> ('d, 'c) Engine \<Rightarrow> ('d, 'c) Engine result" where
  "handle_record env lsn rec e =
     rbind (catch (parse_record (env_crc env) (env_crc_append env) rec)) (\<lambda>parsed.
       case parsed of Inl err \<Rightarrow> Ok e
       | Inr r \<Rightarrow> (case normalize_dml (rmid r) (info r) of None \<Rightarrow> Ok e
           | Some (rm, op, fmt) \<Rightarrow>
               if rm = rmgr_SMGR then
                 (if info r AND 0xF0 = XLOG_SMGR_CREATE then
                    rbind (catch (parse_smgr_create (main_data r))) (\<lambda>c.
                      case c of Inr (Some (d, _)) \<Rightarrow> Ok (handle_smgr_create (xid r) d e) | _ \<Rightarrow> Ok e)
                  else Ok e)
               else if rm = rmgr_HEAP then handle_heap env lsn r op fmt e
               else if rm = rmgr_HEAP2 then
                 (if op \<noteq> XLOG_HEAP2_MULTI_INSERT then Ok e else handle_multi_insert env lsn r fmt e)
               else if rm = rmgr_XACT then handle_xact env lsn r e
               else Ok e))"

section \<open>Flushing and compacting\<close>

text \<open>One table of a flush round: the outcome, the table and the tail after it.\<close>

definition flush_table ::
  "('d, 'c) Env \<Rightarrow> lsn \<Rightarrow> nat \<Rightarrow> nat \<Rightarrow> 'd Table \<Rightarrow> RecordBatch TailStore \<Rightarrow>
   unit result \<times> 'd Table \<times> RecordBatch TailStore" where
  "flush_table env restart retain cap t tail0 =
     (if pb_rows (pending t) = [] then (Ok (), t, tail0)
      else
        (case sink_append (env_lib env) (pb_rows (pending t)) (max_commit_lsn (pending t)) restart (rel_node (t_desc t)) (t_sink t) of
           (Inl err, s) \<Rightarrow> (Err err, t\<lparr>t_sink := s\<rparr>, tail0)
         | (Inr v, s) \<Rightarrow>
             (Ok (),
              t\<lparr>t_sink := s, rows_since_compaction := rows_since_compaction t + length (pb_rows (pending t)),
                pending := (pending t)\<lparr>pb_rows := [], first_at := None\<rparr>\<rparr>,
              enforce_cap num_rows (td_name (t_desc t)) cap
                (mark_flushed (td_name (t_desc t)) retain (env_now env) (env_later env) tail0))))"

fun flush_tables ::
  "('d, 'c) Env \<Rightarrow> lsn \<Rightarrow> nat \<Rightarrow> nat \<Rightarrow> 'd Table list \<Rightarrow> RecordBatch TailStore \<Rightarrow>
   unit result \<times> 'd Table list \<times> RecordBatch TailStore" where
  "flush_tables env restart retain cap [] tail0 = (Ok (), [], tail0)"
| "flush_tables env restart retain cap (t # ts) tail0 =
     (case flush_table env restart retain cap t tail0 of
        (Inl err, t', tail0') \<Rightarrow> (Err err, t' # ts, tail0')
      | (Inr _, t', tail0') \<Rightarrow>
          (case flush_tables env restart retain cap ts tail0' of (r, ts', tail0'') \<Rightarrow> (r, t' # ts', tail0'')))"

text \<open>The outcome, the engine and the restart position that is known to be persisted.\<close>

definition flush_all :: "('d, 'c) Env \<Rightarrow> lsn \<Rightarrow> ('d, 'c) Engine \<Rightarrow> unit result \<times> ('d, 'c) Engine \<times> lsn" where
  "flush_all env persisted e =
     (if pending_total e = 0 then (Ok (), e, persisted)
      else
        let restart = restart_lsn e in
        (case flush_tables env restart (tail_retain e) (tail_max_rows e) (e_tables e) (e_tail e) of
           (r, ts, tail0) \<Rightarrow>
             (r, e\<lparr>e_tables := ts, e_tail := tail0\<rparr>, case r of Inl _ \<Rightarrow> persisted | Inr _ \<Rightarrow> restart)))"

definition compact_table :: "('d, 'c) Env \<Rightarrow> nat \<Rightarrow> nat option \<Rightarrow> 'd Table \<Rightarrow> 'd Table result" where
  "compact_table env threshold retention t =
     (if rows_since_compaction t < threshold \<or> pk (t_desc t) = [] then Ok t
      else
        (case compact (env_lib env) (t_desc t) (t_sink t) of (r, s) \<Rightarrow>
           rbind (catch r) (\<lambda>r'.
             let s' = (case (r', retention) of
                         (Inr (Some counts), Some n) \<Rightarrow> snd (vacuum (env_lib env) n s)
                       | _ \<Rightarrow> s)
             in Ok (t\<lparr>t_sink := s', rows_since_compaction := 0\<rparr>))))"

definition maybe_compact :: "('d, 'c) Env \<Rightarrow> ('d, 'c) Engine \<Rightarrow> ('d, 'c) Engine result" where
  "maybe_compact env e =
     (if compact_rows e = 0 then Ok e
      else rbind (rmap (compact_table env (compact_rows e) (vacuum_after e)) (e_tables e)) (\<lambda>ts.
        Ok (e\<lparr>e_tables := ts\<rparr>)))"

section \<open>Snapshots and schema changes\<close>

text \<open>
  What the SQL connection answers: the filenodes of the catalogs, the descriptor of a table by OID and by name,
  the tables there are, and a snapshot of a table: its cutover LSN, its rows by address and their
  raw attribute bytes where known.
\<close>

type_synonym snapshot = "lsn \<times> (Ctid \<times> Row) list \<times> (Ctid \<times> bytes) list"

record Sql =
  sql_catalog :: "u32 list result"
  sql_by_oid :: "u32 \<Rightarrow> TableDesc result"
  sql_by_name :: "string \<Rightarrow> TableDesc result"
  sql_tables :: "(u32 \<times> string) list result"
  sql_snapshot :: "TableDesc \<Rightarrow> snapshot result"
  sql_raw_attrs :: "TableDesc \<Rightarrow> (Ctid \<times> bytes) list result"

definition tables_to_attach :: "u32 set \<Rightarrow> string set \<Rightarrow> (u32 \<times> string) list \<Rightarrow> (u32 \<times> string) list" where
  "tables_to_attach tracked failed cat = filter (\<lambda>(oid, name). oid \<notin> tracked \<and> name \<notin> failed) cat"

definition reshape_rows :: "Col list \<Rightarrow> Col list \<Rightarrow> Mirror \<Rightarrow> Mirror" where
  "reshape_rows old_cols new_cols m =
     (let mp = map (\<lambda>nc. position (\<lambda>oc. col_name oc = col_name nc) old_cols) new_cols in
      map (\<lambda>(c, ver). (c, ver\<lparr>rv_row := map (\<lambda>oi. Option.bind oi (\<lambda>i. Option.bind (get (rv_row ver) i) id)) mp\<rparr>)) m)"

text \<open>Seeding the mirror from snapshot rows; the raw bytes of an address are used once.\<close>

fun seed_mirror :: "TableDesc \<Rightarrow> (Ctid \<times> Row) list \<Rightarrow> (Ctid \<times> bytes) list \<Rightarrow> Mirror \<Rightarrow> Mirror result" where
  "seed_mirror desc [] raw m = Ok m"
| "seed_mirror desc ((c, row) # rs) raw m =
     rbind (case map_of raw c of Some a \<Rightarrow> Ok (Some a) | None \<Rightarrow> encode_attrs row desc) (\<lambda>attrs.
       seed_mirror desc rs (AList.delete c raw) (AList.update c \<lparr>rv_row = row, rv_attrs = attrs\<rparr> m))"

definition snapshot_emits :: "lsn \<Rightarrow> nat \<Rightarrow> (Ctid \<times> Row) list \<Rightarrow> EmitRow list" where
  "snapshot_emits cutover n rs =
     map (\<lambda>(i, c, row). \<lparr>er_lsn = cutover, er_seq = i, er_deleted = False, er_ctid = c, er_row = row\<rparr>) (List.enumerate n rs)"

text \<open>
  \<^verbatim>\<open>remap_table\<close>: the tombstones are appended first, then the snapshot. Every outcome keeps what was
  already done to the table. \<^verbatim>\<open>mirror.drain()\<close> is iterated in the order of the list.
\<close>

definition drain_mirror :: "nat \<Rightarrow> lsn \<Rightarrow> 'd Table \<Rightarrow> 'd Table" where
  "drain_mirror now lsn t =
     t\<lparr>mirror := [], pending := fold (\<lambda>(c, ver). emit now lsn True c (rv_row ver)) (mirror t) (pending t)\<rparr>"

definition flush_tombstones :: "('d, 'c) Env \<Rightarrow> u32 \<Rightarrow> lsn \<Rightarrow> 'd Table \<Rightarrow> unit result \<times> 'd Table" where
  "flush_tombstones env old_filenode restart t =
     (if pb_rows (pending t) = [] then (Ok (), t)
      else (case sink_append (env_lib env) (pb_rows (pending t)) (max_commit_lsn (pending t)) restart old_filenode (t_sink t) of
          (Inl err, s) \<Rightarrow> (Err err, t\<lparr>t_sink := s\<rparr>)
        | (Inr v, s) \<Rightarrow> (Ok (), t\<lparr>t_sink := s, pending := (pending t)\<lparr>pb_rows := [], first_at := None\<rparr>\<rparr>)))"

definition remap_table :: "('d, 'c) Env \<Rightarrow> Sql \<Rightarrow> lsn \<Rightarrow> u32 \<Rightarrow> lsn \<Rightarrow> 'd Table \<Rightarrow> unit result \<times> 'd Table" where
  "remap_table env sql tombstone_lsn old_filenode restart t0 =
     (case flush_tombstones env old_filenode restart (drain_mirror (env_now env) tombstone_lsn t0) of
        (Inl err, t) \<Rightarrow> (Err err, t)
      | (Inr _, t) \<Rightarrow> (case sql_snapshot sql (t_desc t) of
          Inl err \<Rightarrow> (Err err, t)
        | Inr (cutover, rs, raw) \<Rightarrow> (case seed_mirror (t_desc t) rs raw (mirror t) of
            Inl err \<Rightarrow> (Err err, t)
          | Inr m \<Rightarrow>
              let emits = snapshot_emits cutover (pb_seq (pending t) + 1) rs;
                  t1 = t\<lparr>mirror := m, pending := (pending t)\<lparr>pb_seq := pb_seq (pending t) + length rs\<rparr>\<rparr>
              in (case sink_append (env_lib env) emits cutover restart (rel_node (t_desc t)) (t_sink t1) of
                   (Inl err, s) \<Rightarrow> (Err err, t1\<lparr>t_sink := s\<rparr>)
                 | (Inr v, s) \<Rightarrow> (Ok (), t1\<lparr>t_sink := s, dedupe_below := cutover\<rparr>)))))"

definition new_table :: "TableDesc \<Rightarrow> 'd DeltaSink \<Rightarrow> 'd Table" where
  "new_table desc s = \<lparr>t_desc = desc, t_sink = s, mirror = [], dedupe_below = 0, pending = pending_default,
     needs_resnapshot = False, rows_since_compaction = 0\<rparr>"

text \<open>\<^verbatim>\<open>format!("{}/{}", cfg.lake.trim_end_matches('/'), desc.name)\<close>\<close>

definition table_uri :: "string \<Rightarrow> string \<Rightarrow> string" where
  "table_uri lake name = rev (dropWhile (\<lambda>c. c = CHR ''/'') (rev lake)) @ ''/'' @ name"

definition attach_table :: "('d, 'c) Env \<Rightarrow> Sql \<Rightarrow> string \<Rightarrow> string \<Rightarrow> 'd Table result" where
  "attach_table env sql lake name =
     rbind (sql_by_name sql name) (\<lambda>desc.
     rbind (open_or_create (env_lib env) (table_uri lake (td_name desc)) desc) (\<lambda>s.
     rbind (resume_state (env_lib env) s) (\<lambda>r.
     rbind (sql_snapshot sql desc) (\<lambda>(cutover, rs, raw).
     rbind (seed_mirror desc rs raw []) (\<lambda>m.
     (case sink_append (env_lib env) (snapshot_emits cutover 0 rs) cutover cutover (rel_node desc) s of
        (Inl err, s') \<Rightarrow> Err err
      | (Inr v, s') \<Rightarrow> Ok ((new_table desc s')\<lparr>mirror := m, dedupe_below := cutover\<rparr>)))))))"

text \<open>\<open>Detached\<close>: a filenode of zero routes nowhere.\<close>

definition detach :: "'d Table \<Rightarrow> 'd Table" where
  "detach t = t\<lparr>t_desc := (t_desc t)\<lparr>rel_node := 0, toast_rel_node := None\<rparr>\<rparr>"

definition col_sig :: "Col \<Rightarrow> string \<times> PgType" where
  "col_sig c = (col_name c, col_ty c)"

text \<open>One table of \<^verbatim>\<open>remap_check\<close>: the outcome, the table, and whether anything changed.\<close>

definition remap_one :: "('d, 'c) Env \<Rightarrow> Sql \<Rightarrow> lsn \<Rightarrow> lsn \<Rightarrow> 'd Table \<Rightarrow> unit result \<times> 'd Table \<times> bool" where
  "remap_one env sql ddl_lsn restart t =
     (let old_node = rel_node (t_desc t) in
      if old_node = 0 then (Ok (), t, False)
      else (case sql_by_oid sql (td_oid (t_desc t)) of
          Inl err \<Rightarrow> (Ok (), detach t, True)
        | Inr fresh \<Rightarrow>
            let filenode_changed = (rel_node fresh \<noteq> old_node);
                cols_changed = (map col_sig (cols fresh) \<noteq> map col_sig (cols (t_desc t)));
                resnap = (needs_resnapshot t \<or>
                  (cols_changed \<and> length (cols fresh) > length (cols (t_desc t)) \<and> has_fast_defaults fresh))
            in if \<not> filenode_changed \<and> \<not> cols_changed \<and> \<not> resnap then (Ok (), t\<lparr>t_desc := fresh\<rparr>, False)
               else
                 (case (if cols_changed then evolve (cols fresh) (t_sink t) else (Ok (), t_sink t)) of
                    (Inl err, s) \<Rightarrow> (Ok (), detach (t\<lparr>t_sink := s\<rparr>), True)
                  | (Inr _, s) \<Rightarrow>
                      let t1 = t\<lparr>t_sink := s,
                                 mirror := (if cols_changed then reshape_rows (cols (t_desc t)) (cols fresh) (mirror t) else mirror t),
                                 t_desc := fresh\<rparr>
                      in if filenode_changed \<or> resnap then
                           (case remap_table env sql ddl_lsn (if filenode_changed then old_node else 0) restart t1 of
                              (Inl err, t2) \<Rightarrow> (Err err, t2, True)
                            | (Inr _, t2) \<Rightarrow> (Ok (), t2\<lparr>needs_resnapshot := False\<rparr>, True))
                         else (Ok (), t1, True))))"

fun remap_all :: "('d, 'c) Env \<Rightarrow> Sql \<Rightarrow> lsn \<Rightarrow> lsn \<Rightarrow> 'd Table list \<Rightarrow> unit result \<times> 'd Table list \<times> bool" where
  "remap_all env sql ddl_lsn restart [] = (Ok (), [], False)"
| "remap_all env sql ddl_lsn restart (t # ts) =
     (case remap_one env sql ddl_lsn restart t of
        (Inl err, t', ch) \<Rightarrow> (Err err, t' # ts, ch)
      | (Inr _, t', ch) \<Rightarrow> (case remap_all env sql ddl_lsn restart ts of (r, ts', ch') \<Rightarrow> (r, t' # ts', ch \<or> ch')))"

fun attach_new ::
  "('d, 'c) Env \<Rightarrow> Sql \<Rightarrow> string \<Rightarrow> (u32 \<times> string) list \<Rightarrow> 'd Table list \<times> string set \<times> bool \<Rightarrow>
   ('d Table list \<times> string set \<times> bool) result" where
  "attach_new env sql lake [] st = Ok st"
| "attach_new env sql lake ((oid, n) # ns) (ts, failed, ch) =
     rbind (catch (attach_table env sql lake n)) (\<lambda>r.
       case r of
         Inr t \<Rightarrow> attach_new env sql lake ns (ts @ [t], failed, True)
       | Inl err \<Rightarrow> attach_new env sql lake ns (ts, insert n failed, ch))"

text \<open>\<open>auto\<close> is \<^verbatim>\<open>cfg.tables.is_none()\<close>. On an error the tables handled so far stay changed and the routing is not rebuilt.\<close>

definition remap_check ::
  "('d, 'c) Env \<Rightarrow> Sql \<Rightarrow> bool \<Rightarrow> string \<Rightarrow> lsn \<Rightarrow> lsn \<Rightarrow> ('d, 'c) Engine \<Rightarrow> unit result \<times> ('d, 'c) Engine \<times> lsn" where
  "remap_check env sql auto lake ddl_lsn persisted e0 =
     (case flush_all env persisted e0 of
        (Inl err, e1, p) \<Rightarrow> (Err err, e1, p)
      | (Inr _, e1, p) \<Rightarrow>
          let e2 = (case sql_catalog sql of Inr ns \<Rightarrow> e1\<lparr>catalog_rels := set ns\<rparr> | Inl _ \<Rightarrow> e1) in
          (case remap_all env sql ddl_lsn (restart_lsn e2) (e_tables e2) of
             (Inl err, ts, ch) \<Rightarrow> (Err err, e2\<lparr>e_tables := ts\<rparr>, p)
           | (Inr _, ts, ch) \<Rightarrow>
               (case (case (auto, sql_tables sql) of
                        (True, Inr cat) \<Rightarrow>
                          attach_new env sql lake
                            (tables_to_attach ((\<lambda>t. td_oid (t_desc t)) ` set ts) (attach_failed e2) cat) (ts, attach_failed e2, ch)
                      | _ \<Rightarrow> Ok (ts, attach_failed e2, ch)) of
                  Inl err \<Rightarrow> (Err err, e2\<lparr>e_tables := ts\<rparr>, p)
                | Inr (ts', failed, ch') \<Rightarrow>
                    let e3 = e2\<lparr>e_tables := ts', attach_failed := failed\<rparr>
                    in (Ok (), if ch' then rebuild_routing e3 else e3, p))))"

section \<open>Startup\<close>

fun open_tables :: "('d, 'c) Env \<Rightarrow> bool \<Rightarrow> string \<Rightarrow> TableDesc list \<Rightarrow> 'd Table list result" where
  "open_tables env auto lake [] = Ok []"
| "open_tables env auto lake (desc # ds) =
     (case open_or_create (env_lib env) (table_uri lake (td_name desc)) desc of
        Inr s \<Rightarrow> rbind (open_tables env auto lake ds) (\<lambda>ts. Ok (new_table desc s # ts))
      | Inl err \<Rightarrow> if auto then open_tables env auto lake ds else Err err)"

definition refresh_attrs :: "(Ctid \<times> bytes) list \<Rightarrow> Mirror \<Rightarrow> Mirror" where
  "refresh_attrs raw m =
     map (\<lambda>(c, ver). (c, case rv_attrs ver of Some a \<Rightarrow> ver | None \<Rightarrow> ver\<lparr>rv_attrs := map_of raw c\<rparr>)) m"

text \<open>One table at startup: the table and its restart candidate, if it has one.\<close>

definition resume_table ::
  "('d, 'c) Env \<Rightarrow> Sql \<Rightarrow> bool \<Rightarrow> bool \<Rightarrow> 'd Table \<Rightarrow> ('d Table \<times> lsn option) result" where
  "resume_table env sql take_snapshot oracle_preimages t0 =
     rbind (resume_state (env_lib env) (t_sink t0)) (\<lambda>res.
     let t = t0\<lparr>dedupe_below := (case rs_commit res of Some c \<Rightarrow> c | None \<Rightarrow> 0)\<rparr> in
     case rs_restart res of
       Some r \<Rightarrow>
         rbind (load_mirror (env_lib env) (t_desc t) (t_sink t)) (\<lambda>m.
         rbind (if oracle_preimages then Ok [] else sql_raw_attrs sql (t_desc t)) (\<lambda>raw.
         let t1 = t\<lparr>mirror := refresh_attrs raw m\<rparr>;
             stamp = (if schema_added_columns (t_sink t1) \<and> has_fast_defaults (t_desc t1) then Some 0
                      else (case rs_filenode res of
                              Some stored \<Rightarrow> if stored \<noteq> rel_node (t_desc t1) then Some stored else None
                            | None \<Rightarrow> None))
         in (case stamp of
               None \<Rightarrow> Ok (t1, Some r)
             | Some st \<Rightarrow> (case remap_table env sql (dedupe_below t1 + 1) st r t1 of
                 (Inl err, _) \<Rightarrow> Err err
               | (Inr _, t2) \<Rightarrow> Ok (t2, Some r)))))
     | None \<Rightarrow>
         if take_snapshot then
           rbind (sql_snapshot sql (t_desc t)) (\<lambda>(cutover, rs, raw).
           rbind (seed_mirror (t_desc t) rs raw (mirror t)) (\<lambda>m.
           (case (if rs = [] then (Ok 0, t_sink t)
                  else sink_append (env_lib env) (snapshot_emits cutover 0 rs) cutover cutover (rel_node (t_desc t)) (t_sink t)) of
              (Inl err, s) \<Rightarrow> Err err
            | (Inr v, s) \<Rightarrow> Ok (t\<lparr>mirror := m, t_sink := s, dedupe_below := cutover\<rparr>, Some cutover))))
         else Ok (t, None))"

definition resume_tables ::
  "('d, 'c) Env \<Rightarrow> Sql \<Rightarrow> bool \<Rightarrow> bool \<Rightarrow> 'd Table list \<Rightarrow> ('d Table list \<times> lsn list) result" where
  "resume_tables env sql take_snapshot oracle_preimages ts =
     rbind (rmap (resume_table env sql take_snapshot oracle_preimages) ts) (\<lambda>rs.
       Ok (map fst rs, List.map_filter snd rs))"

text \<open>\<open>neon\<close> tells whether tenant and timeline are known and the oracle is enabled.\<close>

definition build_engine ::
  "Sql \<Rightarrow> nat \<Rightarrow> nat \<Rightarrow> nat \<Rightarrow> nat option \<Rightarrow> bool \<Rightarrow> 'd Table list \<Rightarrow> RecordBatch TailStore \<Rightarrow> lsn \<Rightarrow> ('d, 'c) Engine result" where
  "build_engine sql retain max_rows crows vac neon ts tail0 last_lsn =
     (case ts of [] \<Rightarrow> Err (Bail ''no tables attached - nothing to transcode'')
      | t # _ \<Rightarrow>
          rbind (sql_catalog sql) (\<lambda>nodes.
            Ok (rebuild_routing
              \<lparr>e_tables = ts, rel_to_table = (\<lambda>_. None), toast_rels = {}, e_txbuf = txbuf_default, e_toast = toast_default,
               last_commit_lsn = last_lsn, catalog_rels = set nodes, smgr_suspects = {}, remap_at = None, attach_failed = {},
               e_tail = tail0, tail_retain = retain, tail_max_rows = max_rows, compact_rows = crows, vacuum_after = vac,
               e_db_oid = db_oid (t_desc t), e_oracle = (if neon then Some \<lparr>o_conn = None, o_disabled = False\<rparr> else None)\<rparr>)))"

end
