(* ===== verification/Replay.thy ===== *)
theory Replay
  imports Engine
begin

text \<open>
  Crash and restart of the engine of \<^verbatim>\<open>src/engine.rs\<close>. The stream of records is seen as events on open
  transactions; the buffer and the tables refine an abstract log of open changes. Restarting from the
  position a flush wrote, with the watermark it wrote, ships every committed change of a table exactly
  once.
\<close>

section \<open>Event streams\<close>

text \<open>
  What a record is to the transaction buffer: the changes of one transaction, a commit or an abort
  with its subtransactions. Records have strictly increasing LSNs.
\<close>

datatype event = Changes u32 "(nat \<times> Op) list" | Commit u32 "u32 list" | Abort u32 "u32 list"

type_synonym stream = "(lsn \<times> event) list"

definition stream_ok :: "stream \<Rightarrow> bool" where
  "stream_ok evs \<longleftrightarrow> sorted_wrt (<) (map fst evs)"

fun apply_event :: "('d, 'c) Env \<Rightarrow> lsn \<times> event \<Rightarrow> ('d, 'c) Engine \<Rightarrow> ('d, 'c) Engine result" where
  "apply_event env (l, Changes x cs) e = Ok (e\<lparr>e_txbuf := fold (\<lambda>(t, op). add_op x l t op) cs (e_txbuf e)\<rparr>)"
| "apply_event env (l, Commit x subs) e = handle_commit env l x subs e"
| "apply_event env (l, Abort x subs) e = Ok (handle_abort l x subs e)"

text \<open>A run: events, and flush rounds, each in its own environment, with the rows each table has appended to its lake.\<close>

datatype ('d, 'c) engine_step = Ev "('d, 'c) Env" "lsn \<times> event" | Flush "('d, 'c) Env" lsn

type_synonym ('d, 'c) run_state = "('d, 'c) Engine \<times> (nat \<Rightarrow> EmitRow list)"

definition pending_rows :: "nat \<Rightarrow> ('d, 'c) Engine \<Rightarrow> EmitRow list" where
  "pending_rows ti e = pb_rows (pending (e_tables e ! ti))"

fun exec :: "('d, 'c) engine_step \<Rightarrow> ('d, 'c) run_state \<Rightarrow> ('d, 'c) run_state result" where
  "exec (Ev env ev) (e, lake) = rbind (apply_event env ev e) (\<lambda>e'. Ok (e', lake))"
| "exec (Flush env p) (e, lake) =
     (case flush_all env p e of
        (Inl err, _) \<Rightarrow> Err err
      | (Inr _, e', _) \<Rightarrow> Ok (e', \<lambda>ti. lake ti @ pending_rows ti e))"

definition run :: "('d, 'c) engine_step list \<Rightarrow> ('d, 'c) run_state \<Rightarrow> ('d, 'c) run_state result" where
  "run = rfold exec"

fun event_of :: "('d, 'c) engine_step \<Rightarrow> stream" where
  "event_of (Ev env ev) = [ev]"
| "event_of (Flush env p) = []"

definition events_of :: "('d, 'c) engine_step list \<Rightarrow> stream" where
  "events_of steps = concat (map event_of steps)"

definition shipped :: "nat \<Rightarrow> ('d, 'c) run_state \<Rightarrow> EmitRow list" where
  "shipped ti s = snd s ti @ pending_rows ti (fst s)"

text \<open>What a change row says: its commit, its address, and its content unless it is a tombstone.\<close>

definition row_sig :: "EmitRow \<Rightarrow> lsn \<times> Ctid \<times> Row option" where
  "row_sig r = (er_lsn r, er_ctid r, if er_deleted r then None else Some (er_row r))"

fun op_sig :: "lsn \<Rightarrow> Op \<Rightarrow> lsn \<times> Ctid \<times> Row option" where
  "op_sig l (Insert c v) = (l, c, Some (rv_row v))"
| "op_sig l (Update old c v) = (l, c, Some (rv_row v))"
| "op_sig l (Delete c old) = (l, c, None)"

section \<open>The specification: a log of open changes\<close>

fun log_step :: "lsn \<times> event \<Rightarrow> txlog \<Rightarrow> txlog" where
  "log_step (l, Changes x cs) log = log @ map (\<lambda>(t, op). (x, \<lparr>po_lsn = l, po_table = t, po_op = op\<rparr>)) cs"
| "log_step (l, Commit x subs) log = log_drop (set (x # subs)) log"
| "log_step (l, Abort x subs) log = log_drop (set (x # subs)) log"

fun log_out :: "lsn \<times> event \<Rightarrow> txlog \<Rightarrow> (lsn \<times> PendingOp list) list" where
  "log_out (l, Commit x subs) log = [(l, log_take (set (x # subs)) log)]"
| "log_out (l, Changes x cs) log = []"
| "log_out (l, Abort x subs) log = []"

fun commits :: "stream \<Rightarrow> txlog \<Rightarrow> (lsn \<times> PendingOp list) list" where
  "commits [] log = []"
| "commits (ev # evs) log = log_out ev log @ commits evs (log_step ev log)"

definition table_ops :: "nat \<Rightarrow> PendingOp list \<Rightarrow> PendingOp list" where
  "table_ops ti ops = filter (\<lambda>p. po_table p = ti) ops"

definition emissions :: "lsn \<Rightarrow> nat \<Rightarrow> (lsn \<times> PendingOp list) list \<Rightarrow> (lsn \<times> Ctid \<times> Row option) list" where
  "emissions w ti cs = concat (map (\<lambda>(l, ops). if l \<le> w then [] else map (\<lambda>p. op_sig l (po_op p)) (table_ops ti ops)) cs)"

section \<open>Replaying a suffix, on logs\<close>

fun dropped_by :: "lsn \<times> event \<Rightarrow> txlog \<Rightarrow> txlog" where
  "dropped_by (l, Changes x cs) D = D"
| "dropped_by (l, Commit x subs) D = log_drop (set (x # subs)) D"
| "dropped_by (l, Abort x subs) D = log_drop (set (x # subs)) D"

lemma log_step_split: "log_step ev (D @ log) = dropped_by ev D @ log_step ev log"
  by (cases "(ev, D)" rule: dropped_by.cases) (simp_all add: log_drop_def)

lemma log_end_split: "fold log_step evs (D @ log) = fold dropped_by evs D @ fold log_step evs log"
  by (induction evs arbitrary: D log) (simp_all add: log_step_split)

lemma commits_append: "commits (as @ bs) log = commits as log @ commits bs (fold log_step as log)"
  by (induction as arbitrary: log) simp_all

lemma emissions_append: "emissions w ti (as @ bs) = emissions w ti as @ emissions w ti bs"
  by (simp add: emissions_def)

lemma table_ops_append: "table_ops ti (as @ bs) = table_ops ti as @ table_ops ti bs"
  by (simp add: table_ops_def)

lemma log_out_split:
  "list_all2 (\<lambda>(l, ops) (l', ops'). l = l' \<and> (\<exists>pre. ops = pre @ ops')) (log_out ev (D @ log)) (log_out ev log)"
  by (cases "(ev, log)" rule: log_out.cases) (simp_all add: log_take_def)

lemma commits_split:
  "list_all2 (\<lambda>(l, ops) (l', ops'). l = l' \<and> (\<exists>pre. ops = pre @ ops')) (commits evs (D @ log)) (commits evs log)"
proof (induction evs arbitrary: D log)
  case (Cons ev evs)
  show ?case
    using list_all2_appendI [OF log_out_split [of ev D log] Cons [of "dropped_by ev D" "log_step ev log"]]
    by (simp add: log_step_split)
qed simp

definition settled :: "lsn \<Rightarrow> nat \<Rightarrow> (lsn \<times> PendingOp list) list \<Rightarrow> bool" where
  "settled w ti cs \<longleftrightarrow> (\<forall>(l, ops) \<in> set cs. l \<le> w \<or> table_ops ti ops = [])"

lemma settled_silent: "settled w ti cs \<Longrightarrow> emissions w ti cs = []"
  by (fastforce simp: settled_def emissions_def)

lemma settled_suffix:
  assumes "settled w ti (commits evs (D @ log))"
  shows "settled w ti (commits evs log)"
proof -
  note sp = commits_split [of evs D log, unfolded list_all2_conv_all_nth]
  have "table_ops ti ops' = []" if c: "(l', ops') \<in> set (commits evs log)" "\<not> l' \<le> w" for l' ops'
  proof -
    obtain i where i: "i < length (commits evs log)" "commits evs log ! i = (l', ops')" using c(1) by (metis in_set_conv_nth)
    obtain l ops where lo: "commits evs (D @ log) ! i = (l, ops)" by fastforce
    have le: "l = l' \<and> (\<exists>pre. ops = pre @ ops')" "i < length (commits evs (D @ log))"
      using spec [OF conjunct2 [OF sp], of i] conjunct1 [OF sp] i lo by auto
    then have "(l, ops) \<in> set (commits evs (D @ log))" using lo nth_mem by metis
    then show ?thesis using assms le c(2) by (fastforce simp: settled_def table_ops_append)
  qed
  then show ?thesis by (auto simp: settled_def)
qed

lemma log_end_lsns: "e \<in> set (fold log_step evs log) \<Longrightarrow> e \<in> set log \<or> po_lsn (snd e) \<in> fst ` set evs"
proof (induction evs arbitrary: log)
  case (Cons ev evs)
  have "e \<in> set (log_step ev log) \<Longrightarrow> e \<in> set log \<or> po_lsn (snd e) = fst ev"
    by (cases "(ev, log)" rule: log_step.cases) (auto simp: log_drop_def)
  then show ?case using Cons.IH [of "log_step ev log"] Cons.prems by auto
qed simp

lemma dropped_by_subset: "set (fold dropped_by evs D) \<subseteq> set D"
proof (induction evs arbitrary: D)
  case (Cons ev evs)
  have "set (dropped_by ev D) \<subseteq> set D" by (cases "(ev, D)" rule: dropped_by.cases) (auto simp: log_drop_def)
  then show ?case using Cons [of "dropped_by ev D"] by auto
qed simp

lemma stream_split:
  assumes "stream_ok evs"
  shows "evs = filter (\<lambda>e. fst e < r) evs @ filter (\<lambda>e. r \<le> fst e) evs"
  using assms
proof (induction evs)
  case (Cons e evs)
  then have IH: "evs = filter (\<lambda>e. fst e < r) evs @ filter (\<lambda>e. r \<le> fst e) evs" by (simp add: stream_ok_def)
  show ?case
  proof (cases "fst e < r")
    case True
    then show ?thesis using IH by simp
  next
    case False
    then have "\<forall>x \<in> set evs. r \<le> fst x" using Cons.prems by (force simp: stream_ok_def)
    then have "filter (\<lambda>e. fst e < r) evs = []" "filter (\<lambda>e. r \<le> fst e) evs = evs"
      by (auto simp: filter_empty_conv filter_id_conv)
    then show ?thesis using False by simp
  qed
qed simp

text \<open>
  The replay lemma. After \<open>as\<close> every change still open has an LSN of at least \<open>r\<close>, and every commit
  of \<open>as\<close> above the watermark changed nothing of the table. Then replaying from \<open>r\<close> what follows, with
  an empty buffer, emits what the uninterrupted run emits after \<open>as\<close>.
\<close>

lemma replay_suffix:
  assumes ok: "stream_ok (as @ bs)" and r: "\<forall>b \<in> set bs. r \<le> fst b"
    and opn: "\<forall>e \<in> set (fold log_step as []). r \<le> po_lsn (snd e)"
    and done_as: "settled w ti (commits as [])"
  shows "emissions w ti (commits (filter (\<lambda>e. r \<le> fst e) (as @ bs)) []) = emissions w ti (commits bs (fold log_step as []))"
proof -
  let ?A = "filter (\<lambda>e. fst e < r) as" and ?B = "filter (\<lambda>e. r \<le> fst e) as"
  have "stream_ok as" using ok by (simp add: stream_ok_def sorted_wrt_append)
  then have as: "as = ?A @ ?B" by (rule stream_split)
  let ?D = "fold log_step ?A []"
  have e1: "fold log_step as [] = fold dropped_by ?B ?D @ fold log_step ?B []"
    using log_end_split [of ?B ?D "[]"] by (subst as) simp
  have "po_lsn (snd e) < r" if "e \<in> set (fold dropped_by ?B ?D)" for e
  proof -
    have "e \<in> set ?D" using that dropped_by_subset [of ?B ?D] by blast
    then have "po_lsn (snd e) \<in> fst ` set ?A" using log_end_lsns [of e ?A "[]"] by simp
    then show ?thesis by auto
  qed
  moreover have "r \<le> po_lsn (snd e)" if "e \<in> set (fold dropped_by ?B ?D)" for e
    using that opn e1 by auto
  ultimately have "fold dropped_by ?B ?D = []" by (meson linorder_not_le list.set_sel(1))
  then have same: "fold log_step as [] = fold log_step ?B []" using e1 by simp
  have "settled w ti (commits ?B ?D)"
    using done_as commits_append [of ?A ?B "[]"] as by (simp add: settled_def)
  then have "settled w ti (commits ?B [])" using settled_suffix [of w ti ?B ?D "[]"] by simp
  moreover have "filter (\<lambda>e. r \<le> fst e) (as @ bs) = ?B @ bs" using r by (simp add: filter_id_conv)
  ultimately show ?thesis
    by (simp add: commits_append emissions_append settled_silent same)
qed
section \<open>The engine refines the log\<close>

lemma commit_change_table:
  "\<exists>r. pb_rows (pending (commit_change now l op t)) = pb_rows (pending t) @ [r] \<and> row_sig r = op_sig l op \<and>
     er_lsn r = l \<and> er_seq r = pb_seq (pending t) + 1"
  "dedupe_below (commit_change now l op t) = dedupe_below t" "t_sink (commit_change now l op t) = t_sink t"
  "t_desc (commit_change now l op t) = t_desc t"
  "max_commit_lsn (pending (commit_change now l op t)) = max (max_commit_lsn (pending t)) l"
  "pb_seq (pending (commit_change now l op t)) = pb_seq (pending t) + 1"
  by (cases op; simp add: emit_def row_sig_def Let_def)+

definition table_emits :: "lsn \<Rightarrow> nat \<Rightarrow> PendingOp list \<Rightarrow> 'd Table \<Rightarrow> (lsn \<times> Ctid \<times> Row option) list" where
  "table_emits l ti ops t = (if l \<le> dedupe_below t then [] else map (\<lambda>p. op_sig l (po_op p)) (table_ops ti ops))"

definition table_advances :: "(lsn \<times> Ctid \<times> Row option) list \<Rightarrow> 'd Table \<Rightarrow> 'd Table \<Rightarrow> bool" where
  "table_advances sigs t t' \<longleftrightarrow>
     map row_sig (pb_rows (pending t')) = map row_sig (pb_rows (pending t)) @ sigs \<and>
     dedupe_below t' = dedupe_below t \<and>
     max_commit_lsn (pending t') = fold max (map fst sigs) (max_commit_lsn (pending t))"

lemma table_advances_Nil: "table_advances [] t t"
  by (simp add: table_advances_def)

lemma table_advances_trans:
  "table_advances as t t' \<Longrightarrow> table_advances bs t' t'' \<Longrightarrow> table_advances (as @ bs) t t''"
  by (simp add: table_advances_def)

lemma commit_change_advances: "table_advances [op_sig l op] t (commit_change now l op t)"
proof -
  have "fst (op_sig l op) = l" by (cases op) simp_all
  then show ?thesis
    using commit_change_table(1) [of now l op t] by (auto simp: table_advances_def commit_change_table max.commute)
qed

lemma commit_ops_tables:
  "commit_ops now l ops (ts, em) = Ok (ts', em') \<Longrightarrow> ti < length ts \<Longrightarrow>
   length ts' = length ts \<and> table_advances (table_emits l ti ops (ts ! ti)) (ts ! ti) (ts' ! ti)"
proof (induction ops arbitrary: ts em)
  case Nil
  then show ?case by (simp add: table_emits_def table_ops_def table_advances_Nil)
next
  case (Cons p ps)
  let ?k = "po_table p"
  obtain t where t: "index ts ?k = Ok t" using Cons.prems(1) by (auto simp: result_simps)
  then have k: "?k < length ts" "t = ts ! ?k" by (auto simp: index_def result_simps get_eq_Some)
  show ?case
  proof (cases "l \<le> dedupe_below t")
    case True
    then have "commit_ops now l ps (ts, em) = Ok (ts', em')" using Cons.prems(1) t by simp
    from Cons.IH [OF this Cons.prems(2)] show ?thesis
      using True k by (cases "ti = ?k") (auto simp: table_emits_def table_ops_def)
  next
    case False
    let ?t' = "commit_change now l (po_op p) t" and ?ts = "ts[?k := commit_change now l (po_op p) t]"
    obtain em1 where "commit_ops now l ps (?ts, em1) = Ok (ts', em')" using Cons.prems(1) t False by auto
    from Cons.IH [OF this] Cons.prems(2)
    have IH: "length ts' = length ts" "table_advances (table_emits l ti ps (?ts ! ti)) (?ts ! ti) (ts' ! ti)" by auto
    show ?thesis
    proof (cases "ti = ?k")
      case True
      then have em: "table_emits l ti (p # ps) (ts ! ti) = [op_sig l (po_op p)] @ table_emits l ti ps (?ts ! ti)"
        using False k by (simp add: table_emits_def table_ops_def commit_change_table)
      have "table_advances [op_sig l (po_op p)] (ts ! ti) (?ts ! ti)"
        using True k by (simp add: commit_change_advances)
      from table_advances_trans [OF this IH(2)] show ?thesis using IH(1) em by simp
    qed (use IH in \<open>auto simp: table_emits_def table_ops_def\<close>)
  qed
qed

lemma publish_keeps:
  "e_tables (publish env en e) = e_tables e" "e_txbuf (publish env en e) = e_txbuf e"
  "last_commit_lsn (publish env en e) = last_commit_lsn e"
  by (auto simp: publish_def Let_def split: prod.split sum.split)

lemma fold_publish_keeps:
  "e_tables (fold (publish env) em e) = e_tables e" "e_txbuf (fold (publish env) em e) = e_txbuf e"
  "last_commit_lsn (fold (publish env) em e) = last_commit_lsn e"
  by (induction em arbitrary: e) (simp_all add: publish_keeps)

lemma handle_commit_Ok:
  assumes "handle_commit env l x subs e = Ok e'"
  obtains ops b' em where "tx_commit x subs (e_txbuf e) = (ops, b')" "e_txbuf e' = b'" "last_commit_lsn e' = l"
    "commit_ops (env_now env) l ops (e_tables e, []) = Ok (e_tables e', em)"
  using assms that
  by (auto simp: handle_commit_def Let_def result_simps fold_publish_keeps split: prod.splits)

definition log_below :: "lsn \<Rightarrow> txlog \<Rightarrow> bool" where
  "log_below l log \<longleftrightarrow> (\<forall>e \<in> set log. po_lsn (snd e) < l)"

lemma add_changes_refines:
  assumes "txbuf_refines b log" "\<forall>e \<in> set log. po_lsn (snd e) \<le> l \<and> (po_lsn (snd e) = l \<longrightarrow> fst e = x)"
  shows "txbuf_refines (fold (\<lambda>(t, op). add_op x l t op) cs b)
     (log @ map (\<lambda>(t, op). (x, \<lparr>po_lsn = l, po_table = t, po_op = op\<rparr>)) cs)"
  using assms
proof (induction cs arbitrary: b log)
  case (Cons c cs)
  obtain t op where c: "c = (t, op)" by (cases c)
  have "txbuf_refines (add_op x l t op b) (log @ [(x, \<lparr>po_lsn = l, po_table = t, po_op = op\<rparr>)])"
    using Cons.prems by (intro txbuf.refines_add) (auto simp: wal_next_def)
  from Cons.IH [OF this] show ?case using Cons.prems by (simp add: c)
qed simp

definition advances :: "nat \<Rightarrow> (lsn \<times> Ctid \<times> Row option) list \<Rightarrow> ('d, 'c) Engine \<Rightarrow> ('d, 'c) Engine \<Rightarrow> bool" where
  "advances ti sigs e e' \<longleftrightarrow> length (e_tables e') = length (e_tables e) \<and> table_advances sigs (e_tables e ! ti) (e_tables e' ! ti)"

lemma apply_event_refines:
  assumes ref: "txbuf_refines (e_txbuf e) log" and below: "log_below (fst ev) log"
    and fd: "apply_event env ev e = Ok e'" and ti: "ti < length (e_tables e)"
  shows "txbuf_refines (e_txbuf e') (log_step ev log)"
    and "advances ti (emissions (dedupe_below (e_tables e ! ti)) ti (log_out ev log)) e e'"
    and "last_commit_lsn e' = last_commit_lsn e \<or> last_commit_lsn e' = fst ev"
proof -
  obtain l v where ev: "ev = (l, v)" by (cases ev)
  have "txbuf_refines (e_txbuf e') (log_step ev log) \<and>
    advances ti (emissions (dedupe_below (e_tables e ! ti)) ti (log_out ev log)) e e' \<and>
    (last_commit_lsn e' = last_commit_lsn e \<or> last_commit_lsn e' = fst ev)"
  proof (cases v)
    case (Changes x cs)
    have "\<forall>e \<in> set log. po_lsn (snd e) \<le> l \<and> (po_lsn (snd e) = l \<longrightarrow> fst e = x)"
      using below ev by (auto simp: log_below_def)
    from add_changes_refines [OF ref this] show ?thesis
      using Changes fd ev by (auto simp: advances_def emissions_def table_advances_Nil)
  next
    case (Commit x subs)
    with fd ev have "handle_commit env l x subs e = Ok e'" by simp
    then obtain ops b' em where c: "tx_commit x subs (e_txbuf e) = (ops, b')" "e_txbuf e' = b'" "last_commit_lsn e' = l"
      "commit_ops (env_now env) l ops (e_tables e, []) = Ok (e_tables e', em)" by (rule handle_commit_Ok)
    have ops: "ops = log_take (set (x # subs)) log" "txbuf_refines b' (log_drop (set (x # subs)) log)"
      using txbuf.refines_commit [OF ref c(1)] by simp_all
    from commit_ops_tables [OF c(4) ti] c(2,3) ops ev Commit show ?thesis
      by (simp add: advances_def emissions_def table_emits_def)
  next
    case (Abort x subs)
    obtain n b' where ab: "tx_abort x subs (e_txbuf e) = (n, b')" by fastforce
    with txbuf.refines_abort [OF ref ab] fd ev Abort show ?thesis
      by (auto simp: handle_abort_def advances_def emissions_def table_advances_Nil)
  qed
  then show "txbuf_refines (e_txbuf e') (log_step ev log)"
    and "advances ti (emissions (dedupe_below (e_tables e ! ti)) ti (log_out ev log)) e e'"
    and "last_commit_lsn e' = last_commit_lsn e \<or> last_commit_lsn e' = fst ev" by blast+
qed

lemma flush_table_Ok:
  "flush_table env r rt cap t tl0 = (Ok u, t', tl0') \<Longrightarrow>
   pb_rows (pending t') = [] \<and> dedupe_below t' = dedupe_below t \<and> t_desc t' = t_desc t \<and> mirror t' = mirror t \<and>
   max_commit_lsn (pending t') = max_commit_lsn (pending t) \<and> pb_seq (pending t') = pb_seq (pending t)"
  by (auto simp: flush_table_def split: if_splits prod.splits sum.splits)

lemma flush_tables_Ok:
  "flush_tables env r rt cap ts tl0 = (Ok u, ts', tl0') \<Longrightarrow>
   list_all2 (\<lambda>t t'. \<exists>a b. flush_table env r rt cap t a = (Ok (), t', b)) ts ts'"
  by (induction ts arbitrary: ts' tl0) (fastforce split: prod.splits sum.splits)+

lemma flush_all_Ok:
  assumes "flush_all env p e = (Ok u, e', p')" "ti < length (e_tables e)"
  shows "e_txbuf e' = e_txbuf e" "last_commit_lsn e' = last_commit_lsn e" "length (e_tables e') = length (e_tables e)"
    "pending_rows ti e' = []" "dedupe_below (e_tables e' ! ti) = dedupe_below (e_tables e ! ti)"
    "max_commit_lsn (pending (e_tables e' ! ti)) = max_commit_lsn (pending (e_tables e ! ti))"
proof -
  have "e_txbuf e' = e_txbuf e \<and> last_commit_lsn e' = last_commit_lsn e \<and> length (e_tables e') = length (e_tables e) \<and>
    pending_rows ti e' = [] \<and> dedupe_below (e_tables e' ! ti) = dedupe_below (e_tables e ! ti) \<and>
    max_commit_lsn (pending (e_tables e' ! ti)) = max_commit_lsn (pending (e_tables e ! ti))"
  proof (cases "pending_total e = 0")
    case True
    then have "pb_rows (pending (e_tables e ! ti)) = []" using assms(2) by (auto simp: pending_total_def)
    then show ?thesis using assms True by (simp add: flush_all_def pending_rows_def)
  next
    case False
    then obtain ts tl' where ft: "flush_tables env (restart_lsn e) (tail_retain e) (tail_max_rows e) (e_tables e) (e_tail e) = (Ok u, ts, tl')"
      "e' = e\<lparr>e_tables := ts, e_tail := tl'\<rparr>"
      using assms(1) by (auto simp: flush_all_def Let_def split: prod.splits)
    from flush_tables_Ok [OF ft(1)] assms(2) obtain a b where
      "length ts = length (e_tables e)" "flush_table env (restart_lsn e) (tail_retain e) (tail_max_rows e) (e_tables e ! ti) a = (Ok (), ts ! ti, b)"
      by (auto simp: list_all2_conv_all_nth)
    then show ?thesis using flush_table_Ok ft(2) by (fastforce simp: pending_rows_def)
  qed
  then show "e_txbuf e' = e_txbuf e" "last_commit_lsn e' = last_commit_lsn e" "length (e_tables e') = length (e_tables e)"
    "pending_rows ti e' = []" "dedupe_below (e_tables e' ! ti) = dedupe_below (e_tables e ! ti)"
    "max_commit_lsn (pending (e_tables e' ! ti)) = max_commit_lsn (pending (e_tables e ! ti))" by blast+
qed

text \<open>Runs: what is shipped grows by what the committed changes emit.\<close>

lemma log_step_below:
  "log_below l log \<Longrightarrow> fst ev < l \<Longrightarrow> log_below l (log_step ev log)"
  by (cases "(ev, log)" rule: log_step.cases) (auto simp: log_below_def log_drop_def)

definition stream_after :: "txlog \<Rightarrow> stream \<Rightarrow> bool" where
  "stream_after log evs \<longleftrightarrow> stream_ok evs \<and> (\<forall>ev \<in> set evs. log_below (fst ev) log)"

lemma stream_after_Cons:
  "stream_after log (ev # evs) \<Longrightarrow> log_below (fst ev) log \<and> stream_after (log_step ev log) evs"
  by (auto simp: stream_after_def stream_ok_def intro: log_step_below)

definition tracked :: "nat \<Rightarrow> lsn \<Rightarrow> txlog \<Rightarrow> ('d, 'c) Engine \<Rightarrow> bool" where
  "tracked ti w log e \<longleftrightarrow> txbuf_refines (e_txbuf e) log \<and> ti < length (e_tables e) \<and> dedupe_below (e_tables e ! ti) = w"

definition table_max :: "nat \<Rightarrow> ('d, 'c) Engine \<Rightarrow> lsn" where
  "table_max ti e = max_commit_lsn (pending (e_tables e ! ti))"

lemma exec_tracked:
  assumes tr: "tracked ti w log e" and ok: "stream_after log (event_of st)"
    and ex: "exec st (e, lake) = Ok (e', lake')"
  shows "tracked ti w (fold log_step (event_of st) log) e'"
    and "map row_sig (shipped ti (e', lake')) = map row_sig (shipped ti (e, lake)) @ emissions w ti (commits (event_of st) log)"
    and "table_max ti e' = fold max (map fst (emissions w ti (commits (event_of st) log))) (table_max ti e)"
    and "last_commit_lsn e' = last_commit_lsn e \<or> last_commit_lsn e' \<in> fst ` set (event_of st)"
proof -
  have "tracked ti w (fold log_step (event_of st) log) e' \<and>
    map row_sig (shipped ti (e', lake')) = map row_sig (shipped ti (e, lake)) @ emissions w ti (commits (event_of st) log) \<and>
    table_max ti e' = fold max (map fst (emissions w ti (commits (event_of st) log))) (table_max ti e) \<and>
    (last_commit_lsn e' = last_commit_lsn e \<or> last_commit_lsn e' \<in> fst ` set (event_of st))"
  proof (cases st)
    case (Ev env ev)
    then have fd: "apply_event env ev e = Ok e'" "lake' = lake" using ex by (auto simp: result_simps)
    have b: "txbuf_refines (e_txbuf e) log" "log_below (fst ev) log" "ti < length (e_tables e)" "dedupe_below (e_tables e ! ti) = w"
      using tr ok Ev by (auto simp: tracked_def stream_after_def)
    note fr = apply_event_refines [OF b(1,2) fd(1) b(3)]
    show ?thesis using fr b Ev fd(2)
      by (auto simp: tracked_def advances_def table_advances_def shipped_def pending_rows_def table_max_def)
  next
    case (Flush env p)
    then obtain u p' where fl: "flush_all env p e = (Ok u, e', p')" "lake' = (\<lambda>ti. lake ti @ pending_rows ti e)"
      using ex by (auto split: prod.splits sum.splits)
    have ti: "ti < length (e_tables e)" using tr by (simp add: tracked_def)
    show ?thesis using flush_all_Ok [OF fl(1) ti] tr Flush fl(2)
      by (simp add: tracked_def shipped_def table_max_def emissions_def)
  qed
  then show "tracked ti w (fold log_step (event_of st) log) e'"
    and "map row_sig (shipped ti (e', lake')) = map row_sig (shipped ti (e, lake)) @ emissions w ti (commits (event_of st) log)"
    and "table_max ti e' = fold max (map fst (emissions w ti (commits (event_of st) log))) (table_max ti e)"
    and "last_commit_lsn e' = last_commit_lsn e \<or> last_commit_lsn e' \<in> fst ` set (event_of st)" by blast+
qed

lemma stream_after_step:
  "stream_after log (event_of st @ evs) \<Longrightarrow> stream_after log (event_of st) \<and> stream_after (fold log_step (event_of st) log) evs"
proof (cases st)
  case (Ev env ev)
  assume "stream_after log (event_of st @ evs)"
  then show ?thesis using Ev stream_after_Cons [of log ev evs] by (simp add: stream_after_def stream_ok_def)
qed (simp add: stream_after_def stream_ok_def)

lemma run_tracked:
  assumes "tracked ti w log e" "stream_after log (events_of steps)" "run steps (e, lake) = Ok (e', lake')"
  shows "tracked ti w (fold log_step (events_of steps) log) e' \<and>
    map row_sig (shipped ti (e', lake')) = map row_sig (shipped ti (e, lake)) @ emissions w ti (commits (events_of steps) log) \<and>
    table_max ti e' = fold max (map fst (emissions w ti (commits (events_of steps) log))) (table_max ti e) \<and>
    (last_commit_lsn e' = last_commit_lsn e \<or> last_commit_lsn e' \<in> fst ` set (events_of steps))"
  using assms
proof (induction steps arbitrary: log e lake)
  case Nil
  then show ?case by (simp add: run_def events_of_def emissions_def)
next
  case (Cons st steps)
  obtain e1 lake1 where s1: "exec st (e, lake) = Ok (e1, lake1)" "run steps (e1, lake1) = Ok (e', lake')"
    using Cons.prems(3) by (auto simp: run_def result_simps)
  have evs: "events_of (st # steps) = event_of st @ events_of steps" by (simp add: events_of_def)
  have ok: "stream_after log (event_of st)" "stream_after (fold log_step (event_of st) log) (events_of steps)"
    using stream_after_step Cons.prems(2) evs by metis+
  note x = exec_tracked [OF Cons.prems(1) ok(1) s1(1)]
  from Cons.IH [OF x(1) ok(2) s1(2)] x(2-4) show ?case
    by (simp add: evs commits_append emissions_append image_Un) metis
qed

section \<open>Crash and replay\<close>

definition fresh :: "nat \<Rightarrow> lsn \<Rightarrow> ('d, 'c) Engine \<Rightarrow> bool" where
  "fresh ti w e \<longleftrightarrow> e_txbuf e = txbuf_default \<and> ti < length (e_tables e) \<and>
     dedupe_below (e_tables e ! ti) = w \<and> pending (e_tables e ! ti) = pending_default"

lemma fresh_tracked: "fresh ti w e \<Longrightarrow> tracked ti w [] e \<and> shipped ti (e, \<lambda>_. []) = [] \<and> table_max ti e = 0"
  by (simp add: fresh_def tracked_def txbuf.refines_empty shipped_def pending_rows_def table_max_def pending_default_def)

lemma fold_max_ge: "m \<le> fold max xs m" "x \<in> set xs \<Longrightarrow> x \<le> fold max xs m" for xs :: "nat list"
proof (induction xs arbitrary: m)
  case (Cons y ys)
  { case 1 show ?case using Cons(1) [of "max y m"] by simp }
  { case 2 then show ?case using Cons(1) [of "max y m"] Cons(2) [of "max y m"] by auto }
qed simp_all

lemma fold_max_mem: "fold max xs m = m \<or> fold max xs m \<in> set xs" for xs :: "nat list"
  by (induction xs arbitrary: m) (auto simp: max_def split: if_splits)

lemma emissions_lsn:
  assumes "s \<in> set (emissions w ti cs)"
  shows "w < fst s" "fst s \<in> fst ` set cs"
proof -
  have sig: "fst (op_sig l op) = l" for l op by (cases op) simp_all
  show "w < fst s" "fst s \<in> fst ` set cs" using assms by (force simp: emissions_def sig split: if_splits)+
qed

lemma commits_lsn: "fst ` set (commits evs log) \<subseteq> fst ` set evs"
proof (induction evs arbitrary: log)
  case (Cons ev evs)
  have "fst ` set (log_out ev log) \<subseteq> {fst ev}" by (cases "(ev, log)" rule: log_out.cases) auto
  then show ?case using Cons [of "log_step ev log"] by (simp add: image_Un) blast
qed simp

definition new_watermark :: "lsn \<Rightarrow> nat \<Rightarrow> ('d, 'c) run_state \<Rightarrow> lsn" where
  "new_watermark w ti s = (if snd s ti = [] then w else table_max ti (fst s))"

lemma watermark_settles:
  assumes em: "emissions w ti cs = map row_sig rows" and mx: "m = fold max (map fst (emissions w ti cs)) 0"
    and w': "w' = (if rows = [] then w else m)"
  shows "settled w' ti cs" "w \<le> w'" "w' = w \<or> w' \<in> fst ` set cs"
proof -
  have big: "fst s \<le> w'" if "s \<in> set (emissions w ti cs)" for s
  proof -
    have "rows \<noteq> []" using that em by auto
    then show ?thesis using fold_max_ge(2) [of "fst s" "map fst (emissions w ti cs)" 0] that by (simp add: w' mx)
  qed
  show le: "w \<le> w'"
  proof (cases "rows = []")
    case False
    then have "emissions w ti cs \<noteq> []" using em by simp
    then obtain s where "s \<in> set (emissions w ti cs)" by (meson last_in_set)
    then show ?thesis using big [of s] emissions_lsn(1) [of s w ti cs] by simp
  qed (simp add: w')
  have "l \<le> w'" if c: "(l, ops) \<in> set cs" "table_ops ti ops \<noteq> []" for l ops
  proof (cases "l \<le> w")
    case False
    obtain p where "p \<in> set (table_ops ti ops)" using c(2) by (meson last_in_set)
    then have "op_sig l (po_op p) \<in> set (emissions w ti cs)" using c(1) False by (force simp: emissions_def)
    moreover have "fst (op_sig l (po_op p)) = l" by (cases "po_op p") simp_all
    ultimately show ?thesis using big by metis
  qed (use le in simp)
  then show "settled w' ti cs" by (auto simp: settled_def)
  show "w' = w \<or> w' \<in> fst ` set cs"
  proof (cases "rows = []")
    case False
    then have "emissions w ti cs \<noteq> []" using em by simp
    then obtain s where s: "s \<in> set (emissions w ti cs)" by (meson last_in_set)
    then have "0 < m" using fold_max_ge(2) [of "fst s" "map fst (emissions w ti cs)" 0] emissions_lsn(1) [OF s] mx by simp
    then have "m \<in> set (map fst (emissions w ti cs))" using fold_max_mem [of "map fst (emissions w ti cs)" 0] mx by auto
    then show ?thesis using emissions_lsn(2) False w' by auto
  qed (simp add: w')
qed

lemma emissions_watermark:
  "\<forall>l \<in> fst ` set cs. w' < l \<Longrightarrow> w \<le> w' \<Longrightarrow> emissions w' ti cs = emissions w ti cs"
  unfolding emissions_def by (rule arg_cong [where f = concat]) (auto intro!: map_cong)

lemma restart_bounds:
  assumes "tracked ti w log e"
  shows "entry \<in> set log \<Longrightarrow> restart_lsn e \<le> po_lsn (snd entry)"
    and "restart_lsn e = last_commit_lsn e \<or> (\<exists>entry \<in> set log. restart_lsn e = po_lsn (snd entry))"
proof -
  have ref: "txbuf_refines (e_txbuf e) log" using assms by (simp add: tracked_def)
  then have old: "oldest_first_lsn (e_txbuf e) = (case log of [] \<Rightarrow> None | e # _ \<Rightarrow> Some (po_lsn (snd e)))"
    by (rule txbuf.refines_oldest)
  have srt: "sorted (map (po_lsn \<circ> snd) log)" using ref wal_ordered_sorted by (simp add: txbuf_refines_def)
  show "entry \<in> set log \<Longrightarrow> restart_lsn e \<le> po_lsn (snd entry)"
    using old srt by (cases log) (auto simp: restart_lsn_def)
  show "restart_lsn e = last_commit_lsn e \<or> (\<exists>entry \<in> set log. restart_lsn e = po_lsn (snd entry))"
    using old by (cases log) (auto simp: restart_lsn_def)
qed

lemma replay_exactly_once:
  assumes ok: "stream_ok (as @ bs)" and start: "\<forall>ev \<in> set (as @ bs). last_commit_lsn e0 \<le> fst ev"
    and f0: "fresh ti w e0" and r1: "run steps1 (e0, \<lambda>_. []) = Ok s1" "events_of steps1 = as" "pending_rows ti (fst s1) = []"
    and f2: "fresh ti (new_watermark w ti s1) e2" and r: "r \<le> restart_lsn (fst s1)"
    and r2: "run steps2 (e2, \<lambda>_. []) = Ok s2" "events_of steps2 = filter (\<lambda>ev. r \<le> fst ev) (as @ bs)"
    and r3: "run steps3 (e0, \<lambda>_. []) = Ok s3" "events_of steps3 = as @ bs"
  shows "map row_sig (snd s1 ti @ shipped ti s2) = map row_sig (shipped ti s3)"
proof -
  obtain e1 lake1 where s1: "s1 = (e1, lake1)" by (cases s1)
  obtain e2' lake2 where s2: "s2 = (e2', lake2)" by (cases s2)
  obtain e3 lake3 where s3: "s3 = (e3, lake3)" by (cases s3)
  let ?w = "new_watermark w ti s1" and ?log = "fold log_step as []"
  have oks: "stream_ok as" "stream_ok bs" "stream_ok (filter (\<lambda>ev. r \<le> fst ev) (as @ bs))"
    using ok sorted_wrt_filter [of "\<lambda>x y. fst x < fst y" "as @ bs" "\<lambda>ev. r \<le> fst ev"]
    unfolding stream_ok_def sorted_wrt_map by (simp_all add: sorted_wrt_append)
  have after: "stream_after [] evs" if "stream_ok evs" for evs using that by (simp add: stream_after_def log_below_def)
  note t1 = run_tracked [OF conjunct1 [OF fresh_tracked [OF f0]], of steps1 "\<lambda>_. []" e1 lake1, unfolded r1(2), OF after [OF oks(1)] r1(1) [unfolded s1]]
  note t2 = run_tracked [OF conjunct1 [OF fresh_tracked [OF f2]], of steps2 "\<lambda>_. []" e2' lake2, unfolded r2(2), OF after [OF oks(3)] r2(1) [unfolded s2]]
  note t3 = run_tracked [OF conjunct1 [OF fresh_tracked [OF f0]], of steps3 "\<lambda>_. []" e3 lake3, unfolded r3(2), OF after [OF ok] r3(1) [unfolded s3]]
  have lake: "map row_sig (lake1 ti) = emissions w ti (commits as [])"
    using t1 fresh_tracked [OF f0] r1(3) by (simp add: s1 shipped_def)
  have "?w = (if lake1 ti = [] then w else fold max (map fst (emissions w ti (commits as []))) 0)"
    using t1 fresh_tracked [OF f0] by (simp add: new_watermark_def s1)
  note wm = watermark_settles [OF lake [symmetric] refl this]
  have open_r: "\<forall>entry \<in> set ?log. r \<le> po_lsn (snd entry)"
    using restart_bounds(1) [of ti w ?log e1] t1 r s1 by fastforce
  have bs_r: "\<forall>b \<in> set bs. r \<le> fst b"
  proof
    fix b assume b: "b \<in> set bs"
    then have above: "l < fst b" if "l \<in> fst ` set as" for l using that ok by (auto simp: stream_ok_def sorted_wrt_append)
    have "restart_lsn e1 = last_commit_lsn e1 \<or> (\<exists>entry \<in> set ?log. restart_lsn e1 = po_lsn (snd entry))"
      using restart_bounds(2) [of ti w ?log e1] t1 by blast
    moreover have "po_lsn (snd entry) \<in> fst ` set as" if "entry \<in> set ?log" for entry using log_end_lsns [OF that] by simp
    moreover have "last_commit_lsn e1 = last_commit_lsn e0 \<or> last_commit_lsn e1 \<in> fst ` set as" using t1 by blast
    then have "last_commit_lsn e1 \<le> fst b" using above [of "last_commit_lsn e1"] start b by force
    ultimately have "restart_lsn e1 \<le> fst b" using above by (metis order.strict_implies_order)
    then show "r \<le> fst b" using r s1 by simp
  qed
  have "emissions ?w ti (commits bs ?log) = emissions w ti (commits bs ?log)"
  proof (cases "?w = w")
    case False
    then have "?w \<in> fst ` set as" using wm(3) commits_lsn [of as "[]"] by blast
    moreover have "fst ` set (commits bs ?log) \<subseteq> fst ` set bs" by (rule commits_lsn)
    ultimately have "\<forall>l \<in> fst ` set (commits bs ?log). ?w < l"
      using ok by (force simp: stream_ok_def sorted_wrt_append)
    then show ?thesis by (rule emissions_watermark [OF _ wm(2)])
  qed simp
  then show ?thesis
    using t2 t3 fresh_tracked [OF f0] fresh_tracked [OF f2] lake replay_suffix [OF ok bs_r open_r wm(1)]
    by (simp add: s1 s2 s3 commits_append emissions_append)
qed

section \<open>A run of one table\<close>

definition notes_env :: "nat \<Rightarrow> (mem_table, unit) Env" where
  "notes_env now = \<lparr>env_crc = (\<lambda>_. 0), env_crc_append = (\<lambda>c _. c), env_lz4 = (\<lambda>_ _. None),
     env_zstd = (\<lambda>_ _. None), env_lib = mem_lib, env_now = now, env_later = (\<lambda>_. now),
     env_connect = Err (Bail ''no pageserver''), env_get_page = (\<lambda>c _ _ _. Err (Bail ''no page''))\<rparr>"

definition notes_engine :: "lsn \<Rightarrow> lsn \<Rightarrow> (mem_table, unit) Engine" where
  "notes_engine w start =
     \<lparr>e_tables = [(new_table notes_desc (notes_sink []))\<lparr>dedupe_below := w\<rparr>], rel_to_table = [16384 \<mapsto> 0], toast_rels = {},
      e_txbuf = txbuf_default, e_toast = toast_default, last_commit_lsn = start, catalog_rels = {}, smgr_suspects = {},
      remap_at = None, attach_failed = {}, e_tail = tail_default, tail_retain = 100, tail_max_rows = 1000, compact_rows = 0,
      vacuum_after = None, e_db_oid = 5, e_oracle = None\<rparr>"

definition note_insert :: "u16 \<Rightarrow> string \<Rightarrow> Op" where
  "note_insert ofs name = Insert (0, ofs) \<lparr>rv_row = [Some (VText name)], rv_attrs = None\<rparr>"

definition notes_head :: stream where
  "notes_head = [(10, Changes 1 [(0, note_insert 1 ''a'')]), (20, Changes 2 [(0, note_insert 2 ''b'')]), (30, Commit 1 [])]"

definition notes_rest :: stream where
  "notes_rest = [(40, Commit 2 [])]"

definition notes_steps :: "stream \<Rightarrow> (mem_table, unit) engine_step list" where
  "notes_steps evs = map (Ev (notes_env 0)) evs"

lemma notes_batch: "make_batch mem_lib (notes_sink bs) rows = Ok (batch_of (notes_sink bs) rows)"
  by (rule make_batch_Ok [OF mem_lib_laws(1) notes_wf(1)])

lemma notes_append:
  "\<exists>s. sink_append mem_lib rows c r f (notes_sink bs) = (Ok 1, s)"
proof -
  have "commit_schema mem_lib (notes_sink bs) = Ok (notes_sink bs)" by (simp add: commit_schema_def notes_sink_def)
  moreover obtain t where "lib_append mem_lib (batch_of (notes_sink bs) rows) (watermarks c r f) (ds_table (notes_sink bs)) = Ok (1, t)"
    by (simp add: mem_lib_def notes_sink_def notes_desc_def struct_fields_def LSN_COL_def SEQ_COL_def DELETED_COL_def CTID_COL_def)
  ultimately show ?thesis by (simp add: sink_append_def notes_batch)
qed

lemmas notes_run = run_def notes_steps_def notes_head_def notes_rest_def notes_engine_def notes_env_def note_insert_def

lemmas notes_txs = handle_commit_def tx_commit_def add_op_def txbuf_default_def remove_tx_def Let_def index_def get_def
  new_table_def pending_default_def emit_def publish_def notes_batch prod.case sum.case

text \<open>Transaction 1 commits before the flush, transaction 2 is open then and commits afterwards.\<close>

lemma notes_first:
  "\<exists>s. run (notes_steps notes_head @ [Flush (notes_env 1) 0]) (notes_engine 0 5, \<lambda>_. []) = Ok s \<and>
     restart_lsn (fst s) = 20 \<and> new_watermark 0 0 s = 30 \<and> pending_rows 0 (fst s) = []"
proof -
  obtain t where t: "sink_append mem_lib [\<lparr>er_lsn = 30, er_seq = Suc 0, er_deleted = False, er_ctid = (0, 1), er_row = [Some (VText ''a'')]\<rparr>]
      30 20 16384 (notes_sink []) = (Ok 1, t)" using notes_append by blast
  have node: "rel_node notes_desc = 16384" by (simp add: notes_desc_def)
  show ?thesis
    by (simp add: notes_run notes_txs flush_all_def flush_table_def pending_total_def restart_lsn_def oldest_first_lsn_def
        new_watermark_def pending_rows_def table_max_def node t)
qed

lemma notes_replayed: "\<exists>s. run (notes_steps (tl notes_head @ notes_rest)) (notes_engine 30 5, \<lambda>_. []) = Ok s"
  by (simp add: notes_run notes_txs)

lemma notes_straight: "\<exists>s. run (notes_steps (notes_head @ notes_rest)) (notes_engine 0 5, \<lambda>_. []) = Ok s"
  by (simp add: notes_run notes_txs)

lemma notes_fresh: "fresh 0 w (notes_engine w start)"
  by (simp add: fresh_def notes_engine_def new_table_def)



end
