(* ===== verification/Lifecycle.thy ===== *)
theory Lifecycle
  imports Replay
begin

text \<open>
  The life of the engine of \<^verbatim>\<open>src/engine.rs\<close>: startup, records, flushes, compactions and schema
  reconciliations. Handling a record is one event on the transaction buffer; every operation keeps the
  invariant that a commit relies on; the watermarks a flush writes are the ones a restart reads.
\<close>

section \<open>A record is one event\<close>

text \<open>
  \<open>buffers l e e'\<close>: \<open>e'\<close> is \<open>e\<close> after the changes \<open>cs\<close> of the transaction \<open>x\<close> at LSN \<open>l\<close>; the tables are
  the same up to the mark that asks for a new snapshot.
\<close>

definition unmarked :: "'d Table \<Rightarrow> 'd Table" where
  "unmarked t = t\<lparr>needs_resnapshot := False\<rparr>"

definition buffers :: "lsn \<Rightarrow> u32 \<Rightarrow> (nat \<times> Op) list \<Rightarrow> ('d, 'c) Engine \<Rightarrow> ('d, 'c) Engine \<Rightarrow> bool" where
  "buffers l x cs e e' \<longleftrightarrow>
     e_txbuf e' = fold (\<lambda>(t, op). add_op x l t op) cs (e_txbuf e) \<and> (\<forall>c \<in> set cs. fst c < length (e_tables e)) \<and>
     map unmarked (e_tables e') = map unmarked (e_tables e) \<and> rel_to_table e' = rel_to_table e \<and>
     last_commit_lsn e' = last_commit_lsn e"

lemma buffers_refl: "buffers l x [] e e"
  by (simp add: buffers_def)

lemma buffers_same:
  "e_txbuf e' = e_txbuf e \<Longrightarrow> e_tables e' = e_tables e \<Longrightarrow> rel_to_table e' = rel_to_table e \<Longrightarrow>
   last_commit_lsn e' = last_commit_lsn e \<Longrightarrow> buffers l x [] e e'"
  by (simp add: buffers_def)

lemma buffers_add: "ti < length (e_tables e) \<Longrightarrow> buffers l x [(ti, op)] e (e\<lparr>e_txbuf := add_op x l ti op (e_txbuf e)\<rparr>)"
  by (simp add: buffers_def)

lemma buffers_trans:
  assumes "buffers l x cs e e1" "buffers l x cs' e1 e2"
  shows "buffers l x (cs @ cs') e e2"
proof -
  have "length (e_tables e1) = length (e_tables e)" using assms(1) map_eq_imp_length_eq unfolding buffers_def by blast
  then show ?thesis using assms by (auto simp: buffers_def)
qed

lemma index_less: "index xs i = Ok x \<Longrightarrow> i < length xs"
  by (auto simp: index_def result_simps get_eq_Some)

lemma ask_oracle_keeps:
  assumes "(page, e') = (if c then ask_oracle env tag b l e else (None, e))"
  shows "buffers l x [] e e'" "e_tables e' = e_tables e"
proof -
  have "e_tables e' = e_tables e \<and> e_txbuf e' = e_txbuf e \<and> rel_to_table e' = rel_to_table e \<and> last_commit_lsn e' = last_commit_lsn e"
    using assms by (auto simp: ask_oracle_def split: if_splits option.splits prod.splits)
  then show "buffers l x [] e e'" "e_tables e' = e_tables e" by (simp_all add: buffers_def)
qed

lemma note_decode_error_buffers:
  assumes "note_decode_error ti l err e = Ok e'"
  shows "buffers l x [] e e'"
proof -
  obtain t where t: "index (e_tables e) ti = Ok t" "e' = e \<or> (\<exists>m. e' = set_table ti (t\<lparr>needs_resnapshot := True\<rparr>) (e\<lparr>remap_at := m\<rparr>))"
    using assms by (auto simp: note_decode_error_def result_simps split: if_splits)
  then have "ti < length (e_tables e)" "t = e_tables e ! ti" by (auto simp: index_def result_simps get_eq_Some)
  then have "map unmarked ((e_tables e)[ti := t\<lparr>needs_resnapshot := True\<rparr>]) = map unmarked (e_tables e)"
    by (auto intro!: nth_equalityI simp: nth_list_update unmarked_def)
  then show ?thesis using t(2) by (auto simp: buffers_def set_table_def)
qed

lemma toast_insert_buffers: "toast_insert env r b fmt e = Ok e' \<Longrightarrow> buffers l x [] e e'"
  unfolding toast_insert_def rbind_eq_Ok
  by (elim exE conjE) (auto simp: buffers_def split: sum.splits)

lemma heap_insert_buffers:
  assumes "heap_insert env l r b ti fmt e = Ok e'"
  shows "\<exists>cs. buffers l (xid r) cs e e'"
proof -
  obtain t d where t: "index (e_tables e) ti = Ok t"
    and d: "(case (d, insert_offnum (main_data r)) of
         (Inr (row, attrs), Inr ofs) \<Rightarrow>
           Ok (e\<lparr>e_txbuf := add_op (xid r) l ti (Insert (blkno b, ofs) \<lparr>rv_row = row, rv_attrs = Some attrs\<rparr>) (e_txbuf e)\<rparr>)
       | (Inl err, _) \<Rightarrow> note_decode_error ti l err e
       | (_, Inl err) \<Rightarrow> note_decode_error ti l err e) = Ok e'"
    using assms unfolding heap_insert_def rbind_eq_Ok by (elim exE conjE)
  show ?thesis
    using d note_decode_error_buffers [of ti l _ e e' "xid r"] buffers_add [OF index_less [OF t]]
    by (auto split: sum.splits) blast+
qed

lemma heap_delete_buffers:
  assumes ti: "ti < length (e_tables e)" and d: "heap_delete env l r b ti e = Ok e'"
  shows "\<exists>cs. buffers l (xid r) cs e e'"
proof (cases "delete_offnum (main_data r)")
  case (Inl err)
  then show ?thesis using d buffers_refl by (auto simp: heap_delete_def)
next
  case (Inr ofs)
  obtain pre where pre: "preimage e ti (blkno b, ofs) = Ok pre" using d Inr by (auto simp: heap_delete_def Let_def result_simps)
  obtain page e1 where p: "(page, e1) = (if map_option rv_row pre = None then ask_oracle env (blk_rel b) (blkno b) l e else (None, e))"
    by (metis surj_pair)
  obtain old' where e': "e' = e1\<lparr>e_txbuf := add_op (xid r) l ti (Delete (blkno b, ofs) old') (e_txbuf e1)\<rparr>"
    using d unfolding heap_delete_def Inr Let_def sum.case pre rbind.simps p [symmetric] prod.case rbind_eq_Ok by blast
  have "ti < length (e_tables e1)" using ask_oracle_keeps(2) [OF p] ti by simp
  then show ?thesis unfolding e' using buffers_trans [OF ask_oracle_keeps(1) [OF p] buffers_add] by blast
qed

lemma update_preimage_keeps:
  assumes u: "update_preimage env l ob ofs ti e = Ok (y, e')"
  shows "buffers l x [] e e'"
proof -
  obtain pre where pre: "preimage e ti (blkno ob, ofs) = Ok pre" using u by (auto simp: update_preimage_def Let_def result_simps)
  let ?c = "Option.bind pre rv_attrs = None \<or> map_option rv_row pre = None"
  obtain page e1 where p: "(page, e1) = (if ?c then ask_oracle env (blk_rel ob) (blkno ob) l e else (None, e))"
    by (metis surj_pair)
  have "e' = e1"
  proof (cases page)
    case None
    then show ?thesis using u unfolding update_preimage_def Let_def pre rbind.simps p [symmetric] prod.case by simp
  next
    case (Some pg)
    have "rbind A (\<lambda>a. rbind B (\<lambda>b. Ok ((a, b), e1))) = Ok (y, e') \<Longrightarrow> e' = e1" for A B by (auto simp: result_simps)
    then show ?thesis using u unfolding update_preimage_def Let_def pre rbind.simps p [symmetric] prod.case Some option.case .
  qed
  then show ?thesis using ask_oracle_keeps(1) [OF p] by simp
qed

lemma handle_update_buffers:
  assumes u: "handle_update env l r b ti fmt e = Ok (err, e')"
  shows "\<exists>cs. buffers l (xid r) cs e e'"
proof (cases "parse_update_main (main_data r) fmt")
  case (Inl er)
  then show ?thesis using u buffers_refl by (auto simp: handle_update_def)
next
  case (Inr upd)
  let ?ob = "case block_by_id 1 r of Some ob \<Rightarrow> ob | None \<Rightarrow> b"
  obtain w where w: "update_preimage env l ?ob (old_offnum upd) ti e = Ok w"
    using u unfolding handle_update_def Inr Let_def sum.case rbind_eq_Ok by (elim exE conjE)
  obtain oa old e1 where "w = ((oa, old), e1)" by (metis surj_pair)
  with w have p: "update_preimage env l ?ob (old_offnum upd) ti e = Ok ((oa, old), e1)" by simp
  obtain t d where t: "index (e_tables e1) ti = Ok t"
    and d: "(case d of Inl er \<Rightarrow> Ok (Some er, e1) | Inr (row, attrs) \<Rightarrow>
                Ok (None, e1\<lparr>e_txbuf := add_op (xid r) l ti
                      (Update (blkno ?ob, old_offnum upd) (blkno b, new_offnum upd) \<lparr>rv_row = row, rv_attrs = Some attrs\<rparr>)
                      (e_txbuf e1)\<rparr>)) = Ok (err, e')"
    using u unfolding handle_update_def Inr Let_def sum.case p rbind.simps prod.case rbind_eq_Ok by (elim exE conjE)
  have e': "e' = e1 \<or> (\<exists>op. e' = e1\<lparr>e_txbuf := add_op (xid r) l ti op (e_txbuf e1)\<rparr>)"
    using d by (auto split: sum.splits)
  have e1: "buffers l (xid r) [] e e1" using p by (rule update_preimage_keeps)
  show ?thesis
  proof (cases "e' = e1")
    case False
    then obtain op where "e' = e1\<lparr>e_txbuf := add_op (xid r) l ti op (e_txbuf e1)\<rparr>" using e' by blast
    then show ?thesis using buffers_trans [OF e1 buffers_add [OF index_less [OF t]]] by blast
  qed (use e1 in blast)
qed

lemma mark_suspect_buffers: "buffers l x [] e (mark_suspect r e)"
  by (simp add: mark_suspect_def buffers_def)

definition routed :: "('d, 'c) Engine \<Rightarrow> bool" where
  "routed e \<longleftrightarrow> (\<forall>r ti. rel_to_table e r = Some ti \<longrightarrow> ti < length (e_tables e))"

lemma handle_heap_buffers:
  assumes rt: "routed e" and h: "handle_heap env l r op fmt e = Ok e'"
  shows "\<exists>cs. buffers l (xid r) cs e e'"
proof (cases "block_by_id 0 r")
  case None
  then show ?thesis using h buffers_refl by (auto simp: handle_heap_def)
next
  case (Some b)
  have shape: "e' = e \<or> e' = mark_suspect r e \<or> toast_insert env r b fmt e = Ok e' \<or>
    (\<exists>ti. rel_to_table e (rel (blk_rel b)) = Some ti \<and>
      (heap_insert env l r b ti fmt e = Ok e' \<or> heap_delete env l r b ti e = Ok e' \<or>
       rbind (handle_update env l r b ti fmt e) (\<lambda>(err, e').
                      case err of None \<Rightarrow> Ok e' | Some er \<Rightarrow> note_decode_error ti l er e') = Ok e'))"
    using h unfolding handle_heap_def Some option.case Let_def
    by (cases "rel_to_table e (rel (blk_rel b))") (auto split: if_splits)
  have upd: "\<exists>cs. buffers l (xid r) cs e e'"
    if u: "rbind (handle_update env l r b ti fmt e) (\<lambda>(err, e').
                      case err of None \<Rightarrow> Ok e' | Some er \<Rightarrow> note_decode_error ti l er e') = Ok e'" for ti
  proof -
    obtain err e1 where e1: "handle_update env l r b ti fmt e = Ok (err, e1)"
      "(case err of None \<Rightarrow> Ok e1 | Some er \<Rightarrow> note_decode_error ti l er e1) = Ok e'"
      using u by (auto simp: rbind_eq_Ok)
    obtain cs where cs: "buffers l (xid r) cs e e1" using handle_update_buffers [OF e1(1)] by blast
    have "buffers l (xid r) [] e1 e'"
      using e1(2) note_decode_error_buffers [of ti l _ e1 e'] buffers_refl by (cases err) auto
    then show ?thesis using buffers_trans [OF cs] by blast
  qed
  show ?thesis
    using shape upd heap_insert_buffers [of env l r b _ fmt e e'] heap_delete_buffers [of _ e env l r b e'] rt
      toast_insert_buffers [of env r b fmt e e' l "xid r"] mark_suspect_buffers [of l "xid r" e r] buffers_refl [of l "xid r" e]
    unfolding routed_def by metis
qed

lemma handle_multi_insert_buffers:
  assumes rt: "routed e" and h: "handle_multi_insert env l r fmt e = Ok e'"
  shows "\<exists>cs. buffers l (xid r) cs e e'"
proof (cases "block_by_id 0 r")
  case None
  then show ?thesis using h buffers_refl by (auto simp: handle_multi_insert_def)
next
  case (Some b)
  have add: "buffers l (xid r) (map (\<lambda>((row, attrs), ofs). (ti, Insert (blk, ofs) \<lparr>rv_row = row, rv_attrs = Some attrs\<rparr>)) rs) e
      (e\<lparr>e_txbuf := add_inserts (xid r) l ti blk rs (e_txbuf e)\<rparr>)" if "ti < length (e_tables e)" for ti blk rs
    using that by (auto simp: buffers_def add_inserts_def fold_map comp_def case_prod_unfold)
  show ?thesis
  proof (cases "\<not> suspect_write r b e \<and> (\<exists>ti. rel_to_table e (rel (blk_rel b)) = Some ti)")
    case False
    then show ?thesis using h Some buffers_refl mark_suspect_buffers
      by (auto simp: handle_multi_insert_def split: if_splits option.splits) blast+
  next
    case True
    then obtain ti where ti: "rel_to_table e (rel (blk_rel b)) = Some ti" "ti < length (e_tables e)" using rt by (auto simp: routed_def)
    obtain rows where "(case (rows, multi_insert_offsets (main_data r) (info r) fmt) of
                     (Inr rs, Inr offs) \<Rightarrow>
                       if length rs = length offs
                       then Ok (e\<lparr>e_txbuf := add_inserts (xid r) l ti (blkno b) (zip rs offs) (e_txbuf e)\<rparr>)
                       else Ok e
                   | (Inl err, _) \<Rightarrow> note_decode_error ti l err e
                   | (_, Inl err) \<Rightarrow> note_decode_error ti l err e) = Ok e'"
      using h True unfolding handle_multi_insert_def Some option.case ti rbind_eq_Ok by (auto simp only: if_False rbind_eq_Ok)
    then show ?thesis
      using note_decode_error_buffers [of ti l _ e e' "xid r"] add [OF ti(2)] buffers_refl
      by (auto split: sum.splits if_splits) blast+
  qed
qed

text \<open>\<^verbatim>\<open>handle_record\<close>: nothing, the changes of the record's transaction, its commit, or its abort.\<close>

lemma handle_record_event:
  assumes rt: "routed e" and h: "handle_record env l rec e = Ok e'"
  shows "(\<exists>x cs. buffers l x cs e e') \<or> (\<exists>x subs. handle_commit env l x subs e = Ok e') \<or> (\<exists>x subs. e' = handle_abort l x subs e)"
proof -
  obtain parsed where p: "catch (parse_record (env_crc env) (env_crc_append env) rec) = Ok parsed"
    using h by (auto simp: handle_record_def result_simps)
  have smgr_case: "e' = e \<or> (\<exists>x d. e' = handle_smgr_create x d e)"
    if "rbind C (\<lambda>c. case c of Inr (Some (d, _)) \<Rightarrow> Ok (handle_smgr_create (xid r) d e) | _ \<Rightarrow> Ok e) = Ok e'"
    for r :: Record and C :: "((u32 \<times> u32) option result) result"
    using that unfolding rbind_eq_Ok by (elim exE conjE) (auto split: sum.splits option.splits)
  have shape: "e' = e \<or> (\<exists>x d. e' = handle_smgr_create x d e) \<or> (\<exists>r op fmt. handle_heap env l r op fmt e = Ok e')
    \<or> (\<exists>r fmt. handle_multi_insert env l r fmt e = Ok e') \<or> (\<exists>r. handle_xact env l r e = Ok e')"
  proof (cases parsed)
    case (Inr r)
    show ?thesis
    proof (cases "normalize_dml (rmid r) (info r)")
      case (Some n)
      obtain rm op fmt where n: "n = (rm, op, fmt)" by (metis surj_pair)
      note h' = h [unfolded handle_record_def p rbind.simps Inr sum.case Some option.case n prod.case]
      show ?thesis
      proof (cases "rm = rmgr_SMGR \<and> info r AND 0xF0 = XLOG_SMGR_CREATE")
        case True
        then have "rm = rmgr_SMGR" "info r AND 0xF0 = XLOG_SMGR_CREATE" by simp_all
        note h' [unfolded this if_P [OF refl]]
        from smgr_case [OF this] show ?thesis by metis
      next
        case False
        then show ?thesis using h' by (auto split: if_splits)
      qed
    qed (use h p Inr in \<open>simp add: handle_record_def\<close>)
  qed (use h p in \<open>simp add: handle_record_def\<close>)
  have smgr: "buffers l x [] e (handle_smgr_create y d e)" for x y d by (simp add: handle_smgr_create_def buffers_def)
  have xact: "e' = e \<or> (\<exists>x subs. handle_commit env l x subs e = Ok e') \<or> (\<exists>x subs. e' = handle_abort l x subs e)"
    if "handle_xact env l r e = Ok e'" for r
    using that unfolding handle_xact_def Let_def rbind_eq_Ok by (auto split: if_splits)
  show ?thesis
    using shape smgr xact buffers_refl handle_heap_buffers [OF rt] handle_multi_insert_buffers [OF rt] by metis
qed

section \<open>What every operation keeps\<close>

definition buffered :: "TxBuffer \<Rightarrow> PendingOp set" where
  "buffered b = (\<Union>tx \<in> set (open_txs b). set (tx_ops (snd tx)))"

lemma set_update_subset: "set (AList.update k v m) \<subseteq> insert (k, v) (set m)"
  by (induction m) auto

lemma buffered_add_op: "buffered (add_op x l t op b) \<subseteq> insert \<lparr>po_lsn = l, po_table = t, po_op = op\<rparr> (buffered b)"
proof -
  let ?p = "\<lparr>po_lsn = l, po_table = t, po_op = op\<rparr>"
  have old: "set (tx_ops tx) \<subseteq> buffered b" if "map_of (open_txs b) x = Some tx" for tx
    using map_of_SomeD [OF that] by (force simp: buffered_def)
  let ?tx0 = "case map_of (open_txs b) x of Some tx \<Rightarrow> tx | None \<Rightarrow> \<lparr>first_lsn = l, tx_ops = [], tx_overlay = []\<rparr>"
  define tx where "tx = ?tx0\<lparr>tx_overlay := overlay_apply t op (tx_overlay ?tx0), tx_ops := tx_ops ?tx0 @ [?p]\<rparr>"
  have "open_txs (add_op x l t op b) = AList.update x tx (open_txs b)" by (simp add: add_op_def tx_def Let_def)
  moreover have "set (tx_ops tx) \<subseteq> insert ?p (buffered b)"
    using old by (cases "map_of (open_txs b) x") (auto simp: tx_def)
  ultimately have tx: "open_txs (add_op x l t op b) = AList.update x tx (open_txs b)" "set (tx_ops tx) \<subseteq> insert ?p (buffered b)"
    by simp_all
  have "set (tx_ops (snd y)) \<subseteq> insert ?p (buffered b)" if y: "y \<in> set (open_txs (add_op x l t op b))" for y
  proof (cases "y = (x, tx)")
    case False
    then have "y \<in> set (open_txs b)" using y set_update_subset [of x tx "open_txs b"] unfolding tx(1) by blast
    then show ?thesis unfolding buffered_def by blast
  qed (simp add: tx(2))
  then show ?thesis by (subst buffered_def) blast
qed

lemma remove_txs_buffered:
  "remove_txs xs txs = (ops, txs') \<Longrightarrow> set ops \<subseteq> (\<Union>tx \<in> set txs. set (tx_ops (snd tx))) \<and> set txs' \<subseteq> set txs"
proof (induction xs arbitrary: txs ops txs')
  case (Cons x xs)
  obtain ops1 txs1 where r1: "remove_tx x txs = (ops1, txs1)" by fastforce
  obtain ops2 txs2 where r2: "remove_txs xs txs1 = (ops2, txs2)" by fastforce
  have one: "set ops1 \<subseteq> (\<Union>tx \<in> set txs. set (tx_ops (snd tx)))" "set txs1 \<subseteq> set txs"
    using r1 by (auto simp: remove_tx_def AList.delete_eq split: option.splits dest!: map_of_SomeD)
  have "ops = ops1 @ ops2" "txs' = txs2" using Cons.prems r1 r2 by auto
  then show ?case using one Cons.IH [OF r2] by (auto simp only: set_append) (meson UN_I subsetD UN_E)+
qed simp

lemma tx_commit_buffered: "tx_commit x subs b = (ops, b') \<Longrightarrow> set ops \<subseteq> buffered b \<and> buffered b' \<subseteq> buffered b"
proof -
  assume c: "tx_commit x subs b = (ops, b')"
  obtain o1 txs where r: "remove_txs (x # subs) (open_txs b) = (o1, txs)" by fastforce
  then show ?thesis using remove_txs_buffered [OF r] c by (auto simp: tx_commit_def buffered_def simp del: remove_txs.simps)
qed

lemma tx_abort_buffered: "buffered (snd (tx_abort x subs b)) \<subseteq> buffered b"
proof -
  obtain o1 txs where r: "remove_txs (x # subs) (open_txs b) = (o1, txs)" by fastforce
  then show ?thesis using remove_txs_buffered [OF r] by (auto simp: tx_abort_def buffered_def simp del: remove_txs.simps)
qed

text \<open>A batch is numbered in order, no row is above its watermark, and it has an age exactly when it has rows.\<close>

definition batch_ok :: "'d Table \<Rightarrow> bool" where
  "batch_ok t \<longleftrightarrow> (let p = pending t in
     sorted_wrt (<) (map er_seq (pb_rows p)) \<and>
     (\<forall>r \<in> set (pb_rows p). er_seq r \<le> pb_seq p \<and> er_lsn r \<le> max_commit_lsn p) \<and>
     (first_at p = None \<longleftrightarrow> pb_rows p = []))"

definition engine_inv :: "('d, 'c) Engine \<Rightarrow> bool" where
  "engine_inv e \<longleftrightarrow>
     routed e \<and>
     (\<forall>p \<in> buffered (e_txbuf e). po_table p < length (e_tables e)) \<and>
     list_all batch_ok (e_tables e)"

lemma emit_ok:
  assumes "batch_ok t"
  shows "batch_ok (t\<lparr>pending := emit now l del c row (pending t)\<rparr>)"
  using assms by (auto simp: batch_ok_def emit_def Let_def sorted_wrt_append le_max_iff_disj less_Suc_eq_le split: option.split)

lemma commit_change_ok: "batch_ok t \<Longrightarrow> batch_ok (commit_change now l op t)"
  using emit_ok [of t now l] by (cases op) (fastforce simp: batch_ok_def Let_def)+

lemma list_all_update: "list_all P xs \<Longrightarrow> P x \<Longrightarrow> list_all P (xs[i := x])"
  using set_update_subset_insert [of xs i x] by (auto simp: list_all_iff)

lemma commit_ops_Ok:
  assumes "\<forall>p \<in> set ops. po_table p < length ts" "list_all batch_ok ts"
  shows "\<exists>ts' em'. commit_ops now l ops (ts, em) = Ok (ts', em') \<and> length ts' = length ts \<and> list_all batch_ok ts'"
  using assms
proof (induction ops arbitrary: ts em)
  case (Cons p ps)
  let ?t = "ts ! po_table p" and ?em = "if map_of em (po_table p) = None then em @ [(po_table p, length (pb_rows (pending (ts ! po_table p))))] else em"
  have i: "po_table p < length ts" "index ts (po_table p) = Ok ?t" using Cons.prems(1) by (simp_all add: index_Ok)
  show ?case
  proof (cases "l \<le> dedupe_below ?t")
    case True
    then show ?thesis using Cons.IH [OF _ Cons.prems(2), of em] Cons.prems(1) i by simp
  next
    case False
    have "batch_ok (commit_change now l (po_op p) ?t)"
      using Cons.prems(2) i(1) False by (simp add: commit_change_ok list_all_length)
    then have "list_all batch_ok (ts[po_table p := commit_change now l (po_op p) ?t])"
      using Cons.prems(2) by (simp add: list_all_update)
    from Cons.IH [OF _ this, of ?em] show ?thesis using Cons.prems(1) i False by simp
  qed
qed auto

lemma publish_routes: "rel_to_table (publish env en e) = rel_to_table e"
  by (auto simp: publish_def Let_def split: prod.split sum.split)

lemma fold_publish_routes: "rel_to_table (fold (publish env) em e) = rel_to_table e"
  by (induction em arbitrary: e) (simp_all add: publish_routes)

lemma handle_commit_inv:
  assumes "engine_inv e"
  shows "\<exists>e'. handle_commit env l x subs e = Ok e' \<and> engine_inv e'"
proof -
  obtain ops b' where c: "tx_commit x subs (e_txbuf e) = (ops, b')" by fastforce
  obtain hit S where s: "remove_suspect (x # subs) (smgr_suspects e) = (hit, S)" by fastforce
  have b: "\<forall>p \<in> set ops. po_table p < length (e_tables e)" "\<forall>p \<in> buffered b'. po_table p < length (e_tables e)"
    using tx_commit_buffered [OF c] assms by (auto simp: engine_inv_def)
  obtain ts em where t: "commit_ops (env_now env) l ops (e_tables e, []) = Ok (ts, em)" "length ts = length (e_tables e)" "list_all batch_ok ts"
    using commit_ops_Ok [OF b(1), of "env_now env" l "[]"] assms by (auto simp: engine_inv_def)
  show ?thesis
    using c s t b(2) assms
    by (simp add: handle_commit_def Let_def engine_inv_def routed_def fold_publish_keeps fold_publish_routes del: remove_suspect.simps)
qed

lemma handle_abort_inv: "engine_inv e \<Longrightarrow> engine_inv (handle_abort l x subs e)"
  using tx_abort_buffered [of x subs "e_txbuf e"] by (auto simp: engine_inv_def routed_def handle_abort_def)

lemma buffered_fold:
  "buffered (fold (\<lambda>(t, op). add_op x l t op) cs b) \<subseteq> (\<lambda>(t, op). \<lparr>po_lsn = l, po_table = t, po_op = op\<rparr>) ` set cs \<union> buffered b"
proof (induction cs arbitrary: b)
  case (Cons c cs)
  obtain t op where c: "c = (t, op)" by (cases c)
  show ?case using Cons [of "add_op x l t op b"] buffered_add_op [of x l t op b] by (auto simp: c)
qed simp

lemma buffers_inv:
  assumes "buffers l x cs e e'" "engine_inv e"
  shows "engine_inv e'"
proof -
  have len: "length (e_tables e') = length (e_tables e)" using assms(1) map_eq_imp_length_eq unfolding buffers_def by blast
  have "batch_ok (unmarked t) = batch_ok t" for t :: "'a Table" by (simp add: batch_ok_def unmarked_def)
  then have um: "list_all batch_ok (map unmarked ts) = list_all batch_ok ts" for ts :: "'a Table list" by (simp add: list.pred_map comp_def)
  have "list_all batch_ok (e_tables e')"
    using assms um [of "e_tables e'"] um [of "e_tables e"] by (simp add: buffers_def engine_inv_def)
  moreover have "po_table p < length (e_tables e)" if "p \<in> buffered (e_txbuf e')" for p
  proof -
    have "p \<in> (\<lambda>(t, op). \<lparr>po_lsn = l, po_table = t, po_op = op\<rparr>) ` set cs \<union> buffered (e_txbuf e)"
      using that buffered_fold [of x l cs "e_txbuf e"] assms(1) by (auto simp: buffers_def)
    then show ?thesis using assms by (auto simp: buffers_def engine_inv_def)
  qed
  ultimately show ?thesis using assms len by (auto simp: engine_inv_def buffers_def routed_def)
qed

lemma handle_record_inv:
  assumes inv: "engine_inv e" and h: "handle_record env l rec e = Ok e'"
  shows "engine_inv e'"
proof -
  have "routed e" using inv by (simp add: engine_inv_def)
  from handle_record_event [OF this h] show ?thesis
    using buffers_inv [OF _ inv] handle_abort_inv [OF inv] handle_commit_inv [OF inv] by (metis sum.inject(2))
qed

section \<open>Flushes, compactions and schema changes\<close>

lemma flush_table_batch: "batch_ok t \<Longrightarrow> batch_ok (fst (snd (flush_table env r rt cap t tail0)))"
  by (auto simp: flush_table_def batch_ok_def Let_def split: prod.split sum.split)

lemma flush_tables_batch:
  "list_all batch_ok ts \<Longrightarrow>
   list_all batch_ok (fst (snd (flush_tables env r rt cap ts tail0))) \<and> length (fst (snd (flush_tables env r rt cap ts tail0))) = length ts"
proof (induction ts arbitrary: tail0)
  case (Cons t ts)
  obtain o1 t' tail1 where f: "flush_table env r rt cap t tail0 = (o1, t', tail1)" by (metis surj_pair)
  have "batch_ok t'" using flush_table_batch [of t env r rt cap tail0] Cons.prems f by simp
  moreover obtain o2 ts' tail2 where "flush_tables env r rt cap ts tail1 = (o2, ts', tail2)" by (metis surj_pair)
  ultimately show ?case using Cons.IH [of tail1] Cons.prems f by (auto split: sum.split)
qed simp

lemma engine_inv_tables:
  assumes "engine_inv e" "length ts = length (e_tables e)" "list_all batch_ok ts" "e_tables e' = ts" "e_txbuf e' = e_txbuf e"
    "rel_to_table e' = rel_to_table e"
  shows "engine_inv e'"
  using assms by (simp add: engine_inv_def routed_def)

lemma flush_all_inv: "engine_inv e \<Longrightarrow> engine_inv (fst (snd (flush_all env p e)))"
  using flush_tables_batch [of "e_tables e" env "restart_lsn e" "tail_retain e" "tail_max_rows e" "e_tail e"]
  by (auto simp: flush_all_def Let_def engine_inv_def routed_def split: prod.splits)

lemma maybe_compact_inv:
  assumes inv: "engine_inv e" and c: "maybe_compact env e = Ok e'"
  shows "engine_inv e'"
proof (cases "compact_rows e = 0")
  case False
  then obtain ts where ts: "rmap (compact_table env (compact_rows e) (vacuum_after e)) (e_tables e) = Ok ts" "e' = e\<lparr>e_tables := ts\<rparr>"
    using c by (auto simp: maybe_compact_def rbind_eq_Ok)
  have one: "batch_ok t' = batch_ok t" if "compact_table env n v t = Ok t'" for n v and t t' :: "'a Table"
    using that by (auto simp: compact_table_def rbind_eq_Ok Let_def batch_ok_def split: if_splits prod.splits)
  have "length ts = length (e_tables e)" "\<forall>i < length ts. compact_table env (compact_rows e) (vacuum_after e) (e_tables e ! i) = Ok (ts ! i)"
    using ts(1) by (simp_all add: rmap_nth_iff)
  moreover from this have "list_all batch_ok ts" using inv one by (auto simp: engine_inv_def list_all_length)
  ultimately show ?thesis using engine_inv_tables [OF inv, of ts e'] ts(2) by simp
qed (use assms in \<open>simp add: maybe_compact_def\<close>)

lemma drain_batch:
  assumes "batch_ok t"
  shows "batch_ok (drain_mirror now l t)"
proof -
  have "batch_ok (t\<lparr>pending := fold (\<lambda>(c, ver). emit now l True c (rv_row ver)) m (pending t)\<rparr>)" for m
    using assms
  proof (induction m arbitrary: t)
    case (Cons cv m)
    obtain c ver where cv: "cv = (c, ver)" by (cases cv)
    show ?case using Cons.IH [OF emit_ok [OF Cons.prems]] by (simp add: cv)
  qed simp
  then show ?thesis by (simp add: drain_mirror_def batch_ok_def)
qed

lemma flush_tombstones_batch:
  assumes "batch_ok t"
  shows "batch_ok (snd (flush_tombstones env fn r t))"
    and "fst (flush_tombstones env fn r t) = Ok u \<Longrightarrow> pb_rows (pending (snd (flush_tombstones env fn r t))) = []"
  using assms by (auto simp: flush_tombstones_def batch_ok_def Let_def split: prod.split sum.split)

lemma batch_ok_empty: "pb_rows (pending t) = [] \<Longrightarrow> batch_ok t \<longleftrightarrow> first_at (pending t) = None"
  by (simp add: batch_ok_def Let_def)

lemma remap_table_batch:
  assumes "batch_ok t"
  shows "batch_ok (snd (remap_table env sql l fn r t))"
proof -
  let ?f = "flush_tombstones env fn r (drain_mirror (env_now env) l t)"
  obtain o1 t1 where f: "?f = (o1, t1)" by (cases ?f)
  have ok: "batch_ok t1" using flush_tombstones_batch(1) [OF drain_batch [OF assms], of env fn r "env_now env" l] f by simp
  show ?thesis
  proof (cases o1)
    case (Inr u)
    then have e: "pb_rows (pending t1) = []" "first_at (pending t1) = None"
      using flush_tombstones_batch(2) [OF drain_batch [OF assms], of env fn r "env_now env" l u] f ok by (simp_all add: batch_ok_empty)
    show ?thesis
      using f Inr ok e by (auto simp: remap_table_def Let_def batch_ok_empty split: sum.split prod.split)
  qed (use f ok in \<open>simp add: remap_table_def\<close>)
qed

lemma batch_ok_cong:
  "pending t' = pending t \<Longrightarrow> batch_ok t' = batch_ok t"
  by (simp add: batch_ok_def)

lemma remap_one_batch:
  assumes ok: "batch_ok t"
  shows "batch_ok (fst (snd (remap_one env sql l r t)))"
proof -
  have rt: "batch_ok (snd (remap_table env sql l fn r (t\<lparr>t_sink := s, mirror := m, t_desc := d\<rparr>)))" for fn s m d
    using ok by (intro remap_table_batch) (simp add: batch_ok_cong [of "t\<lparr>t_sink := s, mirror := m, t_desc := d\<rparr>" t])
  have res: "batch_ok (t2\<lparr>needs_resnapshot := b\<rparr>) = batch_ok t2" for t2 :: "'a Table" and b by (simp add: batch_ok_def)
  have same: "batch_ok (detach t)" "batch_ok (detach (t\<lparr>t_sink := s\<rparr>))" "batch_ok (t\<lparr>t_desc := d\<rparr>)"
    "batch_ok (t\<lparr>t_sink := s, mirror := m, t_desc := d\<rparr>)" for s :: "'a DeltaSink" and m d
    using ok by (simp_all add: batch_ok_def detach_def)
  have remapped: "batch_ok (fst (snd (case remap_table env sql l fn r (t\<lparr>t_sink := s, mirror := m, t_desc := d\<rparr>) of
      (Inl err, t2) \<Rightarrow> (Err err, t2, True) | (Inr u, t2) \<Rightarrow> (Ok (), t2\<lparr>needs_resnapshot := False\<rparr>, True))))" for fn s m d
    using rt [of fn d m s] by (auto simp: res split: prod.split sum.split)
  show ?thesis
  proof (cases "rel_node (t_desc t) = 0")
    case False
    show ?thesis
    proof (cases "sql_by_oid sql (td_oid (t_desc t))")
      case (Inr fresh)
      obtain o1 s where ev: "(if map col_sig (cols fresh) \<noteq> map col_sig (cols (t_desc t)) then evolve (cols fresh) (t_sink t)
          else (Ok (), t_sink t)) = (o1, s)" by (metis surj_pair)
      show ?thesis
        unfolding remap_one_def Let_def if_not_P [OF False] Inr sum.case ev prod.case
        using ok same remapped by (cases o1) (simp_all split: if_split)
    qed (use False same in \<open>simp add: remap_one_def Let_def\<close>)
  qed (use ok in \<open>simp add: remap_one_def\<close>)
qed

lemma remap_all_batch:
  assumes "list_all batch_ok ts"
  shows "list_all batch_ok (fst (snd (remap_all env sql l r ts))) \<and> length (fst (snd (remap_all env sql l r ts))) = length ts"
  using assms
proof (induction ts)
  case (Cons t ts)
  obtain o1 t' ch where f: "remap_one env sql l r t = (o1, t', ch)" by (metis surj_pair)
  have "batch_ok t'" using remap_one_batch [of t env sql l r] Cons.prems f by simp
  then show ?case using Cons f by (auto split: sum.split prod.split)
qed simp

lemma attach_table_batch:
  assumes "attach_table env sql lake n = Ok t"
  shows "batch_ok t"
proof -
  obtain desc s cutover rs m where "(case sink_append (env_lib env) (snapshot_emits cutover 0 rs) cutover cutover (rel_node desc) s of
        (Inl err, s') \<Rightarrow> Err err | (Inr v, s') \<Rightarrow> Ok ((new_table desc s')\<lparr>mirror := m, dedupe_below := cutover\<rparr>)) = Ok t"
    using assms by (auto simp: attach_table_def rbind_eq_Ok)
  then have "pending t = pending_default" by (auto simp: new_table_def split: prod.splits sum.splits)
  then show ?thesis by (simp add: batch_ok_def pending_default_def)
qed

lemma catch_Ok_Ok: "catch r = Ok (Ok x) \<longleftrightarrow> r = Ok x"
  by (cases r rule: catch.cases) auto

lemma attach_new_changed: "attach_new env sql lake ns (ts, failed, True) = Ok (ts', failed', ch') \<Longrightarrow> ch'"
proof (induction ns arbitrary: ts failed)
  case (Cons on ns)
  obtain oid n r where on: "on = (oid, n)" "catch (attach_table env sql lake n) = Ok r"
    using Cons.prems by (cases on) (auto simp: rbind_eq_Ok)
  then show ?case using Cons by (cases r) simp_all
qed simp

lemma attach_new_batch:
  "attach_new env sql lake ns (ts, failed, ch) = Ok (ts', failed', ch') \<Longrightarrow> list_all batch_ok ts \<Longrightarrow>
   list_all batch_ok ts' \<and> length ts \<le> length ts' \<and> (\<not> ch' \<longrightarrow> ts' = ts)"
proof (induction ns arbitrary: ts failed ch)
  case (Cons on ns)
  obtain oid n where on: "on = (oid, n)" by (cases on)
  obtain r where r: "catch (attach_table env sql lake n) = Ok r" using Cons.prems(1) by (auto simp: on rbind_eq_Ok)
  show ?case
  proof (cases r)
    case (Inl err)
    then show ?thesis using Cons.IH [of ts "insert n failed" ch] Cons.prems r by (simp add: on)
  next
    case (Inr t)
    then have "batch_ok t" using r attach_table_batch by (simp add: catch_Ok_Ok)
    moreover have "attach_new env sql lake ns (ts @ [t], failed, True) = Ok (ts', failed', ch')" using Cons.prems(1) r Inr by (simp add: on)
    moreover from this have "ch'" by (rule attach_new_changed)
    ultimately show ?thesis using Cons.IH [of "ts @ [t]" failed True] Cons.prems(2) by simp
  qed
qed simp

lemma map_of_zip_range: "map_of (rev (zip xs [0..<length xs])) k = Some i \<Longrightarrow> i < length xs"
  by (drule map_of_SomeD) (auto dest: set_zip_rightD)

lemma rebuild_routing_routed: "routed (rebuild_routing e)"
  unfolding routed_def rebuild_routing_def using map_of_zip_range [of "map (\<lambda>t. rel_node (t_desc t)) (e_tables e)"] by auto

lemma grown_inv:
  assumes inv: "engine_inv e" and ts: "list_all batch_ok ts" "length (e_tables e) \<le> length ts"
    and e': "e_tables e' = ts" "e_txbuf e' = e_txbuf e" "rel_to_table e' = rel_to_table e"
  shows "engine_inv e'" "engine_inv (rebuild_routing e')"
proof -
  show inv': "engine_inv e'" using assms by (fastforce simp: engine_inv_def routed_def)
  have "e_tables (rebuild_routing e') = ts" "e_txbuf (rebuild_routing e') = e_txbuf e'" by (simp_all add: rebuild_routing_def e')
  then show "engine_inv (rebuild_routing e')" using inv' rebuild_routing_routed [of e'] e'(1) by (simp add: engine_inv_def)
qed

lemma remap_check_inv:
  assumes "engine_inv e"
  shows "engine_inv (fst (snd (remap_check env sql auto lake l p e)))"
proof -
  obtain o1 e1 p1 where f: "flush_all env p e = (o1, e1, p1)" by (metis surj_pair)
  have i1: "engine_inv e1" using flush_all_inv [OF assms, of env p] f by simp
  define e2 where "e2 = (case sql_catalog sql of Inr ns \<Rightarrow> e1\<lparr>catalog_rels := set ns\<rparr> | Inl _ \<Rightarrow> e1)"
  have e2: "e_tables e2 = e_tables e1" "e_txbuf e2 = e_txbuf e1" "rel_to_table e2 = rel_to_table e1"
    by (simp_all add: e2_def split: sum.split)
  then have i2: "engine_inv e2" using i1 by (simp add: engine_inv_def routed_def)
  obtain o2 ts ch where r: "remap_all env sql l (restart_lsn e2) (e_tables e2) = (o2, ts, ch)" by (metis surj_pair)
  have ts: "list_all batch_ok ts" "length ts = length (e_tables e2)"
    using remap_all_batch [of "e_tables e2" env sql l "restart_lsn e2"] i2 r by (simp_all add: engine_inv_def)
  define att where "att = (case (auto, sql_tables sql) of
       (True, Inr cat) \<Rightarrow> attach_new env sql lake
           (tables_to_attach ((\<lambda>t. td_oid (t_desc t)) ` set ts) (attach_failed e2) cat) (ts, attach_failed e2, ch)
     | _ \<Rightarrow> Ok (ts, attach_failed e2, ch))"
  have att: "list_all batch_ok ts' \<and> length ts \<le> length ts'" if "att = Ok (ts', failed, ch')" for ts' failed ch'
    using that attach_new_batch [OF _ ts(1), of env sql lake _ "attach_failed e2" ch ts' failed ch'] ts(1)
    unfolding att_def by (auto split: bool.splits sum.splits)
  have rc: "remap_check env sql auto lake l p e =
    (case o1 of Inl err \<Rightarrow> (Err err, e1, p1) | Inr _ \<Rightarrow>
      (case o2 of Inl err \<Rightarrow> (Err err, e2\<lparr>e_tables := ts\<rparr>, p1) | Inr _ \<Rightarrow>
        (case att of Inl err \<Rightarrow> (Err err, e2\<lparr>e_tables := ts\<rparr>, p1)
         | Inr (ts', failed, ch') \<Rightarrow> let e3 = e2\<lparr>e_tables := ts', attach_failed := failed\<rparr>
                    in (Ok (), if ch' then rebuild_routing e3 else e3, p1))))"
    unfolding remap_check_def f prod.case Let_def e2_def [symmetric] r att_def [unfolded prod.case, symmetric] by (simp split: sum.split)
  have same: "engine_inv (e2\<lparr>e_tables := ts\<rparr>)" using grown_inv(1) [OF i2 ts(1), of "e2\<lparr>e_tables := ts\<rparr>"] ts(2) by simp
  show ?thesis
  proof (cases att)
    case (Inr y)
    obtain ts' failed ch' where y: "y = (ts', failed, ch')" by (metis surj_pair)
    have "engine_inv (e2\<lparr>e_tables := ts', attach_failed := failed\<rparr>)" "engine_inv (rebuild_routing (e2\<lparr>e_tables := ts', attach_failed := failed\<rparr>))"
      using grown_inv [OF i2, of ts' "e2\<lparr>e_tables := ts', attach_failed := failed\<rparr>"] att [OF Inr [unfolded y]] ts(2) by simp_all
    then show ?thesis unfolding rc Inr y using i1 same by (simp add: Let_def split: sum.split)
  qed (unfold rc, use i1 same in \<open>simp split: sum.split\<close>)
qed

section \<open>Startup\<close>

lemma open_tables_batch: "open_tables env auto lake ds = Ok ts \<Longrightarrow> \<forall>t \<in> set ts. pending t = pending_default"
proof (induction ds arbitrary: ts)
  case (Cons d ds)
  show ?case
  proof (cases "open_or_create (env_lib env) (table_uri lake (td_name d)) d")
    case (Inl err)
    then show ?thesis using Cons by (simp split: if_splits)
  next
    case (Inr s)
    then obtain ts0 where "open_tables env auto lake ds = Ok ts0" "ts = new_table d s # ts0"
      using Cons.prems by (auto simp: rbind_eq_Ok)
    then show ?thesis using Cons.IH by (simp add: new_table_def)
  qed
qed simp

lemma default_batch: "pending t = pending_default \<Longrightarrow> batch_ok t"
  by (simp add: batch_ok_def pending_default_def)

lemma resume_table_batch:
  assumes d: "pending t = pending_default" and r: "resume_table env sql snap opi t = Ok (t', c)"
  shows "batch_ok t'"
proof -
  have dt: "batch_ok (t\<lparr>dedupe_below := w, mirror := m\<rparr>)" "batch_ok (t\<lparr>dedupe_below := w\<rparr>)"
    "batch_ok (t\<lparr>dedupe_below := w', mirror := m, t_sink := s\<rparr>)" for w m s w'
    by (rule default_batch; simp add: d)+
  obtain res where res: "resume_state (env_lib env) (t_sink t) = Ok res" using r by (auto simp: resume_table_def rbind_eq_Ok)
  show ?thesis
  proof (cases "rs_restart res")
    case None
    show ?thesis
    proof (cases snap)
      case True
      let ?t = "t\<lparr>dedupe_below := case rs_commit res of Some c \<Rightarrow> c | None \<Rightarrow> 0\<rparr>"
      note r' = r [unfolded resume_table_def res rbind.simps Let_def None option.case if_P [OF True]]
      obtain sn0 where "sql_snapshot sql (t_desc ?t) = Ok sn0" using r' unfolding rbind_eq_Ok by (elim exE conjE)
      then obtain cutover rs raw where sn: "sql_snapshot sql (t_desc ?t) = Ok (cutover, rs, raw)" by (cases sn0) auto
      obtain m where m: "seed_mirror (t_desc ?t) rs raw (mirror ?t) = Ok m"
        using r' unfolding sn rbind.simps prod.case rbind_eq_Ok by (elim exE conjE)
      obtain o1 s where "(if rs = [] then (Ok 0, t_sink ?t)
          else sink_append (env_lib env) (snapshot_emits cutover 0 rs) cutover cutover (rel_node (t_desc ?t)) (t_sink ?t)) = (o1, s)"
        by (metis surj_pair)
      from r' [unfolded sn rbind.simps prod.case m this]
      have "pending t' = pending t" by (cases o1) auto
      then show ?thesis using d by (simp add: default_batch)
    qed (use r res None dt(2) in \<open>auto simp: resume_table_def Let_def\<close>)
  next
    case (Some rl)
    let ?w = "case rs_commit res of Some c \<Rightarrow> c | None \<Rightarrow> 0"
    have "\<exists>m. t' = t\<lparr>dedupe_below := ?w, mirror := m\<rparr> \<or>
      (\<exists>st l. t' = snd (remap_table env sql l st rl (t\<lparr>dedupe_below := ?w, mirror := m\<rparr>)))"
      using r unfolding resume_table_def res rbind.simps Let_def Some option.case rbind_eq_Ok
      by (elim exE conjE) (auto split: if_splits option.splits prod.splits sum.splits; metis snd_conv)
    then show ?thesis using remap_table_batch dt(1) by metis
  qed
qed

lemma build_engine_inv:
  assumes "open_tables env auto lake ds = Ok ts0" "resume_tables env sql snap opi ts0 = Ok (ts, cands)"
    "build_engine sql retain max_rows crows vac neon ts tail0 l = Ok e"
  shows "engine_inv e"
proof -
  obtain rs where rs: "rmap (resume_table env sql snap opi) ts0 = Ok rs" "ts = map fst rs"
    using assms(2) by (auto simp: resume_tables_def rbind_eq_Ok)
  have "batch_ok t" if t: "t \<in> set ts" for t
  proof -
    obtain i where i: "i < length rs" "t = fst (rs ! i)" using t rs(2) by (metis in_set_conv_nth length_map nth_map)
    then have "resume_table env sql snap opi (ts0 ! i) = Ok (t, snd (rs ! i))" "i < length ts0" using rs(1) by (simp_all add: rmap_nth_iff)
    then show ?thesis using resume_table_batch open_tables_batch [OF assms(1)] by (metis nth_mem)
  qed
  then have "list_all batch_ok ts" by (simp add: list_all_iff)
  moreover obtain e0 where "e = rebuild_routing e0" "e_tables e0 = ts" "e_txbuf e0 = txbuf_default"
    using assms(3) by (auto simp: build_engine_def rbind_eq_Ok split: list.splits)
  moreover from this have "e_tables e = ts" "e_txbuf e = txbuf_default" by (simp_all add: rebuild_routing_def)
  moreover have "routed e" using rebuild_routing_routed calculation(2) by simp
  ultimately show ?thesis by (simp add: engine_inv_def buffered_def txbuf_default_def)
qed

section \<open>Reachable engines\<close>

text \<open>
  Startup, then records, flushes, compactions and schema reconciliations in any order and any
  environment; a flush or a reconciliation may also fail half-way.
\<close>

inductive engine_reach :: "('d, 'c) Engine \<Rightarrow> bool" where
  reach_start: "open_tables (env :: ('d, 'c) Env) auto lake ds = Ok ts0 \<Longrightarrow> resume_tables (env :: ('d, 'c) Env) sql snap opi ts0 = Ok (ts, cands) \<Longrightarrow>
    build_engine sql retain max_rows crows vac neon ts tail0 l = Ok e \<Longrightarrow> engine_reach e"
| reach_record: "engine_reach e \<Longrightarrow> handle_record env l rec e = Ok e' \<Longrightarrow> engine_reach e'"
| reach_flush: "engine_reach e \<Longrightarrow> flush_all env p e = (r, e', p') \<Longrightarrow> engine_reach e'"
| reach_compact: "engine_reach e \<Longrightarrow> maybe_compact env e = Ok e' \<Longrightarrow> engine_reach e'"
| reach_remap: "engine_reach e \<Longrightarrow> remap_check env sql auto lake l p e = (r, e', p') \<Longrightarrow> engine_reach e'"

lemma engine_reach_inv: "engine_reach e \<Longrightarrow> engine_inv e"
proof (induction rule: engine_reach.induct)
  case (reach_start env auto lake ds ts0 sql snap opi ts cands retain max_rows crows vac neon tail0 l e)
  then show ?case by (rule build_engine_inv)
next
  case (reach_record e env l rec e')
  then show ?case using handle_record_inv by blast
next
  case (reach_flush e env p r e' p')
  then show ?case using flush_all_inv [of e env p] by simp
next
  case (reach_compact e env e')
  then show ?case using maybe_compact_inv by blast
next
  case (reach_remap e env sql auto lake l p r e' p')
  then show ?case using remap_check_inv [of e env sql auto lake l p] by simp
qed

section \<open>Watermarks\<close>

text \<open>What Delta promises of application transactions: a commit sets its identifiers and keeps the others.\<close>

definition delta_txns :: "'d DeltaLib \<Rightarrow> bool" where
  "delta_txns lib \<longleftrightarrow> (\<forall>b txns t v t'. lib_append lib b txns t = Ok (v, t') \<longrightarrow>
     lib_fields lib t' \<noteq> None \<and>
     (\<forall>k. lib_txn lib t' k = (case map_of txns k of Some x \<Rightarrow> Ok (Some x) | None \<Rightarrow> lib_txn lib t k)))"

lemma append_resume:
  assumes lib: "delta_txns lib" and app: "sink_append lib rows c r f s = (Ok v, s')" and w: "c < 2 ^ 64" "r < 2 ^ 64"
  shows "resume_state lib s' = Ok \<lparr>rs_commit = Some c, rs_restart = Some r, rs_filenode = Some f\<rparr>"
proof -
  obtain b s1 where bs: "make_batch lib s rows = Ok b" "commit_schema lib s = Ok s1" using app by (auto simp: sink_append_def split: sum.splits)
  then obtain t where t: "lib_append lib b (watermarks c r f) (ds_table s1) = Ok (v, t)" "ds_table s' = t"
    using app by (auto simp: sink_append_def split: sum.splits prod.splits)
  have tx: "lib_fields lib t \<noteq> None" "lib_txn lib t k = (case map_of (watermarks c r f) k of Some x \<Rightarrow> Ok (Some x) | None \<Rightarrow> lib_txn lib (ds_table s1) k)" for k
    using lib t(1) unfolding delta_txns_def by blast+
  have names: "TXN_COMMIT \<noteq> TXN_RESTART" "TXN_COMMIT \<noteq> TXN_FILENODE" "TXN_RESTART \<noteq> TXN_FILENODE"
    by (simp_all add: TXN_COMMIT_def TXN_RESTART_def TXN_FILENODE_def)
  have "unat (word_of_nat c :: i64) = c" "unat (word_of_nat r :: i64) = r" using w by (simp_all add: unat_of_nat take_bit_nat_eq_self)
  moreover have "ucast (ucast f :: i64) = f" by (rule bit_word_eqI) (simp add: bit_simps)
  ultimately show ?thesis
    using tx names unfolding resume_state_def t(2) by (auto simp: watermarks_def)
qed

lemma flush_table_resume:
  assumes "delta_txns (env_lib env)" "flush_table env r rt cap t tail0 = (Ok u, t', tail1)" "pb_rows (pending t) \<noteq> []"
    and "max_commit_lsn (pending t) < 2 ^ 64" "r < 2 ^ 64"
  shows "resume_state (env_lib env) (t_sink t') =
     Ok \<lparr>rs_commit = Some (max_commit_lsn (pending t)), rs_restart = Some r, rs_filenode = Some (rel_node (t_desc t))\<rparr>"
proof -
  obtain v where "sink_append (env_lib env) (pb_rows (pending t)) (max_commit_lsn (pending t)) r (rel_node (t_desc t)) (t_sink t) = (Ok v, t_sink t')"
    using assms(2,3) by (auto simp: flush_table_def split: sum.splits prod.splits)
  then show ?thesis by (rule append_resume [OF assms(1) _ assms(4,5)])
qed

text \<open>
  C3 (roundtrip): what a flush writes is what a restart reads. After a successful flush round every table
  that had rows resumes at its batch's highest commit and at the engine's restart position, under its
  current relfilenode, and the restart position is what the flush reports as persisted.
\<close>

theorem flushed_watermarks_resume:
  assumes "delta_txns (env_lib env)" "flush_all env p e = (Ok u, e', p')"
    and "ti < length (e_tables e)" "pb_rows (pending (e_tables e ! ti)) \<noteq> []"
    and "max_commit_lsn (pending (e_tables e ! ti)) < 2 ^ 64" "restart_lsn e < 2 ^ 64"
  shows "resume_state (env_lib env) (t_sink (e_tables e' ! ti)) =
      Ok \<lparr>rs_commit = Some (max_commit_lsn (pending (e_tables e ! ti))), rs_restart = Some (restart_lsn e),
          rs_filenode = Some (rel_node (t_desc (e_tables e ! ti)))\<rparr> \<and> p' = restart_lsn e"
proof -
  have "length (pb_rows (pending (e_tables e ! ti))) \<le> pending_total e"
    using assms(3) member_le_sum_list [of "length (pb_rows (pending (e_tables e ! ti)))" "map (\<lambda>t. length (pb_rows (pending t))) (e_tables e)"]
    by (simp add: pending_total_def)
  moreover have "0 < length (pb_rows (pending (e_tables e ! ti)))" using assms(4) by simp
  ultimately have "pending_total e \<noteq> 0" by linarith
  then obtain ts tail1 where ft: "flush_tables env (restart_lsn e) (tail_retain e) (tail_max_rows e) (e_tables e) (e_tail e) = (Ok u, ts, tail1)"
    "e' = e\<lparr>e_tables := ts, e_tail := tail1\<rparr>" "p' = restart_lsn e"
    using assms(2) by (auto simp: flush_all_def Let_def split: prod.splits)
  from flush_tables_Ok [OF ft(1)] assms(3) obtain a b where
    "flush_table env (restart_lsn e) (tail_retain e) (tail_max_rows e) (e_tables e ! ti) a = (Ok (), ts ! ti, b)"
    by (auto simp: list_all2_conv_all_nth)
  from flush_table_resume [OF assms(1) this assms(4-6)] show ?thesis using ft(2,3) by simp
qed


theorem flushed_watermarks_resume_witness:
  "\<exists>s e p. run (notes_steps notes_head) (notes_engine 0 5, \<lambda>_. []) = Ok s \<and> flush_all (notes_env 1) 0 (fst s) = (Ok (), e, p) \<and>
     resume_state mem_lib (t_sink (e_tables e ! 0)) = Ok \<lparr>rs_commit = Some 30, rs_restart = Some 20, rs_filenode = Some 16384\<rparr> \<and> p = 20"
proof -
  obtain s1 where s1: "run (notes_steps notes_head @ [Flush (notes_env 1) 0]) (notes_engine 0 5, \<lambda>_. []) = Ok s1" using notes_first by blast
  then obtain s where s: "run (notes_steps notes_head) (notes_engine 0 5, \<lambda>_. []) = Ok s" "exec (Flush (notes_env 1) 0) s = Ok s1"
    by (auto simp: run_def rfold_append rbind_eq_Ok)
  obtain e p where fl: "flush_all (notes_env 1) 0 (fst s) = (Ok (), e, p)"
    using s(2) by (cases s) (auto split: prod.splits sum.splits)
  have t: "length (e_tables (fst s)) = 1" "restart_lsn (fst s) = 20" "pb_rows (pending (e_tables (fst s) ! 0)) \<noteq> []"
    "max_commit_lsn (pending (e_tables (fst s) ! 0)) = 30" "rel_node (t_desc (e_tables (fst s) ! 0)) = 16384"
    using s(1) by (auto simp: notes_run notes_txs restart_lsn_def oldest_first_lsn_def notes_desc_def)
  have "delta_txns (env_lib (notes_env 1))"
    by (auto simp: delta_txns_def notes_env_def mem_lib_def map_add_def split: if_splits option.splits)
  from flushed_watermarks_resume [OF this fl, of 0] t
  have "resume_state mem_lib (t_sink (e_tables e ! 0)) = Ok \<lparr>rs_commit = Some 30, rs_restart = Some 20, rs_filenode = Some 16384\<rparr> \<and> p = 20"
    by (simp add: notes_env_def)
  then show ?thesis using s(1) fl by blast
qed

text \<open>
  C2 (invariant): whatever the engine has been through, every route leads to a table, every buffered change names a
  table, and every pending batch is numbered in order, below its watermark, and has an age exactly when it
  has rows; so a commit is always applied and never panics, and what follows is again such an engine.
\<close>

theorem engine_invariant:
  assumes "engine_reach e"
  shows "engine_inv e \<and> (\<exists>e'. handle_commit env l x subs e = Ok e' \<and> engine_inv e')"
  using engine_reach_inv [OF assms] handle_commit_inv by blast

definition notes_sql :: Sql where
  "notes_sql = \<lparr>sql_catalog = Ok [1259], sql_by_oid = (\<lambda>_. Ok notes_desc), sql_by_name = (\<lambda>_. Ok notes_desc),
     sql_tables = Ok [(16384, ''notes'')], sql_snapshot = (\<lambda>_. Ok (5, [], [])), sql_raw_attrs = (\<lambda>_. Ok [])\<rparr>"

lemma notes_opened: "open_tables (notes_env 0) True ''lake'' [notes_desc] = Ok [new_table notes_desc (notes_sink [])]"
  using notes_open by (simp add: notes_env_def open_or_create_def mem_lib_def)

lemma notes_resumed:
  "resume_tables (notes_env 0) notes_sql True False [new_table notes_desc (notes_sink [])] =
     Ok ([(new_table notes_desc (notes_sink []))\<lparr>dedupe_below := 5\<rparr>], [5])"
proof -
  have "resume_state mem_lib (notes_sink []) = Ok \<lparr>rs_commit = None, rs_restart = None, rs_filenode = None\<rparr>"
    by (simp add: resume_state_def notes_sink_def mem_lib_def)
  then show ?thesis
    by (simp add: resume_tables_def resume_table_def Let_def notes_env_def new_table_def notes_sql_def List.map_filter_def)
qed

lemma notes_startup: "\<exists>e :: (mem_table, unit) Engine. engine_reach e \<and> length (e_tables e) = 1 \<and> rel_to_table e 16384 = Some 0"
proof -
  obtain e :: "(mem_table, unit) Engine" where e: "build_engine notes_sql 100 1000 0 None False
      [(new_table notes_desc (notes_sink []))\<lparr>dedupe_below := 5\<rparr>] tail_default 5 = Ok e"
    "length (e_tables e) = 1" "rel_to_table e 16384 = Some 0"
    by (simp add: build_engine_def notes_sql_def rebuild_routing_def new_table_def notes_desc_def)
  then show ?thesis using reach_start [OF notes_opened notes_resumed] by blast
qed

theorem engine_invariant_witness:
  "\<exists>e e' :: (mem_table, unit) Engine. engine_reach e \<and> rel_to_table e 16384 = Some 0 \<and> engine_inv e \<and>
     handle_commit (notes_env 0) 20 7 [8] e = Ok e' \<and> engine_inv e'"
proof -
  obtain e :: "(mem_table, unit) Engine" where e: "engine_reach e" "rel_to_table e 16384 = Some 0" using notes_startup by blast
  from engine_invariant [OF e(1), of "notes_env 0" 20 7 "[8]"] show ?thesis using e by blast
qed

end
