(* ===== verification/Driver.thy ===== *)
theory Driver
  imports Lifecycle Walreader Pgwire
begin

text \<open>
  The two drivers of the engine: the standalone loop of \<^verbatim>\<open>src/main.rs\<close> and the embedded one of
  \<^verbatim>\<open>src/embed.rs\<close>. A turn of \<^verbatim>\<open>tokio::select!\<close> is one step, given what was ready and what
  the outside answers meanwhile; a step that fails ends the process. The socket carries 64-bit positions,
  the engine counts with natural numbers.
\<close>

section \<open>What both drivers do\<close>

record DriverCfg =
  flush_rows :: nat
  flush_interval :: nat
  cfg_auto :: bool
  cfg_lake :: string
  cfg_snapshot :: bool
  ps_enabled :: bool
  cfg_tail_retain :: nat
  cfg_tail_max_rows :: nat
  cfg_compact_rows :: nat
  cfg_vacuum_after :: "nat option"

definition set_applied :: "lsn \<Rightarrow> ('d, 'c) Engine \<Rightarrow> ('d, 'c) Engine" where
  "set_applied l e = e\<lparr>e_tail := (e_tail e)\<lparr>applied_lsn := l\<rparr>\<rparr>"

definition flush_round :: "('d, 'c) Env \<Rightarrow> ('d, 'c) Engine \<times> lsn \<Rightarrow> (('d, 'c) Engine \<times> lsn) result" where
  "flush_round env ep = (case ep of (e, p) \<Rightarrow>
     (case flush_all env p e of
        (Inl err, _) \<Rightarrow> Err err
      | (Inr _, e', p') \<Rightarrow> rbind (maybe_compact env e') (\<lambda>e''. Ok (e'', p'))))"

text \<open>\<^verbatim>\<open>engine.remap_at.take()\<close>\<close>

definition reconcile ::
  "('d, 'c) Env \<Rightarrow> Sql \<Rightarrow> DriverCfg \<Rightarrow> ('d, 'c) Engine \<times> lsn \<Rightarrow> (('d, 'c) Engine \<times> lsn) result" where
  "reconcile env sql cfg ep = (case ep of (e, p) \<Rightarrow>
     (case remap_at e of None \<Rightarrow> Ok (e, p)
      | Some l \<Rightarrow> (case remap_check env sql (cfg_auto cfg) (cfg_lake cfg) l p (e\<lparr>remap_at := None\<rparr>) of
          (Inl err, _) \<Rightarrow> Err err
        | (Inr _, e', p') \<Rightarrow> Ok (e', p'))))"

definition flush_if_full ::
  "('d, 'c) Env \<Rightarrow> DriverCfg \<Rightarrow> ('d, 'c) Engine \<times> lsn \<Rightarrow> (('d, 'c) Engine \<times> lsn) result" where
  "flush_if_full env cfg ep = (if flush_rows cfg \<le> pending_total (fst ep) then flush_round env ep else Ok ep)"

definition batch_is_old :: "('d, 'c) Env \<Rightarrow> DriverCfg \<Rightarrow> ('d, 'c) Engine \<Rightarrow> bool" where
  "batch_is_old env cfg e = (case oldest_batch_age (env_now env) e of None \<Rightarrow> False | Some age \<Rightarrow> flush_interval cfg \<le> age)"

definition handle_records ::
  "('d, 'c) Env \<Rightarrow> (lsn \<times> bytes) list \<Rightarrow> ('d, 'c) Engine \<Rightarrow> ('d, 'c) Engine result" where
  "handle_records env recs = rfold (\<lambda>(l, bs). handle_record env l bs) recs"

section \<open>The standalone driver\<close>

record ('d, 'c) Main =
  m_conn :: ReplConn
  m_reader :: WalReader
  m_engine :: "('d, 'c) Engine"
  last_recv_lsn :: lsn
  persisted_restart :: lsn

text \<open>Where to start: the earliest need of a table, else the slot's, else the server's flush position.\<close>

definition resume_from :: "lsn list \<Rightarrow> lsn option \<Rightarrow> lsn \<Rightarrow> lsn" where
  "resume_from cands slot_restart flush_lsn =
     (case cands of c # cs \<Rightarrow> fold min cs c
      | [] \<Rightarrow> (case slot_restart of Some s \<Rightarrow> s | None \<Rightarrow> flush_lsn))"

definition page_start :: "lsn \<Rightarrow> lsn" where
  "page_start l = l - l mod XLOG_PAGE_SIZE"

datatype WalSource = PostgresSource string | SafekeeperSource "(string \<times> string) result" "string option"

text \<open>
  Attaching: a slot is created and read, or the safekeeper is told tenant and timeline. The identifiers
  of the safekeeper source are configured or looked up.
\<close>

definition attach_stream ::
  "WalSource \<Rightarrow> (bytes result list \<times> error option list) result \<Rightarrow> string \<Rightarrow>
   (ReplConn \<times> lsn option \<times> (string \<times> string) option) result" where
  "attach_stream src tcp user = (case src of
       PostgresSource sl \<Rightarrow>
         rbind (repl_connect tcp user [] None) (\<lambda>c.
         rbind (create_slot sl c) (\<lambda>(_, c1).
         rbind (slot_restart_lsn sl c1) (\<lambda>(r, c2). Ok (c2, map_option unat r, None))))
     | SafekeeperSource ids token \<Rightarrow>
         rbind ids (\<lambda>(tenant, tl0).
         rbind (repl_connect tcp user
             [(''options'', ''tenant_id='' @ tenant @ '' timeline_id='' @ tl0), (''application_name'', ''open-ltap'')] token) (\<lambda>c.
           Ok (c, None, Some (tenant, tl0)))))"

definition start_stream :: "WalSource \<Rightarrow> u64 \<Rightarrow> string \<Rightarrow> ReplConn \<Rightarrow> (unit \<times> ReplConn) result" where
  "start_stream src start tli c = (case src of
       PostgresSource sl \<Rightarrow> start_replication sl start tli c
     | SafekeeperSource _ _ \<Rightarrow> start_replication_safekeeper start c)"

text \<open>\<open>descs\<close> is the answer of table discovery; \<open>dec\<close> renders the timeline in decimal.\<close>

definition main_start ::
  "('d, 'c) Env \<Rightarrow> Sql \<Rightarrow> DriverCfg \<Rightarrow> WalSource \<Rightarrow> TableDesc list result \<Rightarrow>
   (bytes result list \<times> error option list) result \<Rightarrow> string \<Rightarrow> ('d, 'c) Main result" where
  "main_start env sql cfg src descs tcp user =
     rbind descs (\<lambda>ds.
     rbind (open_tables env (cfg_auto cfg) (cfg_lake cfg) ds) (\<lambda>ts0.
     rbind (attach_stream src tcp user) (\<lambda>(c, slot_restart, neon_tt).
     rbind (identify_system c) (\<lambda>((tli, flush_lsn), c1).
     rbind (resume_tables env sql (cfg_snapshot cfg) (neon_tt \<noteq> None \<and> ps_enabled cfg) ts0) (\<lambda>(ts, cands).
     let from = resume_from cands slot_restart (unat flush_lsn); start = page_start from in
     rbind (start_stream src (word_of_nat start) (show_nat (unat tli)) c1) (\<lambda>(_, c2).
     rbind (build_engine sql (cfg_tail_retain cfg) (cfg_tail_max_rows cfg) (cfg_compact_rows cfg) (cfg_vacuum_after cfg)
              (neon_tt \<noteq> None \<and> ps_enabled cfg) ts tail_default from) (\<lambda>e.
     rbind (wal_reader_new start) (\<lambda>rd.
       Ok \<lparr>m_conn = c2, m_reader = rd, m_engine = e, last_recv_lsn = start, persisted_restart = from\<rparr>))))))))"

definition main_xlog_data ::
  "('d, 'c) Env \<Rightarrow> Sql \<Rightarrow> DriverCfg \<Rightarrow> XLogData \<Rightarrow> ('d, 'c) Main \<Rightarrow> ('d, 'c) Main result" where
  "main_xlog_data env sql cfg x m =
     (let recv = max (unat (wal_end x)) (last_recv_lsn m) in
      case Walreader.feed (m_reader m) (unat (start_lsn x)) (xlog x) of
        (_, Inl err) \<Rightarrow> Err err
      | (rd, Inr recs) \<Rightarrow>
          rbind (handle_records env recs (m_engine m)) (\<lambda>e.
          rbind (reconcile env sql cfg (e, persisted_restart m)) (\<lambda>(e1, p1).
          rbind (flush_if_full env cfg (set_applied recv e1, p1)) (\<lambda>(e2, p2).
            Ok (m\<lparr>m_reader := rd, m_engine := e2, last_recv_lsn := recv, persisted_restart := p2\<rparr>)))))"

definition main_status :: "nat option \<Rightarrow> ('d, 'c) Main \<Rightarrow> ('d, 'c) Main result" where
  "main_status clock m =
     rbind (send_status clock (word_of_nat (last_recv_lsn m)) (word_of_nat (persisted_restart m)) (m_conn m)) (\<lambda>c.
       Ok (m\<lparr>m_conn := c\<rparr>))"

definition main_keepalive :: "nat option \<Rightarrow> u64 \<Rightarrow> bool \<Rightarrow> ('d, 'c) Main \<Rightarrow> ('d, 'c) Main result" where
  "main_keepalive clock w reply m =
     (let recv = max (unat w) (last_recv_lsn m);
          m1 = m\<lparr>last_recv_lsn := recv, m_engine := set_applied recv (m_engine m)\<rparr>
      in if reply then main_status clock m1 else Ok m1)"

datatype ready = Message | FlushTick | StatusTick

definition main_step ::
  "('d, 'c) Env \<Rightarrow> Sql \<Rightarrow> DriverCfg \<Rightarrow> nat option \<Rightarrow> ready \<Rightarrow> ('d, 'c) Main \<Rightarrow> ('d, 'c) Main result" where
  "main_step env sql cfg clock rdy m = (case rdy of
       Message \<Rightarrow>
         rbind (next_msg (m_conn m)) (\<lambda>(msg, c). case msg of
             ReplXLogData x \<Rightarrow> main_xlog_data env sql cfg x (m\<lparr>m_conn := c\<rparr>)
           | Keepalive w reply \<Rightarrow> main_keepalive clock w reply (m\<lparr>m_conn := c\<rparr>))
     | FlushTick \<Rightarrow>
         if batch_is_old env cfg (m_engine m)
         then rbind (flush_round env (m_engine m, persisted_restart m)) (\<lambda>(e, p).
                main_status clock (m\<lparr>m_engine := e, persisted_restart := p\<rparr>))
         else Ok m
     | StatusTick \<Rightarrow> main_status clock m)"

section \<open>The embedded driver\<close>

datatype SourceEvent = SrcRaw lsn bytes | SrcCommit lsn u32 "u32 list" | SrcAbort lsn u32 "u32 list"
  | SrcSmgrCreate u32 u32 | SrcProgress lsn | SrcLost nat

fun source_lsn :: "SourceEvent \<Rightarrow> lsn option" where
  "source_lsn (SrcRaw l bs) = Some l"
| "source_lsn (SrcCommit l x subs) = Some l"
| "source_lsn (SrcAbort l x subs) = Some l"
| "source_lsn (SrcProgress l) = Some l"
| "source_lsn (SrcSmgrCreate x d) = None"
| "source_lsn (SrcLost n) = None"

record ('d, 'c) Embed =
  em_engine :: "('d, 'c) Engine"
  em_persisted :: lsn
  stream_start :: "lsn option"

definition embed_start ::
  "('d, 'c) Env \<Rightarrow> Sql \<Rightarrow> DriverCfg \<Rightarrow> (string \<times> string) option \<Rightarrow> TableDesc list result \<Rightarrow> ('d, 'c) Embed result" where
  "embed_start env sql cfg neon_tt descs =
     rbind descs (\<lambda>ds.
     rbind (open_tables env (cfg_auto cfg) (cfg_lake cfg) ds) (\<lambda>ts0.
     rbind (resume_tables env sql (cfg_snapshot cfg) (neon_tt \<noteq> None \<and> ps_enabled cfg) ts0) (\<lambda>(ts, cands).
     let from = resume_from cands None 0 in
     rbind (build_engine sql (cfg_tail_retain cfg) (cfg_tail_max_rows cfg) (cfg_compact_rows cfg) (cfg_vacuum_after cfg)
              (neon_tt \<noteq> None \<and> ps_enabled cfg) ts tail_default from) (\<lambda>e.
       Ok \<lparr>em_engine = e, em_persisted = from, stream_start = None\<rparr>))))"

definition resnapshot :: "('d, 'c) Env \<Rightarrow> Sql \<Rightarrow> 'd Table \<Rightarrow> 'd Table result" where
  "resnapshot env sql t =
     (case remap_table env sql (dedupe_below t + 1) (rel_node (t_desc t)) (dedupe_below t) t of
        (Inl err, _) \<Rightarrow> Err err | (Inr _, t') \<Rightarrow> Ok t')"

definition gap_check :: "('d, 'c) Env \<Rightarrow> Sql \<Rightarrow> lsn \<Rightarrow> ('d, 'c) Engine \<Rightarrow> ('d, 'c) Engine result" where
  "gap_check env sql first e =
     rbind (rmap (\<lambda>t. if 0 < dedupe_below t \<and> dedupe_below t < first then resnapshot env sql t else Ok t) (e_tables e)) (\<lambda>ts.
       Ok (e\<lparr>e_tables := ts\<rparr>))"

definition resnapshot_all :: "('d, 'c) Env \<Rightarrow> Sql \<Rightarrow> ('d, 'c) Engine \<Rightarrow> ('d, 'c) Engine result" where
  "resnapshot_all env sql e = rbind (rmap (resnapshot env sql) (e_tables e)) (\<lambda>ts. Ok (e\<lparr>e_tables := ts\<rparr>))"

fun embed_event :: "('d, 'c) Env \<Rightarrow> Sql \<Rightarrow> SourceEvent \<Rightarrow> ('d, 'c) Engine \<Rightarrow> ('d, 'c) Engine result" where
  "embed_event env sql (SrcRaw l bs) e = rbind (handle_record env l bs e) (\<lambda>e'. Ok (set_applied l e'))"
| "embed_event env sql (SrcCommit l x subs) e = rbind (handle_commit env l x subs e) (\<lambda>e'. Ok (set_applied l e'))"
| "embed_event env sql (SrcAbort l x subs) e = Ok (handle_abort l x subs e)"
| "embed_event env sql (SrcSmgrCreate x d) e = Ok (handle_smgr_create x d e)"
| "embed_event env sql (SrcProgress l) e = Ok (set_applied l e)"
| "embed_event env sql (SrcLost n) e =
     resnapshot_all env sql (e\<lparr>e_txbuf := txbuf_default, e_toast := toast_default, smgr_suspects := {}\<rparr>)"

definition embed_recv ::
  "('d, 'c) Env \<Rightarrow> Sql \<Rightarrow> DriverCfg \<Rightarrow> SourceEvent \<Rightarrow> ('d, 'c) Embed \<Rightarrow> ('d, 'c) Embed result" where
  "embed_recv env sql cfg ev d =
     rbind (case (stream_start d, source_lsn ev) of
              (None, Some first) \<Rightarrow> rbind (gap_check env sql first (em_engine d)) (\<lambda>e. Ok (e, Some first))
            | _ \<Rightarrow> Ok (em_engine d, stream_start d)) (\<lambda>(e, st).
     rbind (embed_event env sql ev e) (\<lambda>e1.
     rbind (reconcile env sql cfg (e1, em_persisted d)) (\<lambda>ep.
     rbind (flush_if_full env cfg ep) (\<lambda>(e2, p2).
       Ok \<lparr>em_engine = e2, em_persisted = p2, stream_start = st\<rparr>))))"

definition embed_tick :: "('d, 'c) Env \<Rightarrow> DriverCfg \<Rightarrow> ('d, 'c) Embed \<Rightarrow> ('d, 'c) Embed result" where
  "embed_tick env cfg d =
     (if batch_is_old env cfg (em_engine d)
      then rbind (flush_round env (em_engine d, em_persisted d)) (\<lambda>(e, p). Ok (d\<lparr>em_engine := e, em_persisted := p\<rparr>))
      else Ok d)"

text \<open>The event source is gone: what is pending is made durable.\<close>

definition embed_close :: "('d, 'c) Env \<Rightarrow> ('d, 'c) Embed \<Rightarrow> unit result" where
  "embed_close env d = fst (flush_all env (em_persisted d) (em_engine d))"

section \<open>What the drivers keep\<close>

lemma applied_keeps [simp]:
  "e_tables (set_applied l e) = e_tables e" "e_txbuf (set_applied l e) = e_txbuf e" "rel_to_table (set_applied l e) = rel_to_table e"
  "last_commit_lsn (set_applied l e) = last_commit_lsn e"
  by (simp_all add: set_applied_def)

lemma engine_inv_same:
  "e_tables e' = e_tables e \<Longrightarrow> e_txbuf e' = e_txbuf e \<Longrightarrow> rel_to_table e' = rel_to_table e \<Longrightarrow> engine_inv e' = engine_inv e"
  by (simp add: engine_inv_def routed_def)

section \<open>What an engine promises its drivers\<close>

text \<open>
  A property of the engine and the persisted position that flushing, compacting and reconciling keep, and
  that does not look at the rest of the state. Both drivers rest on it.
\<close>

locale kept_by_engine =
  fixes keep :: "lsn \<Rightarrow> ('d, 'c) Engine \<Rightarrow> bool"
  assumes keep_flush: "keep p e \<Longrightarrow> flush_all env p e = (Ok u, e', p') \<Longrightarrow> keep p' e'"
    and keep_compact: "keep p e \<Longrightarrow> maybe_compact env e = Ok e' \<Longrightarrow> keep p e'"
    and keep_remap: "keep p e \<Longrightarrow> remap_check env sql auto lake l p e = (Ok u, e', p') \<Longrightarrow> keep p' e'"
    and keep_same: "keep p e \<Longrightarrow> e_tables e' = e_tables e \<Longrightarrow> e_txbuf e' = e_txbuf e \<Longrightarrow> rel_to_table e' = rel_to_table e \<Longrightarrow>
      last_commit_lsn e' = last_commit_lsn e \<Longrightarrow> keep p e'"
begin

lemma round_keeps: "keep p e \<Longrightarrow> flush_round env (e, p) = Ok (e', p') \<Longrightarrow> keep p' e'"
proof -
  assume k: "keep p e" and f: "flush_round env (e, p) = Ok (e', p')"
  obtain u e1 where "flush_all env p e = (Ok u, e1, p')" "maybe_compact env e1 = Ok e'"
    using f by (auto simp: flush_round_def rbind_eq_Ok split: prod.splits sum.splits)
  then show "keep p' e'" using keep_compact [OF keep_flush [OF k]] by blast
qed

lemma full_keeps: "keep p e \<Longrightarrow> flush_if_full env cfg (e, p) = Ok (e', p') \<Longrightarrow> keep p' e'"
  using round_keeps by (auto simp: flush_if_full_def split: if_splits)

lemma applied_keep: "keep p e \<Longrightarrow> keep p (set_applied l e)"
  by (rule keep_same) simp_all

lemma reconcile_keeps:
  assumes k: "keep p e" and r: "reconcile env sql cfg (e, p) = Ok (e', p')"
  shows "keep p' e'"
proof (cases "remap_at e")
  case (Some l)
  have k0: "keep p (e\<lparr>remap_at := None\<rparr>)" by (rule keep_same [OF k]) simp_all
  obtain auto lake u where "remap_check env sql auto lake l p (e\<lparr>remap_at := None\<rparr>) = (Ok u, e', p')"
    using r Some by (auto simp: reconcile_def split: prod.splits sum.splits)
  then show ?thesis by (rule keep_remap [OF k0])
qed (use r k in \<open>simp add: reconcile_def\<close>)

end

interpretation invariant: kept_by_engine "\<lambda>p. engine_inv"
proof
  show "engine_inv e \<Longrightarrow> flush_all env p e = (Ok u, e', p') \<Longrightarrow> engine_inv e'" for p e env u e' p'
    using flush_all_inv [of e env p] by simp
  show "engine_inv e \<Longrightarrow> maybe_compact env e = Ok e' \<Longrightarrow> engine_inv e'" for e env e' by (rule maybe_compact_inv)
  show "engine_inv e \<Longrightarrow> remap_check env sql auto lake l p e = (Ok u, e', p') \<Longrightarrow> engine_inv e'" for p e env sql auto lake l u e' p'
    using remap_check_inv [of e env sql auto lake l p] by simp
  show "engine_inv e \<Longrightarrow> e_tables e' = e_tables e \<Longrightarrow> e_txbuf e' = e_txbuf e \<Longrightarrow> rel_to_table e' = rel_to_table e \<Longrightarrow>
      last_commit_lsn e' = last_commit_lsn e \<Longrightarrow> engine_inv e'" for e e'
    by (rule iffD2 [OF engine_inv_same])
qed

definition starts :: "TxBuffer \<Rightarrow> lsn set" where
  "starts b = (\<lambda>tx. first_lsn (snd tx)) ` set (open_txs b)"

lemma starts_add_op: "starts (add_op x l t op b) \<subseteq> insert l (starts b)"
proof -
  let ?tx0 = "case map_of (open_txs b) x of Some tx \<Rightarrow> tx | None \<Rightarrow> \<lparr>first_lsn = l, tx_ops = [], tx_overlay = []\<rparr>"
  define tx where "tx = ?tx0\<lparr>tx_overlay := overlay_apply t op (tx_overlay ?tx0), tx_ops := tx_ops ?tx0 @ [\<lparr>po_lsn = l, po_table = t, po_op = op\<rparr>]\<rparr>"
  have a: "open_txs (add_op x l t op b) = AList.update x tx (open_txs b)" by (simp add: add_op_def tx_def Let_def)
  have "first_lsn tx \<in> insert l (starts b)"
    by (cases "map_of (open_txs b) x") (force simp: tx_def starts_def dest: map_of_SomeD)+
  moreover have "y = (x, tx) \<or> y \<in> set (open_txs b)" if "y \<in> set (open_txs (add_op x l t op b))" for y
    using that set_update_subset [of x tx "open_txs b"] unfolding a by blast
  ultimately show ?thesis unfolding starts_def by (smt (verit) image_iff insert_iff snd_conv subsetI)
qed

lemma starts_fold: "starts (fold (\<lambda>(t, op). add_op x l t op) cs b) \<subseteq> insert l (starts b)"
proof (induction cs arbitrary: b)
  case (Cons c cs)
  obtain t op where c: "c = (t, op)" by (cases c)
  show ?case using Cons [of "add_op x l t op b"] starts_add_op [of x l t op b] by (auto simp: c)
qed auto

lemma starts_commit: "tx_commit x subs b = (ops, b') \<Longrightarrow> starts b' \<subseteq> starts b"
proof -
  assume c: "tx_commit x subs b = (ops, b')"
  obtain o1 txs where r: "remove_txs (x # subs) (open_txs b) = (o1, txs)" by fastforce
  then have "open_txs b' = txs" using c by (auto simp: tx_commit_def simp del: remove_txs.simps)
  then show ?thesis using remove_txs_buffered [OF r] by (auto simp: starts_def)
qed

lemma starts_abort: "starts (snd (tx_abort x subs b)) \<subseteq> starts b"
proof -
  obtain o1 txs where r: "remove_txs (x # subs) (open_txs b) = (o1, txs)" by fastforce
  then show ?thesis using remove_txs_buffered [OF r] by (auto simp: tx_abort_def starts_def simp del: remove_txs.simps)
qed

lemma oldest_first_lsn_least:
  "oldest_first_lsn b = Some l \<Longrightarrow> l \<in> starts b \<and> (\<forall>s \<in> starts b. l \<le> s)"
  "oldest_first_lsn b = None \<Longrightarrow> starts b = {}"
proof -
  have m: "oldest_first_lsn b = (if open_txs b = [] then None else Some (Min (starts b)))"
    by (auto simp: oldest_first_lsn_def starts_def min_list_opt_Some)
  have fin: "finite (starts b)" "starts b = {} \<longleftrightarrow> open_txs b = []" by (auto simp: starts_def)
  show "oldest_first_lsn b = None \<Longrightarrow> starts b = {}" using m fin(2) by (simp split: if_splits)
  assume "oldest_first_lsn b = Some l"
  then have "l = Min (starts b)" "starts b \<noteq> {}" using m fin(2) by (simp_all split: if_splits)
  then show "l \<in> starts b \<and> (\<forall>s \<in> starts b. l \<le> s)" using Min_in [OF fin(1)] Min_le [OF fin(1)] by simp
qed

text \<open>
  \<open>hi\<close> is the last record handled, \<open>fr\<close> the position the stream was resumed at. An open transaction
  starts at or after \<open>p\<close>, unless it started before the stream was resumed.
\<close>

definition retains :: "lsn \<Rightarrow> lsn \<Rightarrow> lsn \<Rightarrow> ('d, 'c) Engine \<Rightarrow> bool" where
  "retains fr hi p e \<longleftrightarrow> p \<le> max hi fr \<and> last_commit_lsn e \<le> max hi fr \<and>
     (\<forall>s \<in> starts (e_txbuf e). s \<le> hi \<and> (p \<le> s \<or> s < fr))"

definition kept :: "lsn \<Rightarrow> lsn \<Rightarrow> lsn \<Rightarrow> ('d, 'c) Engine \<Rightarrow> bool" where
  "kept fr hi p e \<longleftrightarrow> engine_inv e \<and> retains fr hi p e"

lemma retains_grow:
  assumes "retains fr hi p e" "hi \<le> l" "starts (e_txbuf e') \<subseteq> insert l (starts (e_txbuf e))"
    and "last_commit_lsn e' = last_commit_lsn e \<or> last_commit_lsn e' = l"
  shows "retains fr l p e'"
proof -
  have "s \<le> l \<and> (p \<le> s \<or> s < fr)" if "s \<in> starts (e_txbuf e')" for s
    using that assms(1-3) by (cases "s = l") (fastforce simp: retains_def)+
  then show ?thesis using assms by (auto simp: retains_def)
qed

lemma handle_commit_kept:
  assumes "kept fr hi p e" "hi \<le> l" "handle_commit env l x subs e = Ok e'"
  shows "kept fr l p e'"
proof -
  obtain ops b' em where c: "tx_commit x subs (e_txbuf e) = (ops, b')" "e_txbuf e' = b'" "last_commit_lsn e' = l"
    using handle_commit_Ok [OF assms(3)] by metis
  have "retains fr l p e'" using assms(1) starts_commit [OF c(1)] c
    by (intro retains_grow [OF _ assms(2), where e = e]) (auto simp: kept_def)
  then show ?thesis using handle_commit_inv [of e env l x subs] assms by (auto simp: kept_def)
qed

lemma handle_abort_kept: "kept fr hi p e \<Longrightarrow> hi \<le> l \<Longrightarrow> kept fr l p (handle_abort l x subs e)"
  using handle_abort_inv [of e l x subs] starts_abort [of x subs "e_txbuf e"]
    retains_grow [of fr hi p e l "handle_abort l x subs e"] by (auto simp: kept_def handle_abort_def)

lemma handle_record_kept:
  assumes k: "kept fr hi p e" and l: "hi \<le> l" and h: "handle_record env l bs e = Ok e'"
  shows "kept fr l p e'"
proof -
  have rt: "routed e" using k by (simp add: kept_def engine_inv_def)
  have buf: "kept fr l p e'" if b: "buffers l x cs e e'" for x cs
  proof -
    have "starts (e_txbuf e') \<subseteq> insert l (starts (e_txbuf e))" using b starts_fold [of x l cs "e_txbuf e"] by (simp add: buffers_def)
    then have "retains fr l p e'" using k b by (intro retains_grow [OF _ l, where e = e]) (auto simp: kept_def buffers_def)
    then show ?thesis using buffers_inv [OF b] k by (simp add: kept_def)
  qed
  show ?thesis using handle_record_event [OF rt h] buf handle_commit_kept [OF k l] handle_abort_kept [OF k l] by blast
qed

text \<open>Records come in the order of their positions, from \<open>hi\<close> on.\<close>

definition in_order :: "lsn \<Rightarrow> lsn list \<Rightarrow> bool" where
  "in_order hi ls \<longleftrightarrow> sorted (hi # ls)"

lemma handle_records_kept:
  assumes "kept fr hi p e" "in_order hi (map fst recs)" "handle_records env recs e = Ok e'"
  shows "kept fr (last (hi # map fst recs)) p e'"
  using assms
proof (induction recs arbitrary: hi e)
  case Nil
  then show ?case by (simp add: handle_records_def)
next
  case (Cons r recs)
  obtain l bs where r: "r = (l, bs)" by (cases r)
  obtain e1 where e1: "handle_record env l bs e = Ok e1" "handle_records env recs e1 = Ok e'"
    using Cons.prems(3) by (auto simp: handle_records_def r rbind_eq_Ok)
  have "kept fr l p e1" using handle_record_kept [OF Cons.prems(1) _ e1(1)] Cons.prems(2) by (simp add: in_order_def r)
  from Cons.IH [OF this _ e1(2)] Cons.prems(2) show ?case by (simp add: in_order_def r)
qed

lemma flush_all_kept:
  assumes k: "kept fr hi p e" and f: "flush_all env p e = (Ok u, e', p')"
  shows "kept fr hi p' e'"
proof -
  have same: "e_txbuf e' = e_txbuf e" "last_commit_lsn e' = last_commit_lsn e" "p' = p \<or> p' = restart_lsn e"
    using f by (auto simp: flush_all_def Let_def split: if_splits prod.splits)
  have "retains fr hi (restart_lsn e) e"
  proof (cases "oldest_first_lsn (e_txbuf e)")
    case None
    then show ?thesis using k oldest_first_lsn_least(2) [OF None] by (simp add: kept_def retains_def restart_lsn_def)
  next
    case (Some l)
    then show ?thesis using k oldest_first_lsn_least(1) [OF Some] by (fastforce simp: kept_def retains_def restart_lsn_def)
  qed
  then have "retains fr hi p' e'" using same k by (auto simp: kept_def retains_def)
  then show ?thesis using flush_all_inv [of e env p] k f by (simp add: kept_def)
qed

lemma kept_same:
  "kept fr hi p e \<Longrightarrow> e_tables e' = e_tables e \<Longrightarrow> e_txbuf e' = e_txbuf e \<Longrightarrow> rel_to_table e' = rel_to_table e \<Longrightarrow>
   last_commit_lsn e' = last_commit_lsn e \<Longrightarrow> kept fr hi p e'"
  using engine_inv_same [of e' e] by (simp add: kept_def retains_def)

lemma remap_check_buffer:
  assumes "remap_check env sql auto lake l p e = (Ok u, e', p')"
  obtains u' e1 where "flush_all env p e = (Ok u', e1, p')" "e_txbuf e' = e_txbuf e1" "last_commit_lsn e' = last_commit_lsn e1"
proof -
  obtain o1 e1 p1 where f: "flush_all env p e = (o1, e1, p1)" by (metis surj_pair)
  obtain u' where o1: "o1 = Ok u'" using assms by (cases o1) (auto simp: remap_check_def f)
  define e2 where "e2 = (case sql_catalog sql of Inr ns \<Rightarrow> e1\<lparr>catalog_rels := set ns\<rparr> | Inl _ \<Rightarrow> e1)"
  have e2: "e_txbuf e2 = e_txbuf e1" "last_commit_lsn e2 = last_commit_lsn e1" by (simp_all add: e2_def split: sum.split)
  obtain ts ch where e': "\<exists>failed ch'. e' = (if ch' then rebuild_routing (e2\<lparr>e_tables := ts, attach_failed := failed\<rparr>)
      else e2\<lparr>e_tables := ts, attach_failed := failed\<rparr>)" "p' = p1"
    using assms unfolding remap_check_def f o1 prod.case sum.case Let_def e2_def [symmetric]
    by (auto split: prod.splits sum.splits)
  have "e_txbuf e' = e_txbuf e1" "last_commit_lsn e' = last_commit_lsn e1" using e' e2 by (auto simp: rebuild_routing_def)
  then show thesis using that f o1 e'(2) by simp
qed

lemma maybe_compact_kept:
  assumes k: "kept fr hi p e" and c: "maybe_compact env e = Ok e'"
  shows "kept fr hi p e'"
proof -
  have "e_txbuf e' = e_txbuf e \<and> last_commit_lsn e' = last_commit_lsn e"
    using c by (auto simp: maybe_compact_def rbind_eq_Ok split: if_splits)
  then show ?thesis using maybe_compact_inv [OF _ c] k by (simp add: kept_def retains_def)
qed

lemma remap_check_kept:
  assumes k: "kept fr hi p e" and c: "remap_check env sql auto lake l p e = (Ok u, e', p')"
  shows "kept fr hi p' e'"
proof -
  obtain u' e1 where f: "flush_all env p e = (Ok u', e1, p')" "e_txbuf e' = e_txbuf e1" "last_commit_lsn e' = last_commit_lsn e1"
    by (rule remap_check_buffer [OF c])
  have "kept fr hi p' e1" by (rule flush_all_kept [OF k f(1)])
  moreover have "engine_inv e'" using remap_check_inv [of e env sql auto lake l p] k c by (simp add: kept_def)
  ultimately show ?thesis using f by (simp add: kept_def retains_def)
qed

interpretation retained: kept_by_engine "kept fr hi" for fr hi
  using flush_all_kept maybe_compact_kept remap_check_kept kept_same by unfold_locales blast+

section \<open>The embedded driver keeps the engine's invariant\<close>

lemma resnapshot_batch: "batch_ok t \<Longrightarrow> resnapshot env sql t = Ok t' \<Longrightarrow> batch_ok t'"
  using remap_table_batch [of t env sql "dedupe_below t + 1" "rel_node (t_desc t)" "dedupe_below t"]
  by (auto simp: resnapshot_def split: prod.splits sum.splits)

lemma rmap_tables_inv:
  assumes "engine_inv e" "rmap f (e_tables e) = Ok ts" "\<And>t t'. batch_ok t \<Longrightarrow> f t = Ok t' \<Longrightarrow> batch_ok t'"
  shows "engine_inv (e\<lparr>e_tables := ts\<rparr>)"
proof -
  have "length ts = length (e_tables e)" "\<forall>i < length ts. f (e_tables e ! i) = Ok (ts ! i)" using assms(2) by (simp_all add: rmap_nth_iff)
  moreover from this have "list_all batch_ok ts" using assms(1,3) by (auto simp: engine_inv_def list_all_length)
  ultimately show ?thesis using engine_inv_tables [OF assms(1), of ts "e\<lparr>e_tables := ts\<rparr>"] by simp
qed

lemma gap_check_inv: "engine_inv e \<Longrightarrow> gap_check env sql first e = Ok e' \<Longrightarrow> engine_inv e'"
  using rmap_tables_inv resnapshot_batch unfolding gap_check_def rbind_eq_Ok by (fastforce split: if_splits)

lemma resnapshot_all_inv: "engine_inv e \<Longrightarrow> resnapshot_all env sql e = Ok e' \<Longrightarrow> engine_inv e'"
  using rmap_tables_inv resnapshot_batch unfolding resnapshot_all_def rbind_eq_Ok by fastforce

lemma embed_event_inv:
  assumes inv: "engine_inv e" and ev: "embed_event env sql ev e = Ok e'"
  shows "engine_inv e'"
proof (cases ev)
  case (SrcRaw l bs)
  then obtain e1 where "handle_record env l bs e = Ok e1" "e' = set_applied l e1" using ev by (auto simp: rbind_eq_Ok)
  then show ?thesis using handle_record_inv [OF inv] engine_inv_same [of e' e1] by auto
next
  case (SrcCommit l x subs)
  then obtain e1 where "handle_commit env l x subs e = Ok e1" "e' = set_applied l e1" using ev by (auto simp: rbind_eq_Ok)
  then show ?thesis using handle_commit_inv [OF inv, of env l x subs] engine_inv_same [of e' e1] by auto
next
  case (SrcAbort l x subs)
  then show ?thesis using ev handle_abort_inv [OF inv] by auto
next
  case (SrcSmgrCreate x d)
  then show ?thesis using ev inv engine_inv_same [of e' e] by (auto simp: handle_smgr_create_def)
next
  case (SrcProgress l)
  then show ?thesis using ev inv engine_inv_same [of e' e] by auto
next
  case (SrcLost n)
  have "engine_inv (e\<lparr>e_txbuf := txbuf_default, e_toast := toast_default, smgr_suspects := {}\<rparr>)"
    using inv by (simp add: engine_inv_def routed_def buffered_def txbuf_default_def)
  then show ?thesis using resnapshot_all_inv ev SrcLost by simp blast
qed

lemma embed_recv_inv:
  assumes inv: "engine_inv (em_engine d)" and r: "embed_recv env sql cfg ev d = Ok d'"
  shows "engine_inv (em_engine d')"
proof -
  let ?g = "case (stream_start d, source_lsn ev) of
              (None, Some first) \<Rightarrow> rbind (gap_check env sql first (em_engine d)) (\<lambda>e. Ok (e, Some first))
            | _ \<Rightarrow> Ok (em_engine d, stream_start d)"
  obtain g where "?g = Ok g" using r unfolding embed_recv_def rbind_eq_Ok by (elim exE conjE)
  then obtain e st where g: "?g = Ok (e, st)" by (cases g) simp
  then have e: "engine_inv e" using inv gap_check_inv by (auto simp: rbind_eq_Ok split: option.splits)
  note r1 = r [unfolded embed_recv_def, unfolded g, unfolded rbind.simps prod.case]
  obtain e1 where s1: "embed_event env sql ev e = Ok e1" using r1 unfolding rbind_eq_Ok by (elim exE conjE)
  obtain ep where "reconcile env sql cfg (e1, em_persisted d) = Ok ep"
    using r1 unfolding rbind.simps prod.case s1 rbind_eq_Ok by (elim exE conjE)
  then obtain e2 p2 where s2: "reconcile env sql cfg (e1, em_persisted d) = Ok (e2, p2)" by (cases ep) simp
  obtain ep where "flush_if_full env cfg (e2, p2) = Ok ep"
    using r1 unfolding rbind.simps prod.case s1 s2 rbind_eq_Ok by (elim exE conjE)
  then obtain e3 p3 where s3: "flush_if_full env cfg (e2, p2) = Ok (e3, p3)" by (cases ep) simp
  have s4: "d' = \<lparr>em_engine = e3, em_persisted = p3, stream_start = st\<rparr>"
    using r1 unfolding rbind.simps prod.case s1 s2 s3 by simp
  have "engine_inv e2" using invariant.reconcile_keeps [OF embed_event_inv [OF e s1] s2] .
  then have "engine_inv e3" using s3 by (rule invariant.full_keeps)
  then show ?thesis by (simp add: s4)
qed

inductive embed_reach :: "('d, 'c) Embed \<Rightarrow> bool" where
  embed_starts: "embed_start (env :: ('d, 'c) Env) sql cfg neon_tt descs = Ok d \<Longrightarrow> embed_reach d"
| embed_receives: "embed_reach d \<Longrightarrow> embed_recv env sql cfg ev d = Ok d' \<Longrightarrow> embed_reach d'"
| embed_ticks: "embed_reach d \<Longrightarrow> embed_tick env cfg d = Ok d' \<Longrightarrow> embed_reach d'"

lemma embed_reach_inv: "embed_reach d \<Longrightarrow> engine_inv (em_engine d)"
proof (induction rule: embed_reach.induct)
  case (embed_starts env sql cfg neon_tt descs d)
  then obtain ds ts0 ts cands n fr where b: "open_tables env (cfg_auto cfg) (cfg_lake cfg) ds = Ok ts0"
    "resume_tables env sql (cfg_snapshot cfg) n ts0 = Ok (ts, cands)"
    "build_engine sql (cfg_tail_retain cfg) (cfg_tail_max_rows cfg) (cfg_compact_rows cfg) (cfg_vacuum_after cfg) n ts tail_default fr = Ok (em_engine d)"
    unfolding embed_start_def Let_def rbind_eq_Ok by (elim exE conjE) (auto simp: rbind_eq_Ok)
  then show ?case by (rule build_engine_inv)
next
  case (embed_receives d env sql cfg ev d')
  then show ?case using embed_recv_inv by blast
next
  case (embed_ticks d env cfg d')
  then show ?case using invariant.round_keeps by (auto simp: embed_tick_def rbind_eq_Ok split: if_splits)
qed

section \<open>The standalone driver\<close>

text \<open>The positions of the records a step hands to the engine.\<close>

definition step_records :: "ready \<Rightarrow> ('d, 'c) Main \<Rightarrow> lsn list" where
  "step_records rdy m = (case (rdy, next_msg (m_conn m)) of
       (Message, Inr (ReplXLogData x, _)) \<Rightarrow>
         (case snd (Walreader.feed (m_reader m) (unat (start_lsn x)) (xlog x)) of Inr recs \<Rightarrow> map fst recs | Inl _ \<Rightarrow> [])
     | _ \<Rightarrow> [])"

inductive main_reach :: "lsn \<Rightarrow> lsn \<Rightarrow> ('d, 'c) Main \<Rightarrow> bool" where
  main_starts: "main_start env sql cfg src descs tcp user = Ok m \<Longrightarrow> main_reach (persisted_restart m) (last_recv_lsn m) m"
| main_steps: "main_reach fr hi m \<Longrightarrow> main_step env sql cfg clock rdy m = Ok m' \<Longrightarrow> in_order hi (step_records rdy m) \<Longrightarrow>
    main_reach fr (last (hi # step_records rdy m)) m'"

lemma build_engine_last:
  "build_engine sql a b c d n ts t l = Ok e \<Longrightarrow> last_commit_lsn e = l \<and> e_txbuf e = txbuf_default"
  by (auto simp: build_engine_def rbind_eq_Ok rebuild_routing_def split: list.splits)

lemma main_start_kept:
  assumes "main_start env sql cfg src descs tcp user = Ok m"
  shows "kept (persisted_restart m) (last_recv_lsn m) (persisted_restart m) (m_engine m)"
proof -
  obtain ds ts0 ts cands n fr where b: "open_tables env (cfg_auto cfg) (cfg_lake cfg) ds = Ok ts0"
    "resume_tables env sql (cfg_snapshot cfg) n ts0 = Ok (ts, cands)"
    "build_engine sql (cfg_tail_retain cfg) (cfg_tail_max_rows cfg) (cfg_compact_rows cfg) (cfg_vacuum_after cfg) n ts tail_default fr = Ok (m_engine m)"
    "persisted_restart m = fr"
    using assms unfolding main_start_def Let_def rbind_eq_Ok by (elim exE conjE) (auto simp: rbind_eq_Ok)
  show ?thesis using build_engine_inv [OF b(1-3)] build_engine_last [OF b(3)] b(4)
    by (simp add: kept_def retains_def starts_def txbuf_default_def)
qed

lemma main_status_keeps: "main_status clock m = Ok m' \<Longrightarrow> m_engine m' = m_engine m \<and> persisted_restart m' = persisted_restart m"
  by (auto simp: main_status_def rbind_eq_Ok)

lemma main_xlog_data_kept:
  assumes k: "kept fr hi (persisted_restart m) (m_engine m)" and x: "main_xlog_data env sql cfg x m = Ok m'"
    and f: "Walreader.feed (m_reader m) (unat (start_lsn x)) (xlog x) = (rd, Ok recs)" and o: "in_order hi (map fst recs)"
  shows "kept fr (last (hi # map fst recs)) (persisted_restart m') (m_engine m')"
proof -
  let ?recv = "max (unat (wal_end x)) (last_recv_lsn m)"
  obtain e e1 p1 e2 p2 where s: "handle_records env recs (m_engine m) = Ok e" "reconcile env sql cfg (e, persisted_restart m) = Ok (e1, p1)"
    "flush_if_full env cfg (set_applied ?recv e1, p1) = Ok (e2, p2)" "m_engine m' = e2" "persisted_restart m' = p2"
    using x by (auto simp: main_xlog_data_def Let_def f rbind_eq_Ok)
  have "kept fr (last (hi # map fst recs)) p1 e1" by (rule retained.reconcile_keeps [OF handle_records_kept [OF k o s(1)] s(2)])
  then have "kept fr (last (hi # map fst recs)) p1 (set_applied ?recv e1)" by (rule retained.applied_keep)
  from retained.full_keeps [OF this s(3)] show ?thesis by (simp add: s)
qed

lemma main_step_kept:
  assumes k: "kept fr hi (persisted_restart m) (m_engine m)" and st: "main_step env sql cfg clock rdy m = Ok m'"
    and o: "in_order hi (step_records rdy m)"
  shows "kept fr (last (hi # step_records rdy m)) (persisted_restart m') (m_engine m')"
proof (cases rdy)
  case Message
  obtain msg c where n: "next_msg (m_conn m) = Ok (msg, c)" using st Message by (auto simp: main_step_def rbind_eq_Ok)
  show ?thesis
  proof (cases msg)
    case (ReplXLogData x)
    have x: "main_xlog_data env sql cfg x (m\<lparr>m_conn := c\<rparr>) = Ok m'" using st Message n ReplXLogData by (simp add: main_step_def)
    then obtain rd recs where f: "Walreader.feed (m_reader m) (unat (start_lsn x)) (xlog x) = (rd, Ok recs)"
      by (auto simp: main_xlog_data_def Let_def split: prod.splits sum.splits)
    have "step_records rdy m = map fst recs" using Message n ReplXLogData f by (simp add: step_records_def)
    then show ?thesis using main_xlog_data_kept [of fr hi "m\<lparr>m_conn := c\<rparr>", OF _ x] k f o by simp
  next
    case (Keepalive w reply)
    let ?m = "m\<lparr>m_conn := c, last_recv_lsn := max (unat w) (last_recv_lsn m), m_engine := set_applied (max (unat w) (last_recv_lsn m)) (m_engine m)\<rparr>"
    have "(if reply then main_status clock ?m else Ok ?m) = Ok m'"
      using st Message n Keepalive by (simp add: main_step_def main_keepalive_def Let_def)
    then have "m_engine m' = m_engine ?m" "persisted_restart m' = persisted_restart m"
      using main_status_keeps [of clock ?m m'] by (auto split: if_splits)
    moreover have "kept fr hi (persisted_restart m) (m_engine ?m)" using retained.applied_keep [OF k] by simp
    ultimately show ?thesis using Message n Keepalive by (simp add: step_records_def)
  qed
next
  case FlushTick
  have r: "step_records rdy m = []" by (simp add: step_records_def FlushTick)
  show ?thesis
  proof (cases "batch_is_old env cfg (m_engine m)")
    case True
    obtain e p where f: "flush_round env (m_engine m, persisted_restart m) = Ok (e, p)"
      "main_status clock (m\<lparr>m_engine := e, persisted_restart := p\<rparr>) = Ok m'"
      using st True FlushTick by (auto simp: main_step_def rbind_eq_Ok)
    then show ?thesis using retained.round_keeps [OF k f(1)] main_status_keeps [OF f(2)] r by simp
  qed (use st k r FlushTick in \<open>simp add: main_step_def\<close>)
next
  case StatusTick
  then show ?thesis using st k main_status_keeps [of clock m m'] by (simp add: main_step_def step_records_def)
qed

lemma main_reach_kept: "main_reach fr hi m \<Longrightarrow> kept fr hi (persisted_restart m) (m_engine m)"
proof (induction rule: main_reach.induct)
  case (main_starts env sql cfg src descs tcp user m)
  then show ?case by (rule main_start_kept)
next
  case (main_steps fr hi m env sql cfg clock rdy m')
  then show ?case using main_step_kept by blast
qed

definition status_frame :: "nat option \<Rightarrow> lsn \<Rightarrow> lsn \<Rightarrow> bytes" where
  "status_frame clock received flushed =
     frame 100 ([114] @ to_be (word_of_nat received :: u64) @ to_be (word_of_nat flushed :: u64) @ to_be (word_of_nat flushed :: u64) @
       to_be (now_pg_micros clock) @ [0])"

lemma main_status_frame:
  "main_status clock m = Ok m' \<Longrightarrow>
   outbox (m_conn m') = outbox (m_conn m) @ status_frame clock (last_recv_lsn m) (persisted_restart m)"
  by (auto simp: main_status_def rbind_eq_Ok send_status_def write_all_def status_frame_def frame_def split: list.splits option.splits)

text \<open>
  C4 (safety): the server keeps what a restart needs for open transactions. In every state of the standalone driver
  that is reached from a startup with records in the order of their positions, a status update tells the server to
  keep the WAL from the persisted restart position on, and every open transaction starts at or after that
  position, unless it already started before the position the stream was resumed at. The engine's invariant
  holds there, so the next commit is applied.
\<close>

theorem reported_position_keeps_open_transactions:
  assumes "main_reach fr hi m"
  shows "(\<forall>tx \<in> set (open_txs (e_txbuf (m_engine m))). persisted_restart m \<le> first_lsn (snd tx) \<or> first_lsn (snd tx) < fr) \<and>
     (main_status clock m = Ok m' \<longrightarrow>
        outbox (m_conn m') = outbox (m_conn m) @ status_frame clock (last_recv_lsn m) (persisted_restart m)) \<and>
     (\<exists>e'. handle_commit env l x subs (m_engine m) = Ok e')"
proof -
  have k: "kept fr hi (persisted_restart m) (m_engine m)" using assms by (rule main_reach_kept)
  then have "\<forall>tx \<in> set (open_txs (e_txbuf (m_engine m))). persisted_restart m \<le> first_lsn (snd tx) \<or> first_lsn (snd tx) < fr"
    by (auto simp: kept_def retains_def starts_def)
  moreover have "\<exists>e'. handle_commit env l x subs (m_engine m) = Ok e'" using handle_commit_inv [of "m_engine m" env l x subs] k by (auto simp: kept_def)
  ultimately show ?thesis using main_status_frame by blast
qed

text \<open>
  A flush writes nothing for a table without pending rows, so the restart position in its log stays behind
  the one the flush reports.
\<close>

lemma flush_skips_idle_tables:
  assumes "flush_all env p e = (Ok u, e', p')" "ti < length (e_tables e)" "pb_rows (Table.pending (e_tables e ! ti)) = []"
  shows "e_tables e' ! ti = e_tables e ! ti"
proof (cases "pending_total e = 0")
  case False
  then obtain ts tail1 where ft: "flush_tables env (restart_lsn e) (tail_retain e) (tail_max_rows e) (e_tables e) (e_tail e) = (Ok u, ts, tail1)"
    "e' = e\<lparr>e_tables := ts, e_tail := tail1\<rparr>"
    using assms(1) by (auto simp: flush_all_def Let_def split: prod.splits)
  from flush_tables_Ok [OF ft(1)] assms(2) obtain a b where
    "flush_table env (restart_lsn e) (tail_retain e) (tail_max_rows e) (e_tables e ! ti) a = (Ok (), ts ! ti, b)"
    by (auto simp: list_all2_conv_all_nth)
  then show ?thesis using assms(3) ft(2) by (simp add: flush_table_def)
qed (use assms in \<open>simp add: flush_all_def\<close>)

section \<open>A startup\<close>

lemma read_one:
  "small p \<Longrightarrow> read_msg \<lparr>inbox = Inr (frame t p) # inb, rbuf = [], outbox = ob, writes = ws, reqid = q\<rparr> =
     Ok ((t, p), \<lparr>inbox = inb, rbuf = [], outbox = ob, writes = ws, reqid = q\<rparr>)"
proof -
  assume s: "small p"
  have "take_frame [] = Ok None" "frame t p \<noteq> []" by (simp_all add: take_frame_def frame_def)
  moreover have "take_frame (frame t p) = Ok (Some ((t, p), []))" using take_frame_complete [OF s, of t "[]"] by simp
  ultimately show ?thesis by (cases inb) (simp_all add: read_msg_def)
qed

definition identify_row :: bytes where
  "identify_row = to_be (3 :: u16) @ to_be (- 1 :: i32) @ to_be (1 :: i32) @ as_bytes ''1'' @ to_be (4 :: i32) @ as_bytes ''0/10''"

definition notes_tcp :: "(bytes result list \<times> error option list) result" where
  "notes_tcp = Ok ([Inr (frame 82 (to_be (0 :: u32))), Inr (frame 90 []), Inr (frame 68 identify_row), Inr (frame 90 []), Inr (frame 87 [])], [])"

lemma buf_get_append: "n = length x \<Longrightarrow> buf_get n (x @ r) = Ok (x, r)"
  by (simp add: buf_get_def)

lemma get_be_append: "get_be 4 (to_be (w :: u32) @ r) = Ok (w, r)" "get_be 2 (to_be (v :: u16) @ r) = Ok (v, r)"
  by (simp_all add: get_be_def buf_get_append)

lemma data_fields_some:
  "sint (n :: i32) = int (length b) \<Longrightarrow> unat n = length b \<Longrightarrow> data_fields k r = Ok fs \<Longrightarrow>
   data_fields (Suc k) (to_be n @ b @ r) = Ok (Some (from_utf8_lossy b) # fs)"
  by (simp add: get_be_append buf_get_append)

lemma identify_row_parsed: "parse_data_row identify_row = Ok [None, Some ''1'', Some ''0/10'']"
proof -
  have t: "from_utf8_lossy (as_bytes ''1'') = ''1''" "from_utf8_lossy (as_bytes ''0/10'') = ''0/10''" by (rule ascii_lossy; simp)+
  have l: "length (as_bytes s) = length s" for s by (simp add: as_bytes_def)
  have "data_fields (Suc 0) (to_be (4 :: i32) @ as_bytes ''0/10'' @ []) = Ok [Some (from_utf8_lossy (as_bytes ''0/10''))]"
    by (rule data_fields_some) (simp_all add: l)
  then have "data_fields (Suc (Suc 0)) (to_be (1 :: i32) @ as_bytes ''1'' @ to_be (4 :: i32) @ as_bytes ''0/10'') =
      Ok [Some (from_utf8_lossy (as_bytes ''1'')), Some (from_utf8_lossy (as_bytes ''0/10''))]"
    by (intro data_fields_some) (simp_all add: l)
  then have "data_fields (Suc (Suc (Suc 0))) (to_be (- 1 :: i32) @ to_be (1 :: i32) @ as_bytes ''1'' @ to_be (4 :: i32) @ as_bytes ''0/10'') =
      Ok [None, Some ''1'', Some ''0/10'']"
    by (subst data_fields.simps) (simp add: get_be_append t del: data_fields.simps)
  moreover have "unat (3 :: u16) = Suc (Suc (Suc 0))" by simp
  ultimately show ?thesis by (simp only: parse_data_row_def identify_row_def get_be_append rbind.simps prod.case)
qed

lemma identify_row_lsn: "parse_lsn ''0/10'' = Ok 16" "from_str_radix 10 ''1'' = Ok (1 :: u32)"
  by (simp_all add: parse_lsn_def split_at_def from_str_radix_def to_digit_def Let_def)

lemma small_rows: "small identify_row" "small []" "small (to_be (0 :: u32))"
  by (simp_all add: small_def identify_row_def as_bytes_def)

definition notes_cfg :: DriverCfg where
  "notes_cfg = \<lparr>flush_rows = 100, flush_interval = 750, cfg_auto = True, cfg_lake = ''lake'', cfg_snapshot = True, ps_enabled = False,
     cfg_tail_retain = 100, cfg_tail_max_rows = 1000, cfg_compact_rows = 0, cfg_vacuum_after = None\<rparr>"

lemma notes_wire:
  "\<exists>ob. attach_stream (SafekeeperSource (Ok (''t'', ''l'')) None) notes_tcp ''u'' =
     Ok (\<lparr>inbox = [Inr (frame 68 identify_row), Inr (frame 90 []), Inr (frame 87 [])], rbuf = [], outbox = ob, writes = [], reqid = 0\<rparr>,
         None, Some (''t'', ''l''))"
  by (simp add: attach_stream_def notes_tcp_def repl_connect_def new_conn_def send_startup_def Let_def write_all_def await_ready_def
      msg_loop.simps read_one small_rows ready_arms_def get_be_def buf_get_def)

lemma notes_identified:
  "\<exists>ob'. identify_system \<lparr>inbox = [Inr (frame 68 identify_row), Inr (frame 90 []), Inr (frame 87 [])], rbuf = [], outbox = ob, writes = [], reqid = 0\<rparr> =
     Ok ((1, 16), \<lparr>inbox = [Inr (frame 87 [])], rbuf = [], outbox = ob', writes = [], reqid = 0\<rparr>)"
  by (simp add: identify_system_def send_query_def write_all_def msg_loop.simps read_one small_rows row_arms_def identify_row_parsed
      identify_row_lsn get_def)

lemma notes_streaming:
  "\<exists>c. start_stream (SafekeeperSource ids tok) l tli \<lparr>inbox = [Inr (frame 87 [])], rbuf = [], outbox = ob, writes = [], reqid = 0\<rparr> = Ok ((), c) \<and> writes c = []"
  by (simp add: start_stream_def start_replication_safekeeper_def send_query_def write_all_def await_copy_both_def msg_loop.simps
      read_one small_rows copy_both_arms_def)

lemma notes_main:
  "\<exists>m. main_start (notes_env 0) notes_sql notes_cfg (SafekeeperSource (Ok (''t'', ''l'')) None) (Ok [notes_desc]) notes_tcp ''u'' = Ok m \<and>
     persisted_restart m = 5 \<and> last_recv_lsn m = 0 \<and> writes (m_conn m) = []"
proof -
  obtain ob where a: "attach_stream (SafekeeperSource (Ok (''t'', ''l'')) None) notes_tcp ''u'' =
     Ok (\<lparr>inbox = [Inr (frame 68 identify_row), Inr (frame 90 []), Inr (frame 87 [])], rbuf = [], outbox = ob, writes = [], reqid = 0\<rparr>,
         None, Some (''t'', ''l''))" using notes_wire by blast
  obtain ob' where i: "identify_system \<lparr>inbox = [Inr (frame 68 identify_row), Inr (frame 90 []), Inr (frame 87 [])], rbuf = [], outbox = ob, writes = [], reqid = 0\<rparr> =
     Ok ((1, 16), \<lparr>inbox = [Inr (frame 87 [])], rbuf = [], outbox = ob', writes = [], reqid = 0\<rparr>)" using notes_identified by blast
  obtain c where s: "start_stream (SafekeeperSource (Ok (''t'', ''l'')) None) 0 (show_nat 1)
      \<lparr>inbox = [Inr (frame 87 [])], rbuf = [], outbox = ob', writes = [], reqid = 0\<rparr> = Ok ((), c)" "writes c = []" using notes_streaming by blast
  obtain e :: "(mem_table, unit) Engine" where e: "build_engine notes_sql 100 1000 0 None False [(new_table notes_desc (notes_sink []))\<lparr>dedupe_below := 5\<rparr>] tail_default 5 = Ok e"
    by (simp add: build_engine_def notes_sql_def new_table_def)
  have p: "page_start 5 = 0" by (simp add: page_start_def XLOG_PAGE_SIZE_def)
  obtain rd where rd: "wal_reader_new 0 = Ok rd" by (simp add: wal_reader_new_def)
  show ?thesis
    unfolding main_start_def
    using notes_opened notes_resumed a i s e rd by (simp add: notes_cfg_def Let_def resume_from_def p)
qed

theorem reported_position_keeps_open_transactions_witness:
  "\<exists>m m' :: (mem_table, unit) Main. main_reach 5 0 m \<and> persisted_restart m = 5 \<and> main_status None m = Ok m' \<and>
     outbox (m_conn m') = outbox (m_conn m) @ status_frame None 0 5"
proof -
  obtain m where m: "main_start (notes_env 0) notes_sql notes_cfg (SafekeeperSource (Ok (''t'', ''l'')) None) (Ok [notes_desc]) notes_tcp ''u'' = Ok m"
    "persisted_restart m = 5" "last_recv_lsn m = 0" "writes (m_conn m) = []" using notes_main by blast
  have r: "main_reach 5 0 m" using main_starts [OF m(1)] m(2,3) by simp
  obtain m' where s: "main_status None m = Ok m'" by (simp add: main_status_def send_status_def write_all_def m(4))
  from reported_position_keeps_open_transactions [OF r, of None m'] s m(2,3) r show ?thesis by auto
qed

end
