(* ===== verification/Embedded.thy ===== *)
theory Embedded
  imports Driver
begin

text \<open>
  \<^verbatim>\<open>examples/embedded.rs\<close>: the harness of the embedded driver. It streams from a safekeeper and turns
  each record into the events the driver is fed with in a pageserver: transaction and storage records are
  decoded first, every other record is passed on. The channel is the list of the events sent; \<open>hung\<close> says
  that the driver has stopped receiving.
\<close>

section \<open>Translating records\<close>

definition translate :: "('d, 'c) Env \<Rightarrow> lsn \<Rightarrow> bytes \<Rightarrow> SourceEvent list result" where
  "translate env lsn bs =
     rbind (catch (parse_record (env_crc env) (env_crc_append env) bs)) (\<lambda>parsed.
       case parsed of Inl err \<Rightarrow> Ok []
       | Inr r \<Rightarrow>
           if rmid r = rmgr_XACT then
             (let op = info r AND XLOG_XACT_OPMASK in
              if op = XLOG_XACT_COMMIT \<or> op = XLOG_XACT_ABORT then
                rbind (catch (parse_xact_subxacts (info r) (main_data r))) (\<lambda>s.
                let subs = (case s of Inr subs \<Rightarrow> subs | Inl err \<Rightarrow> []) in
                Ok (if op = XLOG_XACT_COMMIT then [SrcCommit lsn (xid r) subs]
                    else if op = XLOG_XACT_ABORT then [SrcAbort lsn (xid r) subs] else []))
              else Ok [])
           else if rmid r = rmgr_SMGR then
             (if info r AND 0xF0 = XLOG_SMGR_CREATE then
                rbind (catch (parse_smgr_create (main_data r))) (\<lambda>c.
                  case c of Inr (Some (d, _)) \<Rightarrow> Ok [SrcSmgrCreate (xid r) d] | _ \<Rightarrow> Ok [])
              else Ok [])
           else Ok [SrcRaw lsn bs])"

section \<open>The harness\<close>

record Harness =
  h_conn :: ReplConn
  h_reader :: WalReader
  last_recv :: lsn
  sent :: "SourceEvent list"

definition harness_start ::
  "(string \<times> string) result \<Rightarrow> string option \<Rightarrow> (bytes result list \<times> error option list) result \<Rightarrow> string \<Rightarrow> Harness result" where
  "harness_start ids token tcp user =
     rbind ids (\<lambda>(tenant, tl0).
     rbind (repl_connect tcp user
        [(''options'', ''tenant_id='' @ tenant @ '' timeline_id='' @ tl0), (''application_name'', ''open-ltap-embedded'')] token) (\<lambda>c.
     rbind (identify_system c) (\<lambda>((_, flush_lsn), c1).
     let start = page_start (unat flush_lsn) in
     rbind (start_replication_safekeeper (word_of_nat start) c1) (\<lambda>(_, c2).
     rbind (wal_reader_new start) (\<lambda>rd.
       Ok \<lparr>h_conn = c2, h_reader = rd, last_recv = start, sent = []\<rparr>)))))"

definition send_events :: "bool \<Rightarrow> SourceEvent list \<Rightarrow> Harness \<Rightarrow> Harness result" where
  "send_events hung evs h =
     (if evs \<noteq> [] \<and> hung then Err (Bail ''driver hung up'') else Ok (h\<lparr>sent := sent h @ evs\<rparr>))"

definition harness_message :: "('d, 'c) Env \<Rightarrow> nat option \<Rightarrow> bool \<Rightarrow> ReplMsg \<Rightarrow> Harness \<Rightarrow> Harness result" where
  "harness_message env clock hung msg h = (case msg of
       ReplXLogData x \<Rightarrow>
         (let recv = max (unat (wal_end x)) (last_recv h) in
          case Walreader.feed (h_reader h) (unat (start_lsn x)) (xlog x) of
            (_, Inl err) \<Rightarrow> Err err
          | (rd, Inr recs) \<Rightarrow>
              rfold (\<lambda>(l, bs) h. rbind (translate env l bs) (\<lambda>evs. send_events hung evs h)) recs
                (h\<lparr>h_reader := rd, last_recv := recv\<rparr>))
     | Keepalive w reply \<Rightarrow>
         (let recv = max (unat w) (last_recv h) in
          rbind (send_events hung [SrcProgress recv] (h\<lparr>last_recv := recv\<rparr>)) (\<lambda>h1.
            if reply then rbind (send_status clock (word_of_nat recv) (word_of_nat recv) (h_conn h1)) (\<lambda>c. Ok (h1\<lparr>h_conn := c\<rparr>))
            else Ok h1)))"

section \<open>The driver fed with events does what it does on records\<close>

definition applies :: "SourceEvent \<Rightarrow> bool" where
  "applies ev = (case ev of SrcRaw _ _ \<Rightarrow> True | SrcCommit _ _ _ \<Rightarrow> True | _ \<Rightarrow> False)"

lemma catch_cases: "(\<And>s. m = Err (Panic s) \<Longrightarrow> P) \<Longrightarrow> (\<And>r. catch m = Ok r \<Longrightarrow> P) \<Longrightarrow> P"
  by (cases m rule: catch.cases) auto

lemma rbind_done: "rbind m (rfold f []) = m"
  by (cases m) simp_all

text \<open>
  C5 (equivalence): feeding the embedded driver the events of a record has the effect the raw record has on the
  engine, for every record: transaction and storage records decoded outside, unparseable ones dropped, all
  others passed on. Only the applied position may differ: it follows the record when an event carries it. A
  record that panics the engine panics the harness.
\<close>

theorem events_match_record:
  "(\<forall>x. translate env l bs = Err x \<longrightarrow> handle_record env l bs e = Err x) \<and>
   (\<forall>evs. translate env l bs = Ok evs \<longrightarrow>
      rfold (embed_event env sql) evs e = rbind (handle_record env l bs e) (\<lambda>e'. Ok (if list_ex applies evs then set_applied l e' else e')))"
proof -
  have mgr: "normalize_dml rmgr_XACT i = Some (rmgr_XACT, i AND XLOG_HEAP_OPMASK, Vanilla)"
    "normalize_dml rmgr_SMGR i = Some (rmgr_SMGR, i AND XLOG_HEAP_OPMASK, Vanilla)" for i
    by (simp_all add: normalize_dml_def heap_consts)
  have ne: "rmgr_XACT \<noteq> rmgr_SMGR" "rmgr_XACT \<noteq> rmgr_HEAP" "rmgr_XACT \<noteq> rmgr_HEAP2" by (simp_all add: heap_consts)
  show ?thesis
  proof (rule catch_cases [of "parse_record (env_crc env) (env_crc_append env) bs"])
    fix s assume "parse_record (env_crc env) (env_crc_append env) bs = Err (Panic s)"
    then show ?thesis by (simp add: translate_def handle_record_def)
  next
    fix p assume p: "catch (parse_record (env_crc env) (env_crc_append env) bs) = Ok p"
    show ?thesis
    proof (cases p)
      case (Inl err)
      then show ?thesis by (simp add: translate_def handle_record_def p)
    next
      case (Inr r)
      consider (xact) "rmid r = rmgr_XACT" | (smgr) "rmid r = rmgr_SMGR" | (raw) "rmid r \<noteq> rmgr_XACT" "rmid r \<noteq> rmgr_SMGR" by blast
      then show ?thesis
      proof cases
        case xact
        have h: "handle_record env l bs e = handle_xact env l r e" by (simp add: handle_record_def p Inr xact mgr ne)
        show ?thesis
          by (rule catch_cases [of "parse_xact_subxacts (info r) (main_data r)"])
            (auto simp: h translate_def p Inr xact handle_xact_def Let_def applies_def rbind_done split: if_splits)
      next
        case smgr
        show ?thesis
          by (rule catch_cases [of "parse_smgr_create (main_data r)"])
            (auto simp: handle_record_def translate_def p Inr smgr mgr ne [symmetric] applies_def rbind_done split: if_splits sum.splits option.splits)
      next
        case raw
        then show ?thesis by (simp add: translate_def p Inr applies_def rbind_done)
      qed
    qed
  qed
qed

definition commit_record :: bytes where
  "commit_record = [0, 0, 0, 0, 9, 0, 0, 0, 0, 0, 0, 0, 0, 0, 0, 0, 0, 1, 0, 0, 0, 0, 0, 0, 255, 8, 1, 2, 3, 4, 5, 6, 7, 8]"

lemma commit_translated: "translate (notes_env 0) 70 commit_record = Ok [SrcCommit 70 9 []]"
proof -
  have "parse_record (\<lambda>_. 0) (\<lambda>c _. c) commit_record = Ok \<lparr>xid = 9, rmid = 1, info = 0, blocks = [], main_data = [1, 2, 3, 4, 5, 6, 7, 8]\<rparr>"
    unfolding commit_record_def by code_simp
  moreover have "parse_xact_subxacts 0 [1, 2, 3, 4, 5, 6, 7, 8] = Ok []" by code_simp
  ultimately show ?thesis
    by (simp add: translate_def notes_env_def rmgr_XACT_def XLOG_XACT_OPMASK_def XLOG_XACT_COMMIT_def Let_def)
qed

theorem events_match_record_witness:
  "translate (notes_env 0) 70 commit_record = Ok [SrcCommit 70 9 []] \<and>
   rfold (embed_event (notes_env 0) notes_sql) [SrcCommit 70 9 []] (notes_engine 5 5) =
     rbind (handle_record (notes_env 0) 70 commit_record (notes_engine 5 5)) (\<lambda>e'. Ok (set_applied 70 e'))"
  using events_match_record [of "notes_env 0" 70 commit_record "notes_engine 5 5" notes_sql] commit_translated
  by (simp add: applies_def)

end
