(* ===== verification/Startup.thy ===== *)
theory Startup
  imports Driver
begin

text \<open>
  How the process starts: the configuration of \<^verbatim>\<open>src/engine.rs\<close> read from the environment and the
  arguments, the discovery of the tables of \<^verbatim>\<open>src/schema.rs\<close>, and the two composed with the
  standalone driver. The environment is a function from names to values, the answers of the SQL connection
  are arguments; durations are in milliseconds.
\<close>

section \<open>Configuration\<close>

type_synonym environ = "string \<Rightarrow> string option"

datatype SourceKind = Postgres | Safekeeper

record Config =
  pg_host :: string
  pg_port :: u16
  pg_user :: string
  pg_password :: string
  pg_db :: string
  c_source :: SourceKind
  sk_host :: string
  sk_port :: u16
  sk_tenant :: "string option"
  sk_timeline :: "string option"
  sk_token :: "string option"
  c_ps_enabled :: bool
  ps_host :: string
  ps_port :: u16
  ps_token :: "string option"
  c_tables :: "string list option"
  c_slot :: string
  c_lake :: string
  s3_endpoint :: string
  s3_access_key :: string
  s3_secret_key :: string
  c_flush_rows :: u64
  c_flush_interval :: nat
  c_snapshot :: bool
  http_port :: u16
  c_tail_retain :: nat
  c_compact_rows :: u64
  c_vacuum_after :: "nat option"
  c_tail_max_rows :: u64

definition env_or :: "environ \<Rightarrow> string \<Rightarrow> string \<Rightarrow> string" where
  "env_or environ key dflt = (case environ key of Some v \<Rightarrow> v | None \<Rightarrow> dflt)"

text \<open>\<^verbatim>\<open>.parse().expect(key)\<close>\<close>

definition expect_parse :: "environ \<Rightarrow> string \<Rightarrow> string \<Rightarrow> 'a::len word result" where
  "expect_parse environ key dflt =
     (case from_str_radix 10 (env_or environ key dflt) of Inr w \<Rightarrow> Ok w | Inl _ \<Rightarrow> Err (Panic key))"

definition source_kind :: "string \<Rightarrow> SourceKind result" where
  "source_kind s =
     (if s = ''postgres'' then Ok Postgres else if s = ''safekeeper'' then Ok Safekeeper
      else Err (Panic ''LTAP_SOURCE must be postgres or safekeeper''))"

definition switched_on :: "string \<Rightarrow> bool" where
  "switched_on s \<longleftrightarrow> s \<notin> {''off'', ''0'', ''false''}"

definition vacuum_setting :: "environ \<Rightarrow> nat option result" where
  "vacuum_setting environ =
     (if env_or environ ''LTAP_VACUUM_MINS'' ''1440'' = ''off'' then Ok None
      else rbind (expect_parse environ ''LTAP_VACUUM_MINS'' ''1440'') (\<lambda>v :: u64.
        if unat v * 60 < 2 ^ 64 then Ok (Some (unat v * 60 * 1000)) else Err (Panic ''attempt to multiply with overflow'')))"

definition table_list :: "string \<Rightarrow> string list" where
  "table_list l = filter (\<lambda>s. s \<noteq> []) (map trim (split_comma l))"

definition config_tables :: "environ \<Rightarrow> string list \<Rightarrow> string list" where
  "config_tables environ tabs =
     (if tabs = [] then (case environ ''LTAP_TABLES'' of Some l \<Rightarrow> table_list l | None \<Rightarrow> []) else tabs)"

definition from_env_with_tables :: "environ \<Rightarrow> string list \<Rightarrow> Config result" where
  "from_env_with_tables environ tabs =
     (let ts = config_tables environ tabs; db = env_or environ ''PG_DB'' ''app'' in
      rbind (expect_parse environ ''PG_PORT'' ''5432'') (\<lambda>pport.
      rbind (source_kind (env_or environ ''LTAP_SOURCE'' ''postgres'')) (\<lambda>src.
      rbind (expect_parse environ ''LTAP_SK_PORT'' ''5454'') (\<lambda>skport.
      rbind (expect_parse environ ''LTAP_PS_PORT'' ''6400'') (\<lambda>psport.
      rbind (expect_parse environ ''LTAP_FLUSH_ROWS'' ''5000'') (\<lambda>frows.
      rbind (expect_parse environ ''LTAP_FLUSH_MS'' ''750'') (\<lambda>fms :: u64.
      rbind (expect_parse environ ''LTAP_HTTP_PORT'' ''8088'') (\<lambda>hport.
      rbind (expect_parse environ ''LTAP_TAIL_RETAIN_MS'' ''60000'') (\<lambda>rms :: u64.
      rbind (expect_parse environ ''LTAP_COMPACT_ROWS'' ''1000000'') (\<lambda>crows.
      rbind (vacuum_setting environ) (\<lambda>vac.
      rbind (expect_parse environ ''LTAP_TAIL_MAX_ROWS'' ''100000'') (\<lambda>mrows.
        Ok \<lparr>pg_host = env_or environ ''PG_HOST'' ''localhost'', pg_port = pport,
            pg_user = env_or environ ''PG_USER'' ''postgres'', pg_password = env_or environ ''PG_PASSWORD'' ''postgres'',
            pg_db = db, c_source = src, sk_host = env_or environ ''LTAP_SK_HOST'' ''localhost'', sk_port = skport,
            sk_tenant = environ ''LTAP_TENANT_ID'', sk_timeline = environ ''LTAP_TIMELINE_ID'', sk_token = environ ''LTAP_SK_TOKEN'',
            c_ps_enabled = switched_on (env_or environ ''LTAP_PS'' ''on''),
            ps_host = env_or environ ''LTAP_PS_HOST'' ''localhost'', ps_port = psport, ps_token = environ ''LTAP_PS_TOKEN'',
            c_tables = (if ts = [] then None else Some ts), c_slot = env_or environ ''LTAP_SLOT'' (''ltap_'' @ db),
            c_lake = env_or environ ''LTAP_LAKE'' ''s3://lake'', s3_endpoint = env_or environ ''S3_ENDPOINT'' ''http://localhost:9000'',
            s3_access_key = env_or environ ''S3_ACCESS_KEY'' ''minioadmin'', s3_secret_key = env_or environ ''S3_SECRET_KEY'' ''minioadmin'',
            c_flush_rows = frows, c_flush_interval = unat fms, c_snapshot = switched_on (env_or environ ''LTAP_SNAPSHOT'' ''on''),
            http_port = hport, c_tail_retain = unat rms, c_compact_rows = crows, c_vacuum_after = vac,
            c_tail_max_rows = mrows\<rparr>))))))))))))"

text \<open>The binary takes its tables from the arguments after the program name; an embedder passes none.\<close>

definition from_env :: "environ \<Rightarrow> string list \<Rightarrow> Config result" where
  "from_env environ args = from_env_with_tables environ (drop 1 args)"

definition from_env_no_args :: "environ \<Rightarrow> Config result" where
  "from_env_no_args environ = from_env_with_tables environ []"

definition sql_conninfo :: "Config \<Rightarrow> string" where
  "sql_conninfo c = ''host='' @ pg_host c @ '' port='' @ show_nat (unat (pg_port c)) @ '' user='' @ pg_user c @
     '' password='' @ pg_password c @ '' dbname='' @ pg_db c"

definition storage_options :: "Config \<Rightarrow> (string \<times> string) list" where
  "storage_options c =
     [(''AWS_ACCESS_KEY_ID'', s3_access_key c), (''AWS_SECRET_ACCESS_KEY'', s3_secret_key c), (''AWS_ENDPOINT_URL'', s3_endpoint c),
      (''AWS_REGION'', ''us-east-1''), (''AWS_ALLOW_HTTP'', ''true''), (''AWS_S3_ALLOW_UNSAFE_RENAME'', ''true'')]"

section \<open>Discovery\<close>

text \<open>
  \<open>listing\<close> is the answer of the query for the ordinary tables of the public schema, \<open>disc\<close> the
  discovery of one table. A table that cannot be transcoded is skipped unless it was asked for.
\<close>

fun discover_loop :: "bool \<Rightarrow> (string \<Rightarrow> TableDesc result) \<Rightarrow> string list \<Rightarrow> TableDesc list \<Rightarrow> TableDesc list result" where
  "discover_loop auto disc [] descs = Ok descs"
| "discover_loop auto disc (name # names) descs =
     (case disc name of
        Inr d \<Rightarrow> discover_loop auto disc names (descs @ [d])
      | Inl (Panic s) \<Rightarrow> Err (Panic s)
      | Inl e \<Rightarrow> if auto then discover_loop auto disc names descs else Err e)"

definition discover_all ::
  "string list result \<Rightarrow> (string \<Rightarrow> TableDesc result) \<Rightarrow> string list option \<Rightarrow> TableDesc list result" where
  "discover_all listing disc tabs =
     rbind (case tabs of Some l \<Rightarrow> Ok l | None \<Rightarrow> listing) (\<lambda>names.
     rbind (discover_loop (tabs = None) disc names []) (\<lambda>descs.
       if descs = [] then Err (Bail ''no transcodable tables found'') else Ok descs))"

text \<open>\<open>setting\<close> answers \<^verbatim>\<open>SHOW\<close>; the tenant is asked for first.\<close>

definition neon_ids :: "(string \<Rightarrow> string result) \<Rightarrow> (string \<times> string) result" where
  "neon_ids setting =
     rbind (setting ''neon.tenant_id'') (\<lambda>tenant. rbind (setting ''neon.timeline_id'') (\<lambda>timeline. Ok (tenant, timeline)))"

text \<open>\<open>name_of\<close> answers the query for the current name of a table by its oid.\<close>

definition discover_by_oid ::
  "(u32 \<Rightarrow> string option result) \<Rightarrow> (string \<Rightarrow> TableDesc result) \<Rightarrow> u32 \<Rightarrow> TableDesc result" where
  "discover_by_oid name_of disc oid =
     rbind (name_of oid) (\<lambda>row. rbind (ok_or row (Bail ''table oid not found (dropped)'')) disc)"

section \<open>The standalone process\<close>

definition driver_cfg :: "Config \<Rightarrow> DriverCfg" where
  "driver_cfg c = \<lparr>flush_rows = unat (c_flush_rows c), flush_interval = c_flush_interval c, cfg_auto = (c_tables c = None),
     cfg_lake = c_lake c, cfg_snapshot = c_snapshot c, ps_enabled = c_ps_enabled c, cfg_tail_retain = c_tail_retain c,
     cfg_tail_max_rows = unat (c_tail_max_rows c), cfg_compact_rows = unat (c_compact_rows c), cfg_vacuum_after = c_vacuum_after c\<rparr>"

definition wal_source :: "Config \<Rightarrow> (string \<Rightarrow> string result) \<Rightarrow> WalSource" where
  "wal_source c setting = (case c_source c of
       Postgres \<Rightarrow> PostgresSource (c_slot c)
     | Safekeeper \<Rightarrow> SafekeeperSource
         (case (sk_tenant c, sk_timeline c) of (Some t, Some tl0) \<Rightarrow> Ok (t, tl0) | _ \<Rightarrow> neon_ids setting) (sk_token c))"

definition main_from_env ::
  "('d, 'c) Env \<Rightarrow> Sql \<Rightarrow> environ \<Rightarrow> string list \<Rightarrow> string list result \<Rightarrow> (string \<Rightarrow> string result) \<Rightarrow>
   (bytes result list \<times> error option list) result \<Rightarrow> ('d, 'c) Main result" where
  "main_from_env env sql environ args listing setting tcp =
     rbind (from_env environ args) (\<lambda>c.
       main_start env sql (driver_cfg c) (wal_source c setting) (discover_all listing (sql_by_name sql) (c_tables c)) tcp (pg_user c))"

section \<open>Numbers and lists in the environment\<close>

lemma to_digit_dec: "d < 10 \<Longrightarrow> to_digit 10 (digit_char d) = Some d"
proof -
  assume "d < 10"
  then have "d \<in> set [0..<10]" by simp
  moreover have "list_all (\<lambda>d. to_digit 10 (digit_char d) = Some d) [0..<10]"
    by (simp add: to_digit_def digit_char_def upt_rec)
  ultimately show ?thesis by (simp only: list_all_iff)
qed

lemma show_nat_digits:
  "show_nat n \<noteq> [] \<and> list_all (\<lambda>c. to_digit 10 c \<noteq> None) (show_nat n) \<and>
   foldl (\<lambda>v c. v * 10 + (case to_digit 10 c of Some d \<Rightarrow> d | None \<Rightarrow> 0)) 0 (show_nat n) = n"
proof (induction n rule: show_nat.induct)
  case (1 n)
  show ?case
  proof (cases "n < 10")
    case True
    then show ?thesis by (simp add: show_nat.simps [of n] to_digit_dec)
  next
    case False
    then show ?thesis using 1 [OF False] by (simp add: show_nat.simps [of n] to_digit_dec)
  qed
qed

lemma from_show_nat: "n < 2 ^ LENGTH('a) \<Longrightarrow> from_str_radix 10 (show_nat n) = Ok (word_of_nat n :: 'a::len word)"
proof -
  assume n: "n < 2 ^ LENGTH('a)"
  have "to_digit 10 c \<noteq> None \<Longrightarrow> c \<noteq> CHR ''+''" for c by (auto simp: to_digit_def)
  then show ?thesis using show_nat_digits [of n] n
    by (cases "show_nat n") (auto simp: from_str_radix_def Let_def simp del: foldl_Cons)
qed

lemma expect_show:
  "environ key = Some (show_nat (unat w)) \<Longrightarrow> expect_parse environ key dflt = Ok (w :: 'a::len word)"
  using from_show_nat [of "unat w", where 'a = 'a] unsigned_less [of w, where 'a = nat] by (simp add: expect_parse_def env_or_def)

lemma split_comma_plain: "CHR '','' \<notin> set s \<Longrightarrow> split_comma s = [s]"
  by (induction s) auto

lemma split_comma_append: "CHR '','' \<notin> set s \<Longrightarrow> split_comma (s @ CHR '','' # t) = s # split_comma t"
  by (induction s) auto

lemma split_join: "ss \<noteq> [] \<Longrightarrow> \<forall>s \<in> set ss. CHR '','' \<notin> set s \<Longrightarrow> split_comma (join_comma ss) = ss"
  by (induction ss rule: join_comma.induct) (simp_all add: split_comma_plain split_comma_append)

definition table_name_ok :: "string \<Rightarrow> bool" where
  "table_name_ok s \<longleftrightarrow> s \<noteq> [] \<and> trim s = s \<and> CHR '','' \<notin> set s"

lemma table_list_join: "ss \<noteq> [] \<Longrightarrow> list_all table_name_ok ss \<Longrightarrow> table_list (join_comma ss) = ss"
proof -
  assume ss: "ss \<noteq> []" "list_all table_name_ok ss"
  then have "map trim ss = ss" by (auto simp: list_all_iff table_name_ok_def intro: map_idI)
  moreover have "filter (\<lambda>s. s \<noteq> []) ss = ss" using ss(2) by (auto simp: list_all_iff table_name_ok_def)
  moreover have "split_comma (join_comma ss) = ss" using ss by (intro split_join) (auto simp: list_all_iff table_name_ok_def)
  ultimately show ?thesis by (simp add: table_list_def)
qed

section \<open>A configuration written to the environment\<close>

definition on_off :: "bool \<Rightarrow> string" where
  "on_off b = (if b then ''on'' else ''off'')"

definition optional :: "string \<Rightarrow> string option \<Rightarrow> (string \<times> string) list" where
  "optional k v = (case v of Some s \<Rightarrow> [(k, s)] | None \<Rightarrow> [])"

definition config_vars :: "Config \<Rightarrow> (string \<times> string) list" where
  "config_vars c =
     [(''PG_HOST'', pg_host c), (''PG_PORT'', show_nat (unat (pg_port c))), (''PG_USER'', pg_user c), (''PG_PASSWORD'', pg_password c),
      (''PG_DB'', pg_db c), (''LTAP_SOURCE'', case c_source c of Postgres \<Rightarrow> ''postgres'' | Safekeeper \<Rightarrow> ''safekeeper''),
      (''LTAP_SK_HOST'', sk_host c), (''LTAP_SK_PORT'', show_nat (unat (sk_port c))), (''LTAP_PS'', on_off (c_ps_enabled c)),
      (''LTAP_PS_HOST'', ps_host c), (''LTAP_PS_PORT'', show_nat (unat (ps_port c))), (''LTAP_SLOT'', c_slot c), (''LTAP_LAKE'', c_lake c),
      (''S3_ENDPOINT'', s3_endpoint c), (''S3_ACCESS_KEY'', s3_access_key c), (''S3_SECRET_KEY'', s3_secret_key c),
      (''LTAP_FLUSH_ROWS'', show_nat (unat (c_flush_rows c))), (''LTAP_FLUSH_MS'', show_nat (c_flush_interval c)),
      (''LTAP_SNAPSHOT'', on_off (c_snapshot c)), (''LTAP_HTTP_PORT'', show_nat (unat (http_port c))),
      (''LTAP_TAIL_RETAIN_MS'', show_nat (c_tail_retain c)), (''LTAP_COMPACT_ROWS'', show_nat (unat (c_compact_rows c))),
      (''LTAP_VACUUM_MINS'', case c_vacuum_after c of None \<Rightarrow> ''off'' | Some ms \<Rightarrow> show_nat (ms div 60000)),
      (''LTAP_TAIL_MAX_ROWS'', show_nat (unat (c_tail_max_rows c)))] @
     optional ''LTAP_TENANT_ID'' (sk_tenant c) @ optional ''LTAP_TIMELINE_ID'' (sk_timeline c) @
     optional ''LTAP_SK_TOKEN'' (sk_token c) @ optional ''LTAP_PS_TOKEN'' (ps_token c) @
     optional ''LTAP_TABLES'' (map_option join_comma (c_tables c))"

definition config_env :: "Config \<Rightarrow> environ" where
  "config_env c = map_of (config_vars c)"

definition config_ok :: "Config \<Rightarrow> bool" where
  "config_ok c \<longleftrightarrow> c_flush_interval c < 2 ^ 64 \<and> c_tail_retain c < 2 ^ 64 \<and>
     (case c_tables c of None \<Rightarrow> True | Some ts \<Rightarrow> ts \<noteq> [] \<and> list_all table_name_ok ts) \<and>
     (case c_vacuum_after c of None \<Rightarrow> True | Some ms \<Rightarrow> ms mod 60000 = 0 \<and> ms div 1000 < 2 ^ 64)"

lemma map_of_optional:
  "map_of (optional k v) k' = (if k' = k then v else None)"
  by (cases v) (auto simp: optional_def)

lemma config_env_get:
  "config_env c ''PG_HOST'' = Some (pg_host c)" "config_env c ''PG_PORT'' = Some (show_nat (unat (pg_port c)))"
  "config_env c ''PG_USER'' = Some (pg_user c)" "config_env c ''PG_PASSWORD'' = Some (pg_password c)" "config_env c ''PG_DB'' = Some (pg_db c)"
  "config_env c ''LTAP_SOURCE'' = Some (case c_source c of Postgres \<Rightarrow> ''postgres'' | Safekeeper \<Rightarrow> ''safekeeper'')"
  "config_env c ''LTAP_SK_HOST'' = Some (sk_host c)" "config_env c ''LTAP_SK_PORT'' = Some (show_nat (unat (sk_port c)))"
  "config_env c ''LTAP_PS'' = Some (on_off (c_ps_enabled c))" "config_env c ''LTAP_PS_HOST'' = Some (ps_host c)"
  "config_env c ''LTAP_PS_PORT'' = Some (show_nat (unat (ps_port c)))" "config_env c ''LTAP_SLOT'' = Some (c_slot c)"
  "config_env c ''LTAP_LAKE'' = Some (c_lake c)" "config_env c ''S3_ENDPOINT'' = Some (s3_endpoint c)"
  "config_env c ''S3_ACCESS_KEY'' = Some (s3_access_key c)" "config_env c ''S3_SECRET_KEY'' = Some (s3_secret_key c)"
  "config_env c ''LTAP_FLUSH_ROWS'' = Some (show_nat (unat (c_flush_rows c)))" "config_env c ''LTAP_FLUSH_MS'' = Some (show_nat (c_flush_interval c))"
  "config_env c ''LTAP_SNAPSHOT'' = Some (on_off (c_snapshot c))" "config_env c ''LTAP_HTTP_PORT'' = Some (show_nat (unat (http_port c)))"
  "config_env c ''LTAP_TAIL_RETAIN_MS'' = Some (show_nat (c_tail_retain c))"
  "config_env c ''LTAP_COMPACT_ROWS'' = Some (show_nat (unat (c_compact_rows c)))"
  "config_env c ''LTAP_VACUUM_MINS'' = Some (case c_vacuum_after c of None \<Rightarrow> ''off'' | Some ms \<Rightarrow> show_nat (ms div 60000))"
  "config_env c ''LTAP_TAIL_MAX_ROWS'' = Some (show_nat (unat (c_tail_max_rows c)))"
  "config_env c ''LTAP_TENANT_ID'' = sk_tenant c" "config_env c ''LTAP_TIMELINE_ID'' = sk_timeline c"
  "config_env c ''LTAP_SK_TOKEN'' = sk_token c" "config_env c ''LTAP_PS_TOKEN'' = ps_token c"
  "config_env c ''LTAP_TABLES'' = map_option join_comma (c_tables c)"
  by (simp_all add: config_env_def config_vars_def map_add_def map_of_append map_of_optional split: option.splits)

lemma vacuum_show:
  assumes "config_ok c"
  shows "vacuum_setting (config_env c) = Ok (c_vacuum_after c)"
proof (cases "c_vacuum_after c")
  case None
  then show ?thesis by (simp add: vacuum_setting_def env_or_def config_env_get)
next
  case (Some ms)
  have "ms mod 60000 = 0" "ms div 1000 < 2 ^ 64" using assms Some by (simp_all add: config_ok_def)
  then obtain q where q: "ms = 60000 * q" "60 * q < 2 ^ 64" by (auto elim!: dvdE simp: mod_eq_0_iff_dvd)
  define w :: u64 where "w = word_of_nat q"
  have w: "unat w = q" using q(2) by (simp add: w_def unat_of_nat)
  have e: "config_env c ''LTAP_VACUUM_MINS'' = Some (show_nat (unat w))" by (simp add: config_env_get Some w q(1))
  have "show_nat n \<noteq> ''off''" for n using show_nat_digits [of n] by (auto simp: to_digit_def)
  then show ?thesis
    using expect_show [of "config_env c" "''LTAP_VACUUM_MINS''" w "''1440''"] e q Some
    by (simp add: vacuum_setting_def env_or_def e w mult.commute)
qed

lemma tables_show: "config_ok c \<Longrightarrow> config_tables (config_env c) [] = (case c_tables c of None \<Rightarrow> [] | Some ts \<Rightarrow> ts)"
  by (auto simp: config_tables_def config_env_get config_ok_def table_list_join split: option.splits)

lemma expect_show_nat:
  "environ key = Some (show_nat n) \<Longrightarrow> n < 2 ^ LENGTH('a) \<Longrightarrow> expect_parse environ key dflt = Ok (word_of_nat n :: 'a::len word)"
  by (simp add: expect_parse_def env_or_def from_show_nat)

text \<open>
  C40 (roundtrip): a configuration whose values are written to the environment variables, numbers in decimal
  and the tables as a comma-separated list, is read back unchanged when no table is named by an argument.
\<close>

theorem config_env_roundtrip:
  assumes "config_ok c"
  shows "from_env_no_args (config_env c) = Ok c"
proof -
  have ms: "c_flush_interval c < 2 ^ 64" "c_tail_retain c < 2 ^ 64" using assms by (simp_all add: config_ok_def)
  have p16: "expect_parse (config_env c) ''PG_PORT'' d = Ok (pg_port c)" "expect_parse (config_env c) ''LTAP_SK_PORT'' d = Ok (sk_port c)"
    "expect_parse (config_env c) ''LTAP_PS_PORT'' d = Ok (ps_port c)" "expect_parse (config_env c) ''LTAP_HTTP_PORT'' d = Ok (http_port c)" for d
    by (rule expect_show, rule config_env_get)+
  have p64: "expect_parse (config_env c) ''LTAP_FLUSH_ROWS'' d = Ok (c_flush_rows c)"
    "expect_parse (config_env c) ''LTAP_COMPACT_ROWS'' d = Ok (c_compact_rows c)"
    "expect_parse (config_env c) ''LTAP_TAIL_MAX_ROWS'' d = Ok (c_tail_max_rows c)" for d
    by (rule expect_show, rule config_env_get)+
  have pms: "expect_parse (config_env c) ''LTAP_FLUSH_MS'' d = Ok (word_of_nat (c_flush_interval c) :: u64)"
    "expect_parse (config_env c) ''LTAP_TAIL_RETAIN_MS'' d = Ok (word_of_nat (c_tail_retain c) :: u64)" for d
    by (rule expect_show_nat, rule config_env_get, use ms in simp)+
  have src: "source_kind (case c_source c of Postgres \<Rightarrow> ''postgres'' | Safekeeper \<Rightarrow> ''safekeeper'') = Ok (c_source c)"
    by (cases "c_source c") (simp_all add: source_kind_def)
  have sw: "switched_on (on_off b) = b" for b by (simp add: switched_on_def on_off_def)
  have ts: "(if config_tables (config_env c) [] = [] then None else Some (config_tables (config_env c) [])) = c_tables c"
    using assms tables_show [OF assms] by (auto simp: config_ok_def split: option.splits)
  show ?thesis
    unfolding from_env_no_args_def from_env_with_tables_def Let_def ts
    using ms by (simp add: p16 p64 pms src vacuum_show [OF assms] sw env_or_def config_env_get unat_of_nat)
qed

definition sample_config :: Config where
  "sample_config = \<lparr>pg_host = ''db'', pg_port = 5433, pg_user = ''u'', pg_password = ''p'', pg_db = ''app'', c_source = Safekeeper,
     sk_host = ''sk'', sk_port = 5454, sk_tenant = Some ''t'', sk_timeline = None, sk_token = None, c_ps_enabled = False,
     ps_host = ''ps'', ps_port = 6400, ps_token = None, c_tables = Some [''orders'', ''items''], c_slot = ''s'', c_lake = ''s3://x'',
     s3_endpoint = ''e'', s3_access_key = ''a'', s3_secret_key = ''k'', c_flush_rows = 10, c_flush_interval = 20, c_snapshot = True,
     http_port = 0, c_tail_retain = 30, c_compact_rows = 40, c_vacuum_after = Some 120000, c_tail_max_rows = 50\<rparr>"

lemma sample_config_ok: "config_ok sample_config"
proof -
  have "trim ''orders'' = ''orders''" "trim ''items'' = ''items''" by code_simp+
  then show ?thesis by (simp add: config_ok_def sample_config_def table_name_ok_def)
qed

theorem config_env_roundtrip_witness:
  "config_ok sample_config \<and> from_env_no_args (config_env sample_config) = Ok sample_config"
  using config_env_roundtrip [OF sample_config_ok] sample_config_ok by blast

text \<open>With no variable set and no argument, every setting has its documented default.\<close>

lemma config_defaults:
  "\<exists>c. from_env_no_args (\<lambda>_. None) = Ok c \<and> c_tables c = None \<and> c_slot c = ''ltap_app'' \<and> c_lake c = ''s3://lake'' \<and>
     http_port c = 8088 \<and> c_tail_retain c = 60000 \<and> c_tail_max_rows c = 100000 \<and> c_compact_rows c = 1000000 \<and>
     c_vacuum_after c = Some (1440 * 60 * 1000) \<and> c_snapshot c"
  by (simp add: from_env_no_args_def from_env_with_tables_def config_tables_def env_or_def expect_parse_def from_str_radix_def
      to_digit_def source_kind_def vacuum_setting_def switched_on_def Let_def)

section \<open>Discovery and startup\<close>

lemma discover_named: "discover_loop False disc names acc = rbind (rmap disc names) (\<lambda>ds. Ok (acc @ ds))"
proof (induction names arbitrary: acc)
  case (Cons n ns)
  show ?case
  proof (cases "disc n")
    case (Inl e)
    then show ?thesis by (cases e) simp_all
  next
    case (Inr d)
    then show ?thesis using Cons by (cases "rmap disc ns") simp_all
  qed
qed simp

lemma discover_auto:
  "(\<And>n s. disc n \<noteq> Err (Panic s)) \<Longrightarrow> discover_loop True disc names acc = Ok (acc @ List.map_filter (\<lambda>n. result_ok (disc n)) names)"
proof (induction names arbitrary: acc)
  case (Cons n ns)
  show ?case
  proof (cases "disc n")
    case (Inl e)
    then show ?thesis using Cons by (cases e) (simp_all add: map_filter_simps)
  next
    case (Inr d)
    then show ?thesis using Cons.IH [OF Cons.prems] by (simp add: map_filter_simps)
  qed
qed (simp add: map_filter_simps)

text \<open>
  Tables that were asked for are all discovered, in order, or startup fails with the first error; otherwise
  the tables of the schema that can be transcoded are taken, at least one of them.
\<close>

lemma discover_all_named:
  "discover_all listing disc (Some names) = Ok ds \<longleftrightarrow> ds \<noteq> [] \<and> rmap disc names = Ok ds"
  by (cases "rmap disc names") (auto simp: discover_all_def discover_named)

lemma discover_all_auto:
  assumes "\<And>n s. disc n \<noteq> Err (Panic s)"
  shows "discover_all (Ok names) disc None = Ok ds \<longleftrightarrow> ds \<noteq> [] \<and> ds = List.map_filter (\<lambda>n. result_ok (disc n)) names"
  by (auto simp: discover_all_def discover_auto [OF assms])

text \<open>A process started from its environment is a state of the driver, so the driver's theorems hold of it.\<close>

lemma main_from_env_reach:
  "main_from_env env sql environ args listing setting tcp = Ok m \<Longrightarrow> main_reach (persisted_restart m) (last_recv_lsn m) m"
  by (auto simp: main_from_env_def rbind_eq_Ok intro: main_starts)

end
