(* ===== verification/Spec2Isabelle.thy ===== *)
theory Spec2Isabelle
  imports Timetravel Walreader Fragment Catalog Snapshot Layerscan Rebuild Pagestream Embedded Startup
begin

text \<open>
  A verification of open-ltap, a transcoder that follows the physical WAL of PostgreSQL (or of a Neon
  safekeeper) and keeps, for every table, a Delta change log that a query engine can read.

  \<^bold>\<open>The program.\<close> WAL bytes arrive over the replication protocol (\<^verbatim>\<open>src/pgwire.rs\<close>), are
  reassembled into records and parsed (\<^verbatim>\<open>src/wal/mod.rs\<close>), and heap records are decoded into
  typed rows (\<^verbatim>\<open>src/wal/heap.rs\<close>) with the descriptors of \<^verbatim>\<open>src/schema.rs\<close> or
  \<^verbatim>\<open>src/catalog.rs\<close>. The engine (\<^verbatim>\<open>src/engine.rs\<close>) buffers the changes of open
  transactions (\<^verbatim>\<open>src/txbuf.rs\<close>), turns a commit into change rows and flushes them with
  watermarks through the sink (\<^verbatim>\<open>src/sink.rs\<close>); rows not yet flushed are served by
  \<^verbatim>\<open>src/serve.rs\<close>. A table starts from a snapshot (\<^verbatim>\<open>src/snapshot.rs\<close>). Two drivers
  run the engine: \<^verbatim>\<open>src/main.rs\<close> and \<^verbatim>\<open>src/embed.rs\<close>. The reverse path rebuilds heap
  pages from rows (\<^verbatim>\<open>src/reconstruct.rs\<close>), emits columnar fragments of pages
  (\<^verbatim>\<open>src/fragment.rs\<close>, with visibility from \<^verbatim>\<open>src/clog.rs\<close> and
  \<^verbatim>\<open>src/multixact.rs\<close>) and resolves pages at an LSN (\<^verbatim>\<open>src/timetravel.rs\<close>).

  \<^bold>\<open>Theories and sources.\<close>
  \<^item> \<open>Prelude\<close>: machine integers, the error monad, checked slices, byte codecs, shared lemmas.
  \<^item> \<open>Walreader\<close>, \<open>Walrecord\<close>: stream reassembly, record parsing and page images of
    \<^verbatim>\<open>wal/mod.rs\<close>.
  \<^item> \<open>Compression\<close>, \<open>Numeric\<close>, \<open>Jsonb\<close>, \<open>Heaprec\<close>, \<open>Toast\<close>, \<open>Heap\<close>: the parts of \<^verbatim>\<open>wal/heap.rs\<close>.
  \<^item> \<open>Schema\<close>, \<open>Catalog\<close>, \<open>Pagestream\<close>: descriptors from SQL rows (\<^verbatim>\<open>schema.rs\<close>), from catalog
    pages, and the pages of a pageserver connection (\<^verbatim>\<open>catalog.rs\<close>).
  \<^item> \<open>Txbuf\<close>, \<open>Clog\<close>, \<open>Multixact\<close>, \<open>Timetravel\<close>, \<open>Reconstruct\<close>, \<open>Fragment\<close>, \<open>Sink\<close>, \<open>Snapshot\<close>, \<open>Pgwire\<close>: the source
    file of the same name. \<open>Tail\<close>: \<^verbatim>\<open>serve.rs\<close>.
  \<^item> \<open>Engine\<close>: the state and every operation of \<^verbatim>\<open>engine.rs\<close>. \<open>Replay\<close>: the engine over decoded
    events and a crash between flushes. \<open>Lifecycle\<close>: its invariant from startup on.
  \<^item> \<open>Driver\<close>: \<^verbatim>\<open>main.rs\<close> and \<^verbatim>\<open>embed.rs\<close>. \<open>Startup\<close>: the configuration of
    \<^verbatim>\<open>engine.rs\<close>, the discovery of \<^verbatim>\<open>schema.rs\<close>, and the process started from its environment.
  \<^item> \<open>Layerscan\<close>, \<open>Rebuild\<close>, \<open>Embedded\<close>: \<^verbatim>\<open>examples/layerscan.rs\<close>, \<^verbatim>\<open>rebuild.rs\<close>,
    \<^verbatim>\<open>embedded.rs\<close>.

  \<^bold>\<open>State and operations.\<close> A struct is a record with its fields, an enum a datatype, a method one
  definition that takes the state and returns it. A \<^verbatim>\<open>Result\<close> is a sum with the error on the left;
  a panic (index out of range, overflow in the checked profile, \<^verbatim>\<open>expect\<close>) is the error \<open>Panic\<close>. Wire and
  disk integers are words; offsets, and LSNs inside the engine, are natural numbers, and they are cut to 64 bits
  where they are written. A hash map is an association list or a function; where its iteration order could
  matter, the order of the list is arbitrary and the theorems hold for every order.

  \<^bold>\<open>What is shown.\<close>
  \<^item> The stream: any cutting of the byte stream into chunks gives the same records, a record is parsed to
    what was written, messages and LSN texts survive the wire, a page that is returned answers the request.
  \<^item> Values and tuples: numerics, toasted and compressed values and rows read back what was encoded;
    compressed updates decode as the whole tuple; schema drift is detected exactly.
  \<^item> Transactions and visibility: a commit hands over exactly the changes of the transaction and its
    subtransactions in WAL order; the restart position covers every open transaction; the visibility check is
    MVCC visibility; HOT chains resolve to the visible version.
  \<^item> The engine: its invariant holds in every state reached from startup; a crash and restart at the
    persisted watermarks ships every committed change exactly once; flushed watermarks are what a resume
    reads; the position reported to the server never passes an open transaction; events decoded outside the
    engine have the effect of the raw record.
  \<^item> The lake: schema invariant of the sink, compaction keeps the current rows, the mirror is rebuilt from the
    log, the tail keeps unflushed rows and answers in time with read-your-writes.
  \<^item> Pages: rebuilt pages decode to their rows, are well formed and are built exactly when they fit; emission
    inverts building; the cross-check passes on every canonical page; descriptors from pages are those of the
    SQL path; layer files are read back and their page source agrees with the trait's default; the GC gate
    keeps every page that can be read.
  \<^item> Startup: a snapshot ends and is the table; a configuration written to the environment is read back.

  \<^bold>\<open>Interfaces.\<close> \<open>tx_log_store\<close> (an abstract log of open transactions, interpreted on the transaction buffer),
  \<open>slru_source\<close> (pages of an SLRU file, interpreted on the commit log and both multixact files),
  \<open>page_resolver\<close> (page@LSN reads, interpreted on the lake and on branches) and \<open>kept_by_engine\<close> (what
  flushing, compacting and reconciling keep, interpreted on the engine invariant and on the retained positions)
  are locales; the theorems on the model rest on their interpretations.

  \<^bold>\<open>Bounds.\<close> The walk along a HOT chain stops after 1024 links and jsonb nesting at depth 200, as in the source.
  The B-tree walk of a layer takes the number of calls the stack holds; a stack deeper than the tree is enough.
  The COPY loop of the snapshot is a partial function that is shown to be defined everywhere; the message
  loops end by the bytes still to be read.

  \<^bold>\<open>Parameters.\<close> Code outside the repository is an argument: the CRC, LZ4 and Zstd, the Delta table and
  Arrow operations, the answers of SQL queries, clock readings, what a socket delivers and the answers of the
  pageserver. Hypotheses on them are stated in the theorems and shown to be satisfiable by a witness.
  The exactly-once theorem is stated over decoded events; that a record acts as such an event is
  \<open>handle_record_event\<close> in \<open>Lifecycle\<close>.

  \<^bold>\<open>Not modelled.\<close> Logging, the accept loop of the HTTP endpoint and task scheduling (a turn of
  \<^verbatim>\<open>select!\<close> is one step, in any order), the timers, which only decide when a step is taken, the crate root,
  the tests, the deployment files, and the remaining example programs, which call the modelled modules and
  print. In the modelled examples the printed information lines are left out.
\<close>

end
